(* ===== verification/Prelude.thy ===== *)
theory Prelude
  imports Main "HOL-Library.Word" "HOL-Library.Sublist" "HOL-Library.List_Lexorder"
    "HOL-Library.Char_ord" "HOL-Library.Product_Lexorder"
begin

unbundle bit_operations_syntax

text \<open>
  The shared vocabulary of the development: byte strings and Go's nil slices, the
  outcome of a Go call (a value, an error, or a panic), the status codes of
  \<^verbatim>\<open>src/internal/errors\<close>, Go's slicing, and the generic facts on lists, words
  and results that the component theories use.
\<close>

section \<open>Collections of facts\<close>

named_theorems codec \<open>round trips of the binary encoding\<close>
named_theorems keeps \<open>an operation keeps an invariant\<close>
named_theorems result_simps \<open>computation rules of results\<close>

section \<open>Bytes\<close>

type_synonym byte = "8 word"
type_synonym bytes = "byte list"

text \<open>A Go slice that may be nil; \<^term>\<open>None\<close> is nil.\<close>
type_synonym slice = "bytes option"

text \<open>The contents of a slice: ranging over or appending a nil slice is like an empty one.\<close>
definition contents :: "slice \<Rightarrow> bytes" where
  "contents s = (case s of None \<Rightarrow> [] | Some b \<Rightarrow> b)"

lemma contents_simps [simp]: "contents None = []" "contents (Some b) = b"
  by (simp_all add: contents_def)

text \<open>
  The three-way comparison of \<^verbatim>\<open>strings.Compare\<close> and \<^verbatim>\<open>bytes.Compare\<close>: byte strings and
  strings are ordered lexicographically by their bytes.
\<close>
definition cmp3 :: "'a::linorder \<Rightarrow> 'a \<Rightarrow> int" where
  "cmp3 a b = (if a < b then - 1 else if b < a then 1 else 0)"

lemma cmp3_simps [simp]:
  "cmp3 a b < 0 \<longleftrightarrow> a < b" "cmp3 a b = 0 \<longleftrightarrow> a = b" "0 \<le> cmp3 a b \<longleftrightarrow> b \<le> a" "cmp3 a b = - 1 \<longleftrightarrow> a < b"
  by (auto simp: cmp3_def)

text \<open>The bytes of a Go string; a character is one byte of it.\<close>
definition string_bytes :: "string \<Rightarrow> bytes" where
  "string_bytes s = map (\<lambda>c. word_of_nat (of_char c)) s"

section \<open>Errors and outcomes\<close>

datatype status =
    StatusOK | StatusDelivered | StatusPending | StatusRemote | StatusWrongPartition
  | StatusBadRequest | StatusUnauthenticated | StatusInsufficientCredits | StatusUnauthorized
  | StatusNotFound | StatusNotAllowed | StatusConflict | StatusBadSignerVersion
  | StatusBadTimestamp | StatusBadUrlLength | StatusIncompleteChain
  | StatusInsufficientBalance | StatusInternalError | StatusUnknownError
  | StatusEncodingError | StatusFatalError

fun GetEnumValue :: "status \<Rightarrow> nat" where
  "GetEnumValue StatusOK = 200"
| "GetEnumValue StatusDelivered = 201"
| "GetEnumValue StatusPending = 202"
| "GetEnumValue StatusRemote = 203"
| "GetEnumValue StatusWrongPartition = 301"
| "GetEnumValue StatusBadRequest = 400"
| "GetEnumValue StatusUnauthenticated = 401"
| "GetEnumValue StatusInsufficientCredits = 402"
| "GetEnumValue StatusUnauthorized = 403"
| "GetEnumValue StatusNotFound = 404"
| "GetEnumValue StatusNotAllowed = 405"
| "GetEnumValue StatusConflict = 409"
| "GetEnumValue StatusBadSignerVersion = 411"
| "GetEnumValue StatusBadTimestamp = 412"
| "GetEnumValue StatusBadUrlLength = 413"
| "GetEnumValue StatusIncompleteChain = 414"
| "GetEnumValue StatusInsufficientBalance = 415"
| "GetEnumValue StatusInternalError = 500"
| "GetEnumValue StatusUnknownError = 501"
| "GetEnumValue StatusEncodingError = 502"
| "GetEnumValue StatusFatalError = 503"

definition Success :: "status \<Rightarrow> bool" where
  "Success s \<longleftrightarrow> GetEnumValue s < 300"

text \<open>
  An error value: one of the standard library (\<^verbatim>\<open>fmt.Errorf\<close>, \<^verbatim>\<open>errors.New\<close>) or one
  with a status code. The text is the format string, without its arguments.
\<close>
datatype error = Plain string | Coded status string

datatype 'a result = Ok 'a | Err error | Panic string

fun bind_result :: "'a result \<Rightarrow> ('a \<Rightarrow> 'b result) \<Rightarrow> 'b result" where
  "bind_result (Ok a) f = f a"
| "bind_result (Err e) f = Err e"
| "bind_result (Panic p) f = Panic p"

fun map_ok :: "('a \<Rightarrow> 'b) \<Rightarrow> 'a result \<Rightarrow> 'b result" where
  "map_ok f (Ok a) = Ok (f a)"
| "map_ok f (Err e) = Err e"
| "map_ok f (Panic p) = Panic p"

fun is_ok :: "'a result \<Rightarrow> bool" where
  "is_ok (Ok _) = True"
| "is_ok (Err _) = False"
| "is_ok (Panic _) = False"

lemma bind_result_ok_iff [result_simps]:
  "bind_result m f = Ok b \<longleftrightarrow> (\<exists>a. m = Ok a \<and> f a = Ok b)"
  by (cases m) auto

lemma bind_result_assoc:
  "bind_result (bind_result m f) g = bind_result m (\<lambda>a. bind_result (f a) g)"
  by (cases m) auto

lemma is_ok_iff: "is_ok r \<longleftrightarrow> (\<exists>a. r = Ok a)"
  by (cases r) auto

text \<open>\<^verbatim>\<open>b[n:]\<close> and \<^verbatim>\<open>b[:n]\<close>, which panic when \<^term>\<open>n\<close> is past the end.\<close>
definition slice_from :: "nat \<Rightarrow> 'a list \<Rightarrow> 'a list result" where
  "slice_from n b = (if n \<le> length b then Ok (drop n b) else Panic ''slice bounds out of range'')"

definition slice_to :: "nat \<Rightarrow> 'a list \<Rightarrow> 'a list result" where
  "slice_to n b = (if n \<le> length b then Ok (take n b) else Panic ''slice bounds out of range'')"

lemma slice_from_append [simp]: "slice_from (length a) (a @ b) = Ok b"
  by (simp add: slice_from_def)

lemma slice_to_append [simp]: "slice_to (length a) (a @ b) = Ok a"
  by (simp add: slice_to_def)

text \<open>Sequencing of outcomes that may also not be reached, \<^term>\<open>None\<close> being a call that does not return.\<close>
definition rbind :: "'a result option \<Rightarrow> ('a \<Rightarrow> 'b result option) \<Rightarrow> 'b result option" where
  "rbind m f = Option.bind m (\<lambda>r. case r of Ok x \<Rightarrow> f x | Err e \<Rightarrow> Some (Err e) | Panic s \<Rightarrow> Some (Panic s))"

lemma rbind_simps [simp]:
  "rbind None f = None" "rbind (Some (Ok x)) f = f x"
  "rbind (Some (Err e)) f = Some (Err e)" "rbind (Some (Panic s)) f = Some (Panic s)"
  by (simp_all add: rbind_def)

lemma rbind_assoc: "rbind (rbind m f) g = rbind m (\<lambda>x. rbind (f x) g)"
  by (auto simp: rbind_def split: option.split result.split bind_split)

lemma rbind_mono [partial_function_mono]:
  assumes "mono_option B" "\<And>y. mono_option (\<lambda>f. C y f)"
  shows "mono_option (\<lambda>f. rbind (B f) (\<lambda>y. C y f))"
  unfolding rbind_def
proof (rule bind_mono [OF assms(1)])
  fix r
  show "mono_option (\<lambda>f. case r of Ok x \<Rightarrow> C x f | Err e \<Rightarrow> Some (Err e) | Panic s \<Rightarrow> Some (Panic s))"
    by (cases r) (simp_all add: assms(2) option.const_mono)
qed

section \<open>Generic facts\<close>

lemma length_induct_half [case_names Nil step]:
  assumes "P []" and "\<And>xs. xs \<noteq> [] \<Longrightarrow> (\<And>ys. length ys \<le> length xs div 2 \<Longrightarrow> P ys) \<Longrightarrow> P xs"
  shows "P xs"
proof (induction xs rule: length_induct)
  case (1 xs)
  show ?case
  proof (cases "xs = []")
    case False
    then have "length xs div 2 < length xs"
      by (cases xs) auto
    with 1 show ?thesis
      by (intro assms(2) [OF False]) auto
  qed (use assms(1) in simp)
qed

lemma less_power_mono: "n < (2 :: nat) ^ a \<Longrightarrow> a \<le> b \<Longrightarrow> n < 2 ^ b"
  by (meson less_le_trans one_le_numeral power_increasing)

lemma drop_take_split:
  assumes "a \<le> b" "b \<le> c"
  shows "drop a (take c xs) = drop a (take b xs) @ drop b (take c xs)"
proof -
  have "drop a (take c xs) = take (b - a) (drop a (take c xs)) @ drop (b - a) (drop a (take c xs))"
    by (rule append_take_drop_id [symmetric])
  then show ?thesis using assms by (simp add: take_drop min_def)
qed

lemma int_pred: "0 < n \<Longrightarrow> int n - 1 = int (n - 1)"
  by simp

lemma map_ok_Ok: "map_ok f r = Ok b \<longleftrightarrow> (\<exists>a. r = Ok a \<and> b = f a)"
  by (cases r) auto

lemma if_Err_Ok: "(if p then Err e else r) = Ok b \<longleftrightarrow> \<not> p \<and> r = Ok b"
  by simp

end
