(* ===== verification/Sha256.thy ===== *)
theory Sha256
  imports Prelude
begin

unbundle bit_operations_syntax

text \<open>
  SHA-256 (FIPS 180-4), which the code calls through \<^verbatim>\<open>crypto/sha256\<close>. The definition is
  executable; the developments above it use only that a digest has 32 bytes.
\<close>

text \<open>
  The constants are the first 32 bits of the fractional parts of the cube roots of the first 64
  primes, and the initial state those of the square roots of the first eight. The root is found bit
  by bit.
\<close>
fun int_root :: "nat \<Rightarrow> nat \<Rightarrow> nat \<Rightarrow> nat \<Rightarrow> nat" where
  "int_root k n 0 r = r"
| "int_root k n (Suc b) r = int_root k n b (if (r + 2 ^ b) ^ k \<le> n then r + 2 ^ b else r)"

definition root_fraction :: "nat \<Rightarrow> nat \<Rightarrow> 32 word" where
  "root_fraction k p = word_of_nat (int_root k (p * 2 ^ (32 * k)) 40 0)"

definition sha_primes :: "nat list" where
  "sha_primes = [2, 3, 5, 7, 11, 13, 17, 19, 23, 29, 31, 37, 41, 43, 47, 53,
    59, 61, 67, 71, 73, 79, 83, 89, 97, 101, 103, 107, 109, 113, 127, 131,
    137, 139, 149, 151, 157, 163, 167, 173, 179, 181, 191, 193, 197, 199, 211, 223,
    227, 229, 233, 239, 241, 251, 257, 263, 269, 271, 277, 281, 283, 293, 307, 311]"

definition sha_K :: "32 word list" where
  "sha_K = map (root_fraction 3) sha_primes"

record sha_state =
  sA :: "32 word"
  sB :: "32 word"
  sC :: "32 word"
  sD :: "32 word"
  sE :: "32 word"
  sF :: "32 word"
  sG :: "32 word"
  sH :: "32 word"

definition sha_init :: sha_state where
  "sha_init = (let h = root_fraction 2 in \<lparr> sA = h 2, sB = h 3, sC = h 5, sD = h 7,
     sE = h 11, sF = h 13, sG = h 17, sH = h 19 \<rparr>)"

text \<open>The low \<^term>\<open>n\<close> bytes of a word, the most significant first.\<close>
definition be_bytes :: "nat \<Rightarrow> 'a::len word \<Rightarrow> bytes" where
  "be_bytes n w = map (\<lambda>i. ucast (drop_bit (8 * (n - 1 - i)) w)) [0..<n]"

definition be_word :: "bytes \<Rightarrow> 32 word" where
  "be_word bs = foldl (\<lambda>w b. push_bit 8 w OR ucast b) 0 bs"

definition sha_pad :: "bytes \<Rightarrow> bytes" where
  "sha_pad m = m @ [0x80] @ replicate ((119 - length m mod 64) mod 64) 0
     @ be_bytes 8 (word_of_nat (8 * length m) :: 64 word)"

definition sha_rotr :: "nat \<Rightarrow> 32 word \<Rightarrow> 32 word" where
  "sha_rotr n w = drop_bit n w OR push_bit (32 - n) w"

definition small0 :: "32 word \<Rightarrow> 32 word" where
  "small0 x = sha_rotr 7 x XOR sha_rotr 18 x XOR drop_bit 3 x"

definition small1 :: "32 word \<Rightarrow> 32 word" where
  "small1 x = sha_rotr 17 x XOR sha_rotr 19 x XOR drop_bit 10 x"

definition big0 :: "32 word \<Rightarrow> 32 word" where
  "big0 x = sha_rotr 2 x XOR sha_rotr 13 x XOR sha_rotr 22 x"

definition big1 :: "32 word \<Rightarrow> 32 word" where
  "big1 x = sha_rotr 6 x XOR sha_rotr 11 x XOR sha_rotr 25 x"

text \<open>The message schedule, a sliding window of the last sixteen words.\<close>
fun sha_schedule :: "nat \<Rightarrow> 32 word list \<Rightarrow> 32 word list" where
  "sha_schedule 0 w = []"
| "sha_schedule (Suc n) w = hd w #
     sha_schedule n (tl w @ [small1 (w ! 14) + w ! 9 + small0 (w ! 1) + w ! 0])"

definition sha_round :: "32 word \<times> 32 word \<Rightarrow> sha_state \<Rightarrow> sha_state" where
  "sha_round wk s = (
     let t1 = sH s + big1 (sE s) + ((sE s AND sF s) XOR (NOT (sE s) AND sG s)) + snd wk + fst wk;
         t2 = big0 (sA s) + ((sA s AND sB s) XOR (sA s AND sC s) XOR (sB s AND sC s))
     in \<lparr> sA = t1 + t2, sB = sA s, sC = sB s, sD = sC s,
          sE = sD s + t1, sF = sE s, sG = sF s, sH = sG s \<rparr>)"

definition sha_add :: "sha_state \<Rightarrow> sha_state \<Rightarrow> sha_state" where
  "sha_add s t = \<lparr> sA = sA s + sA t, sB = sB s + sB t, sC = sC s + sC t, sD = sD s + sD t,
     sE = sE s + sE t, sF = sF s + sF t, sG = sG s + sG t, sH = sH s + sH t \<rparr>"

definition sha_words :: "bytes \<Rightarrow> 32 word list" where
  "sha_words blk = map (\<lambda>i. be_word (take 4 (drop (4 * i) blk))) [0..<16]"

definition sha_block :: "bytes \<Rightarrow> sha_state \<Rightarrow> sha_state" where
  "sha_block blk s = sha_add s (fold sha_round (zip (sha_schedule 64 (sha_words blk)) sha_K) s)"

definition sha_digest :: "sha_state \<Rightarrow> bytes" where
  "sha_digest s = concat (map (be_bytes 4)
     [sA s, sB s, sC s, sD s, sE s, sF s, sG s, sH s])"

definition sha256 :: "bytes \<Rightarrow> bytes" where
  "sha256 m = (let p = sha_pad m
     in sha_digest (fold (\<lambda>i. sha_block (take 64 (drop (64 * i) p))) [0..<length p div 64] sha_init))"

lemma length_be_bytes [simp]: "length (be_bytes n v) = n"
  by (simp add: be_bytes_def)

lemma length_sha256 [simp]: "length (sha256 m) = 32"
  by (simp add: sha256_def sha_digest_def Let_def)

lemma sha256_not_Nil [simp]: "sha256 m \<noteq> []"
  using length_sha256 [of m] by (metis list.size(3) zero_neq_numeral)

end
