(* ===== verification/Encoding.thy ===== *)
theory Encoding
  imports Sha256
begin

unbundle bit_operations_syntax

text \<open>
  The primitive binary encodings: the variable-length integers of \<^verbatim>\<open>encoding/binary\<close>, the helpers
  of \<^verbatim>\<open>src/smt/common/helper.go\<close> and the marshallers of \<^verbatim>\<open>src/internal/encoding/utils.go\<close>.
  An \<^verbatim>\<open>int64\<close> is an \<^typ>\<open>int\<close> that is converted to a 64-bit word where it is encoded.
  The text that \<^verbatim>\<open>utils.go\<close> wraps around an error of a part is left out: the error is that of the part.
  The lemmas collected in \<open>codec\<close> are the round trips.
\<close>

section \<open>Variable-length integers\<close>

function PutUvarint :: "64 word \<Rightarrow> bytes" where
  "PutUvarint x = (if x \<ge> 0x80
     then (ucast x OR 0x80) # PutUvarint (drop_bit 7 x)
     else [ucast x])"
  by pat_completeness auto
termination
proof (relation "measure unat")
  fix x :: "64 word"
  assume "x \<ge> 0x80"
  then have "unat x \<ge> 128" by (simp add: word_le_nat_alt)
  then show "(drop_bit 7 x, x) \<in> measure unat"
    by (simp add: drop_bit_eq_div unat_div)
qed simp

declare PutUvarint.simps [simp del]

definition MaxVarintLen64 :: nat where "MaxVarintLen64 = 10"

text \<open>The loop of \<^verbatim>\<open>binary.Uvarint\<close> at index \<^term>\<open>i\<close>; a negative count is an overflow.\<close>
fun Uvarint_loop :: "nat \<Rightarrow> 64 word \<Rightarrow> bytes \<Rightarrow> 64 word \<times> int" where
  "Uvarint_loop i x [] = (0, 0)"
| "Uvarint_loop i x (b # bs) =
     (if i = MaxVarintLen64 then (0, - (int i + 1))
      else if b < 0x80 then
        (if i = MaxVarintLen64 - 1 \<and> b > 1 then (0, - (int i + 1))
         else (x OR push_bit (7 * i) (ucast b), int i + 1))
      else Uvarint_loop (i + 1) (x OR push_bit (7 * i) (ucast (b AND 0x7f))) bs)"

definition Uvarint :: "bytes \<Rightarrow> 64 word \<times> int" where
  "Uvarint buf = Uvarint_loop 0 0 buf"

text \<open>Signed integers are zig-zag encoded.\<close>
definition zigzag :: "64 word \<Rightarrow> 64 word" where
  "zigzag x = (let ux = push_bit 1 x in if sint x < 0 then NOT ux else ux)"

definition unzigzag :: "64 word \<Rightarrow> 64 word" where
  "unzigzag ux = (let x = drop_bit 1 ux in if ux AND 1 \<noteq> 0 then NOT x else x)"

definition PutVarint :: "int \<Rightarrow> bytes" where
  "PutVarint x = PutUvarint (zigzag (word_of_int x))"

definition Varint :: "bytes \<Rightarrow> int \<times> int" where
  "Varint buf = (let (ux, n) = Uvarint buf in (sint (unzigzag ux), n))"

section \<open>smt/common/helper.go\<close>

definition Uint64FixedBytes :: "64 word \<Rightarrow> bytes" where
  "Uint64FixedBytes i = be_bytes 8 i"

text \<open>\<^verbatim>\<open>binary.BigEndian.Uint64\<close> reads eight bytes and panics on a shorter slice.\<close>
definition BigEndian_Uint64 :: "bytes \<Rightarrow> 64 word result" where
  "BigEndian_Uint64 data = (if length data < 8 then Panic ''index out of range''
     else Ok (foldl (\<lambda>w b. push_bit 8 w OR ucast b) 0 (take 8 data)))"

definition BytesFixedUint64 :: "bytes \<Rightarrow> (64 word \<times> bytes) result" where
  "BytesFixedUint64 data = bind_result (BigEndian_Uint64 data) (\<lambda>i. Ok (i, drop 8 data))"

definition Uint64Bytes :: "64 word \<Rightarrow> bytes" where
  "Uint64Bytes i = PutUvarint i"

text \<open>\<^verbatim>\<open>data[count:]\<close>, where the count of a varint is negative after an overflow.\<close>
definition advance :: "int \<Rightarrow> bytes \<Rightarrow> bytes result" where
  "advance count data = (if count < 0 then Panic ''slice bounds out of range''
     else slice_from (nat count) data)"

definition BytesUint64 :: "bytes \<Rightarrow> (64 word \<times> bytes) result" where
  "BytesUint64 data = (let (v, count) = Uvarint data in
     bind_result (advance count data) (\<lambda>rest. Ok (v, rest)))"

definition Int64Bytes :: "int \<Rightarrow> bytes" where
  "Int64Bytes i = PutVarint i"

definition BytesInt64 :: "bytes \<Rightarrow> (int \<times> bytes) result" where
  "BytesInt64 data = (let (v, count) = Varint data in
     bind_result (advance count data) (\<lambda>rest. Ok (v, rest)))"

definition SliceBytes :: "bytes \<Rightarrow> bytes" where
  "SliceBytes s = PutUvarint (word_of_nat (length s)) @ s"

definition BytesSlice :: "bytes \<Rightarrow> (bytes \<times> bytes) result" where
  "BytesSlice data = (let (countOfBytes, count) = Uvarint data in
     bind_result (advance count data) (\<lambda>data.
     bind_result (slice_to (unat countOfBytes) data) (\<lambda>s.
     bind_result (slice_from (unat countOfBytes) data) (\<lambda>rest. Ok (s, rest)))))"

section \<open>internal/encoding/utils.go\<close>

abbreviation "ErrNotEnoughData \<equiv> Plain ''not enough data''"
abbreviation "ErrOverflow \<equiv> Plain ''overflow''"

definition BoolMarshalBinary :: "bool \<Rightarrow> bytes" where
  "BoolMarshalBinary v = (if v then [1] else [0])"

definition BoolUnmarshalBinary :: "bytes \<Rightarrow> bool result" where
  "BoolUnmarshalBinary b = (case b of
     [] \<Rightarrow> Err ErrNotEnoughData
   | x # _ \<Rightarrow> if x = 0 then Ok False else if x = 1 then Ok True
       else Err (Plain ''%d is not a valid boolean''))"

definition UvarintMarshalBinary :: "64 word \<Rightarrow> bytes" where
  "UvarintMarshalBinary v = Uint64Bytes v"

definition UvarintBinarySize :: "64 word \<Rightarrow> nat" where
  "UvarintBinarySize v = length (UvarintMarshalBinary v)"

definition UvarintUnmarshalBinary :: "bytes \<Rightarrow> 64 word result" where
  "UvarintUnmarshalBinary b = (let (v, n) = Uvarint b in
     if n = 0 then Err ErrNotEnoughData else if n < 0 then Err ErrOverflow else Ok v)"

definition VarintMarshalBinary :: "int \<Rightarrow> bytes" where
  "VarintMarshalBinary v = Int64Bytes v"

definition VarintBinarySize :: "int \<Rightarrow> nat" where
  "VarintBinarySize v = length (VarintMarshalBinary v)"

definition VarintUnmarshalBinary :: "bytes \<Rightarrow> int result" where
  "VarintUnmarshalBinary b = (let (v, n) = Varint b in
     if n = 0 then Err ErrNotEnoughData else if n < 0 then Err ErrOverflow else Ok v)"

definition BytesMarshalBinary :: "bytes \<Rightarrow> bytes" where
  "BytesMarshalBinary b = SliceBytes b"

definition BytesBinarySize :: "bytes \<Rightarrow> nat" where
  "BytesBinarySize b = length (BytesMarshalBinary b)"

text \<open>The length is converted to a signed \<^verbatim>\<open>int\<close> for the check and used unsigned as the bound.\<close>
definition BytesUnmarshalBinary :: "bytes \<Rightarrow> slice result" where
  "BytesUnmarshalBinary b = (let (l, n) = Uvarint b in
     if n = 0 then Err (Plain ''error decoding length: not enough data'')
     else if n < 0 then Err (Plain ''error decoding length: overflow'')
     else if l = 0 then Ok None
     else bind_result (advance n b) (\<lambda>b.
       if int (length b) < sint l then Err ErrNotEnoughData
       else map_ok Some (slice_to (unat l) b)))"

definition StringMarshalBinary :: "bytes \<Rightarrow> bytes" where
  "StringMarshalBinary s = BytesMarshalBinary s"

definition StringUnmarshalBinary :: "bytes \<Rightarrow> bytes result" where
  "StringUnmarshalBinary b = (let (l, n) = Uvarint b in
     if n = 0 then Err (Plain ''error decoding length: not enough data'')
     else if n < 0 then Err (Plain ''error decoding length: overflow'')
     else bind_result (advance n b) (\<lambda>b.
       if int (length b) < sint l then Err ErrNotEnoughData
       else slice_to (unat l) b))"

text \<open>A duration is a count of nanoseconds, an \<^verbatim>\<open>int64\<close>.\<close>
definition duration_of :: "64 word \<Rightarrow> 64 word \<Rightarrow> int" where
  "duration_of sec ns = sint (sec * 1000000000 + ns)"

definition DurationUnmarshalBinary :: "bytes \<Rightarrow> int result" where
  "DurationUnmarshalBinary b =
     bind_result (UvarintUnmarshalBinary b) (\<lambda>sec.
     bind_result (UvarintUnmarshalBinary b) (\<lambda>ns. Ok (duration_of sec ns)))"

text \<open>\<^verbatim>\<open>big.Int.Bytes\<close> (the absolute value, most significant byte first) and \<^verbatim>\<open>SetBytes\<close>.\<close>
function nat_be :: "nat \<Rightarrow> bytes" where
  "nat_be n = (if n = 0 then [] else nat_be (n div 256) @ [word_of_nat (n mod 256)])"
  by pat_completeness auto
termination by (relation "measure id") auto

declare nat_be.simps [simp del]

definition SetBytes :: "bytes \<Rightarrow> int" where
  "SetBytes b = int (foldl (\<lambda>n x. 256 * n + unat x) 0 b)"

definition BigintMarshalBinary :: "int \<Rightarrow> bytes" where
  "BigintMarshalBinary v = BytesMarshalBinary (nat_be (nat \<bar>v\<bar>))"

definition BigintUnmarshalBinary :: "bytes \<Rightarrow> int result" where
  "BigintUnmarshalBinary b = bind_result (BytesUnmarshalBinary b) (\<lambda>b. Ok (SetBytes (contents b)))"

definition ChainUnmarshalBinary :: "bytes \<Rightarrow> bytes result" where
  "ChainUnmarshalBinary b = (if length b < 32 then Err ErrNotEnoughData else Ok (take 32 b))"

definition ChainSetMarshalBinary :: "bytes list \<Rightarrow> bytes" where
  "ChainSetMarshalBinary v = UvarintMarshalBinary (word_of_nat (length v)) @ concat v"

text \<open>
  The loop copies up to 32 bytes into each entry, zero filled, and slices them off. The
  allocation of \<^term>\<open>l\<close> entries of 32 bytes panics beyond the address space.
\<close>
fun chain_set_loop :: "nat \<Rightarrow> bytes \<Rightarrow> bytes list result" where
  "chain_set_loop 0 b = Ok []"
| "chain_set_loop (Suc n) b =
     bind_result (slice_from 32 b) (\<lambda>b'. map_ok ((#) (take 32 b)) (chain_set_loop n b'))"

text \<open>\<^verbatim>\<open>make\<close> panics when the slice would exceed the 48-bit address space.\<close>
definition makeslice_ok :: "nat \<Rightarrow> nat \<Rightarrow> bool" where
  "makeslice_ok elem n \<longleftrightarrow> elem * n \<le> 2 ^ 48"

definition ChainSetUnmarshalBinary :: "bytes \<Rightarrow> bytes list result" where
  "ChainSetUnmarshalBinary b =
     bind_result (UvarintUnmarshalBinary b) (\<lambda>l.
     bind_result (slice_from (UvarintBinarySize l) b) (\<lambda>b.
       if int (length b) < sint (32 * l) then Err ErrNotEnoughData
       else if \<not> makeslice_ok 32 (unat l) then Panic ''makeslice: len out of range''
       else chain_set_loop (unat l) b))"

section \<open>Round trips\<close>

lemma PutUvarint_not_Nil [simp]: "PutUvarint x \<noteq> []"
  by (subst PutUvarint.simps) simp

lemma and_7f [simp]: "w AND 0x7f = take_bit 7 (w :: 'a::len word)"
  by (simp add: take_bit_eq_mask mask_eq_exp_minus_1)

lemma low_bits_split:
  "push_bit s (take_bit 7 x) OR push_bit (s + 7) (drop_bit 7 x) = push_bit s (x :: 64 word)"
proof (rule bit_word_eqI)
  fix n assume "n < LENGTH(64)"
  then show "bit (push_bit s (take_bit 7 x) OR push_bit (s + 7) (drop_bit 7 x)) n = bit (push_bit s x) n"
    by (cases "n < s + 7") (auto simp: bit_or_iff bit_push_bit_iff bit_drop_bit_eq bit_take_bit_iff)
qed

lemma byte_less_80: "w < 0x80 \<longleftrightarrow> \<not> bit (w :: 8 word) 7"
proof -
  have "bit w 7 \<longleftrightarrow> odd (unat w div 128)"
    using bit_unsigned_iff [of w 7, where ?'a = nat] by (simp add: bit_iff_odd)
  moreover have "unat w < 256" using unsigned_less [of w, where ?'a = nat] by simp
  then have "unat w div 128 = (if unat w < 128 then 0 else 1)" by (auto intro!: div_nat_eqI)
  ultimately show ?thesis by (simp add: word_less_nat_alt split: if_splits)
qed

lemma byte_or_80: "\<not> w OR 0x80 < (0x80 :: 8 word)"
  by (simp add: byte_less_80 bit_or_iff bit_numeral_rec)

lemma take_bit_or_80: "take_bit 7 (w OR 0x80) = take_bit 7 (w :: 8 word)"
  by (simp add: take_bit_or)

lemma ucast_low7: "ucast (take_bit 7 (ucast x :: 8 word)) = take_bit 7 (x :: 64 word)"
  by (rule bit_word_eqI) (auto simp: bit_take_bit_iff bit_ucast_iff)

lemma PutUvarint_small: "x < 0x80 \<Longrightarrow> PutUvarint x = [ucast x]"
  by (subst PutUvarint.simps) (simp add: not_le)

lemma PutUvarint_large: "\<not> x < 0x80 \<Longrightarrow> PutUvarint x = (ucast x OR 0x80) # PutUvarint (drop_bit 7 x)"
  by (subst PutUvarint.simps) (simp add: not_less)

lemma Uvarint_loop_Put:
  "unat v < 2 ^ (64 - 7 * i) \<Longrightarrow> i \<le> 9 \<Longrightarrow>
   Uvarint_loop i x (PutUvarint v @ rest) = (x OR push_bit (7 * i) v, int i + int (length (PutUvarint v)))"
proof (induction v arbitrary: i x rule: PutUvarint.induct)
  case (1 v)
  show ?case
  proof (cases "v < 0x80")
    case True
    then have u: "unat v < 128" by (simp add: word_less_nat_alt)
    have w: "ucast (ucast v :: 8 word) = v"
      using u by (intro unsigned_word_eqI [where ?'a = nat])
        (simp add: unsigned_ucast_eq unsigned_take_bit_eq take_bit_nat_eq_self)
    have b: "ucast v < (0x80 :: 8 word)"
      using u by (simp add: word_less_nat_alt unsigned_ucast_eq take_bit_nat_eq_self)
    have "\<not> (1 :: 8 word) < ucast v" if "i = 9"
    proof -
      have "unat v < 2" using "1.prems"(1) that by simp
      then show ?thesis by (simp add: word_less_nat_alt unsigned_ucast_eq take_bit_nat_eq_self)
    qed
    with True b w show ?thesis
      using "1.prems"(2) by (auto simp: PutUvarint_small MaxVarintLen64_def)
  next
    case False
    then have u: "unat v \<ge> 128" by (simp add: word_less_nat_alt)
    have i8: "i \<le> 8"
    proof (rule ccontr)
      assume "\<not> i \<le> 8"
      with "1.prems"(2) have "i = 9" by simp
      with "1.prems"(1) u show False by simp
    qed
    have "unat (drop_bit 7 v) < 2 ^ (64 - 7 * (i + 1))"
    proof -
      have e: "64 - 7 * i = 64 - 7 * (i + 1) + 7" using i8 by simp
      have "(2 :: nat) ^ (64 - 7 * i) = 2 ^ (64 - 7 * (i + 1)) * 128"
        unfolding e power_add by simp
      then show ?thesis
        using "1.prems"(1) by (simp add: drop_bit_eq_div unat_div div_less_iff_less_mult)
    qed
    then have "Uvarint_loop (i + 1) y (PutUvarint (drop_bit 7 v) @ rest)
      = (y OR push_bit (7 * (i + 1)) (drop_bit 7 v), int (i + 1) + int (length (PutUvarint (drop_bit 7 v))))" for y
      using False i8 by (intro "1.IH") auto
    then show ?thesis
      using False i8 byte_or_80 low_bits_split [of "7 * i" v]
      by (simp add: PutUvarint_large MaxVarintLen64_def take_bit_or_80 ucast_low7 or.assoc add.commute)
  qed
qed

lemma Uvarint_Put [codec]: "Uvarint (PutUvarint v @ rest) = (v, int (length (PutUvarint v)))"
proof -
  have "unat v < 2 ^ 64" using unsigned_less [of v, where ?'a = nat] by simp
  then show ?thesis by (simp add: Uvarint_def Uvarint_loop_Put)
qed

lemma sint_less_0_iff: "sint (x :: 64 word) < 0 \<longleftrightarrow> bit x 63"
  using bit_last_iff [of x] by simp

lemma bit_zigzag: "bit (zigzag x) m \<longleftrightarrow> m < 64 \<and> ((1 \<le> m \<and> bit x (m - 1)) \<noteq> (sint x < 0))"
proof -
  have "bit (push_bit 1 x) m \<longleftrightarrow> m < 64 \<and> 1 \<le> m \<and> bit x (m - 1)"
    unfolding bit_push_bit_iff by auto
  then show ?thesis
    unfolding zigzag_def Let_def by (auto simp only: bit_not_iff possible_bit_word split: if_splits) auto
qed

lemma unzigzag_zigzag [simp]: "unzigzag (zigzag x) = x"
proof (rule bit_word_eqI)
  fix n assume n: "n < LENGTH(64)"
  have "(zigzag x AND 1 \<noteq> 0) = bit (zigzag x) 0"
    by (simp add: and_one_eq even_iff_mod_2_eq_zero bit_0)
  then have "(zigzag x AND 1 \<noteq> 0) = (sint x < 0)"
    by (simp only: bit_zigzag) simp
  moreover have "bit (drop_bit 1 (zigzag x)) n = (n < 63 \<and> (bit x n \<noteq> (sint x < 0)))"
    using n by (auto simp only: bit_drop_bit_eq bit_zigzag o_def) auto
  ultimately show "bit (unzigzag (zigzag x)) n = bit x n"
    using n sint_less_0_iff [of x]
    by (cases "n = 63") (auto simp: unzigzag_def Let_def bit_not_iff)
qed

lemma Varint_Put [codec]:
  assumes "- (2 ^ 63) \<le> x" "x < 2 ^ 63"
  shows "Varint (PutVarint x @ rest) = (x, int (length (PutVarint x)))"
proof -
  have "sint (word_of_int x :: 64 word) = x"
    using assms by (simp add: sint_sbintrunc' signed_take_bit_int_eq_self)
  then show ?thesis by (simp add: Varint_def PutVarint_def Uvarint_Put)
qed

lemma advance_append [simp]: "advance (int (length a)) (a @ b) = Ok b"
  by (simp add: advance_def)

lemma UvarintUnmarshal_Marshal [codec]:
  "UvarintUnmarshalBinary (UvarintMarshalBinary v @ rest) = Ok v"
  by (simp add: UvarintUnmarshalBinary_def UvarintMarshalBinary_def Uint64Bytes_def Uvarint_Put)

lemma VarintUnmarshal_Marshal [codec]:
  "- (2 ^ 63) \<le> v \<Longrightarrow> v < 2 ^ 63 \<Longrightarrow> VarintUnmarshalBinary (VarintMarshalBinary v @ rest) = Ok v"
proof -
  assume "- (2 ^ 63) \<le> v" "v < 2 ^ 63"
  moreover have "length (PutVarint v) \<noteq> 0" by (simp add: PutVarint_def)
  ultimately show ?thesis
    by (simp add: VarintUnmarshalBinary_def VarintMarshalBinary_def Int64Bytes_def Varint_Put)
qed

lemma unat_word_length: "n < 2 ^ 64 \<Longrightarrow> unat (word_of_nat n :: 64 word) = n"
  by (simp add: unat_of_nat)

lemma sint_word_length: "n < 2 ^ 63 \<Longrightarrow> sint (word_of_nat n :: 64 word) = int n"
  by (simp add: signed_of_nat signed_take_bit_int_eq_self)

text \<open>A byte string decodes to itself, the empty one to nil.\<close>
lemma BytesUnmarshal_Marshal [codec]:
  assumes "length b < 2 ^ 63"
  shows "BytesUnmarshalBinary (BytesMarshalBinary b @ rest) = Ok (if b = [] then None else Some b)"
proof -
  have "(word_of_nat (length b) :: 64 word) = 0 \<longleftrightarrow> b = []"
    using assms unat_word_length [of "length b"] by auto
  then show ?thesis
    using assms
    by (simp add: BytesUnmarshalBinary_def BytesMarshalBinary_def SliceBytes_def Uvarint_Put
        unat_word_length sint_word_length)
qed

lemma StringUnmarshal_Marshal [codec]:
  "length s < 2 ^ 63 \<Longrightarrow> StringUnmarshalBinary (StringMarshalBinary s @ rest) = Ok s"
  by (simp add: StringUnmarshalBinary_def StringMarshalBinary_def BytesMarshalBinary_def
      SliceBytes_def Uvarint_Put unat_word_length sint_word_length)

lemma BytesSlice_SliceBytes [codec]:
  "length s < 2 ^ 64 \<Longrightarrow> BytesSlice (SliceBytes s @ rest) = Ok (s, rest)"
  by (simp add: BytesSlice_def SliceBytes_def Uvarint_Put unat_word_length)

lemma BoolUnmarshal_Marshal [codec]: "BoolUnmarshalBinary (BoolMarshalBinary v @ rest) = Ok v"
  by (simp add: BoolUnmarshalBinary_def BoolMarshalBinary_def)

lemma SetBytes_nat_be: "SetBytes (nat_be n) = int n"
proof (induction n rule: nat_be.induct)
  case (1 n)
  show ?case
  proof (cases "n = 0")
    case True
    then show ?thesis by (simp add: SetBytes_def nat_be.simps)
  next
    case False
    then have "foldl (\<lambda>n x. 256 * n + unat x) 0 (nat_be (n div 256)) = n div 256"
      using 1 by (simp add: SetBytes_def)
    then show ?thesis
      using False by (subst nat_be.simps) (simp add: SetBytes_def unat_of_nat)
  qed
qed

text \<open>A big integer decodes to its absolute value: the sign is not encoded.\<close>
lemma BigintUnmarshal_Marshal [codec]:
  assumes "length (nat_be (nat \<bar>v\<bar>)) < 2 ^ 63"
  shows "BigintUnmarshalBinary (BigintMarshalBinary v @ rest) = Ok \<bar>v\<bar>"
  using assms SetBytes_nat_be [of "nat \<bar>v\<bar>"]
  by (auto simp: BigintUnmarshalBinary_def BigintMarshalBinary_def BytesUnmarshal_Marshal)

lemma be_bytes_Suc: "be_bytes (Suc n) w = be_bytes n (drop_bit 8 w) @ [ucast w]"
proof -
  have "drop_bit (8 * (n - i)) w = drop_bit (8 * (n - 1 - i)) (drop_bit 8 w)" if "i < n" for i
  proof -
    have "8 * (n - i) = 8 * (n - 1 - i) + 8" using that by (simp add: algebra_simps)
    then show ?thesis by (simp add: drop_bit_drop_bit)
  qed
  then show ?thesis by (auto simp: be_bytes_def)
qed

lemma foldl_be_bytes:
  "foldl (\<lambda>w b. push_bit 8 w OR ucast b) 0 (be_bytes n w) = take_bit (8 * n) (w :: 64 word)"
proof (induction n arbitrary: w)
  case 0
  then show ?case by (simp add: be_bytes_def)
next
  case (Suc n)
  have "push_bit 8 (take_bit (8 * n) (drop_bit 8 w)) OR ucast (ucast w :: 8 word) = take_bit (8 * Suc n) w"
  proof (rule bit_word_eqI)
    fix m assume m: "m < LENGTH(64)"
    then show "bit (push_bit 8 (take_bit (8 * n) (drop_bit 8 w)) OR ucast (ucast w :: 8 word)) m
        = bit (take_bit (8 * Suc n) w) m"
      by (cases "m < 8")
        (auto simp: bit_or_iff bit_push_bit_iff bit_take_bit_iff bit_drop_bit_eq bit_ucast_iff)
  qed
  then show ?case by (simp add: be_bytes_Suc Suc)
qed

lemma BytesFixedUint64_Fixed [codec]: "BytesFixedUint64 (Uint64FixedBytes i @ rest) = Ok (i, rest)"
  by (simp add: BytesFixedUint64_def BigEndian_Uint64_def Uint64FixedBytes_def foldl_be_bytes
      take_bit_word_eq_self)

lemma chain_set_loop_concat:
  "\<forall>x \<in> set v. length x = 32 \<Longrightarrow> chain_set_loop (length v) (concat v @ rest) = Ok v"
  by (induction v) (auto simp: slice_from_def)

lemma ChainSetUnmarshal_Marshal [codec]:
  assumes "\<forall>x \<in> set v. length x = 32" "32 * length v \<le> 2 ^ 48"
  shows "ChainSetUnmarshalBinary (ChainSetMarshalBinary v @ rest) = Ok v"
proof -
  have l: "length v < 2 ^ 64" "32 * length v < 2 ^ 63" using assms(2) by simp_all
  have "length (concat v) = 32 * length v"
    using assms(1) by (induction v) auto
  moreover have "sint (32 * word_of_nat (length v) :: 64 word) = int (32 * length v)"
    using sint_word_length [OF l(2)] by simp
  ultimately show ?thesis
    using assms l UvarintUnmarshal_Marshal [of "word_of_nat (length v)" "concat v @ rest"]
      slice_from_append [of "UvarintMarshalBinary (word_of_nat (length v))" "concat v @ rest"]
    by (simp add: ChainSetUnmarshalBinary_def ChainSetMarshalBinary_def UvarintBinarySize_def
        unat_word_length makeslice_ok_def chain_set_loop_concat del: slice_from_append)
qed

section \<open>Properties\<close>

text \<open>
  C24. Every marshalled field decodes to the value it was made from, whatever bytes follow it:
  unsigned and signed varints, booleans, byte strings shorter than \<open>2 ^ 63\<close> bytes, strings,
  length-prefixed slices, fixed-width integers and non-negative big integers.
\<close>
theorem fields_roundtrip:
  assumes "- (2 ^ 63) \<le> i" "i < 2 ^ 63" "length b < 2 ^ 63" "0 \<le> z" "length (nat_be (nat z)) < 2 ^ 63"
  shows "UvarintUnmarshalBinary (UvarintMarshalBinary v @ rest) = Ok v
    \<and> VarintUnmarshalBinary (VarintMarshalBinary i @ rest) = Ok i
    \<and> BoolUnmarshalBinary (BoolMarshalBinary t @ rest) = Ok t
    \<and> BytesUnmarshalBinary (BytesMarshalBinary b @ rest) = Ok (if b = [] then None else Some b)
    \<and> StringUnmarshalBinary (StringMarshalBinary b @ rest) = Ok b
    \<and> BytesSlice (SliceBytes b @ rest) = Ok (b, rest)
    \<and> BytesFixedUint64 (Uint64FixedBytes v @ rest) = Ok (v, rest)
    \<and> BigintUnmarshalBinary (BigintMarshalBinary z @ rest) = Ok z"
  using assms BigintUnmarshal_Marshal [of z rest] by (simp add: codec)

theorem fields_roundtrip_witness:
  "VarintUnmarshalBinary (VarintMarshalBinary (-3) @ [7]) = Ok (-3)
    \<and> BytesSlice (SliceBytes [1, 2] @ [7]) = Ok ([1, 2], [7])
    \<and> BigintUnmarshalBinary (BigintMarshalBinary 300 @ [7]) = Ok 300"
  using fields_roundtrip [of "-3" "[1, 2]" 300 5 "[7]" True] by (simp add: nat_be.simps)

text \<open>
  C26. A byte string whose length prefix is \<open>2 ^ 63\<close> or more does not give an error: the prefix is
  negative as a signed integer, passes the length check, and slicing panics.
\<close>
theorem BytesUnmarshal_panics:
  assumes "2 ^ 63 \<le> unat l" "length rest < 2 ^ 63"
  shows "\<exists>p. BytesUnmarshalBinary (PutUvarint l @ rest) = Panic p \<and> StringUnmarshalBinary (PutUvarint l @ rest) = Panic p"
proof -
  have "unat l div 2 ^ 63 = 1"
    using assms(1) unsigned_less [of l, where ?'a = nat] by (intro div_nat_eqI) simp_all
  then have "bit (unat l) 63" by (simp add: bit_iff_odd)
  then have "sint l < 0" using bit_last_iff [of l] by (simp add: bit_unsigned_iff)
  moreover have "l \<noteq> 0" using assms(1) by auto
  ultimately show ?thesis using assms
    by (auto simp: BytesUnmarshalBinary_def StringUnmarshalBinary_def Uvarint_Put slice_to_def)
qed

theorem BytesUnmarshal_panics_witness:
  "\<exists>p. BytesUnmarshalBinary (PutUvarint (2 ^ 63) @ [1]) = Panic p \<and> StringUnmarshalBinary (PutUvarint (2 ^ 63) @ [1]) = Panic p"
  by (rule BytesUnmarshal_panics) simp_all

text \<open>
  Decoding a duration reads the seconds twice: whatever the encoded nanoseconds, the result
  has the number of seconds as its nanoseconds.
\<close>
theorem DurationUnmarshal_seconds_twice:
  "DurationUnmarshalBinary (UvarintMarshalBinary sec @ UvarintMarshalBinary ns) = Ok (duration_of sec sec)"
  by (simp add: DurationUnmarshalBinary_def codec)

end
