(* ===== verification/Merkle_Tree.thy ===== *)
theory Merkle_Tree
  imports Prelude
begin

text \<open>
  The reference Merkle tree, independent of the code: the levels of complete subtrees over a
  list of leaves, the list of the roots of the complete subtrees left over (the spine), and
  the tree hash of RFC 6962 (split at the largest power of two below the number of leaves).
  Everything is over an arbitrary combining function \<^term>\<open>c\<close>.
\<close>

section \<open>Levels\<close>

fun pairs :: "('a \<Rightarrow> 'a \<Rightarrow> 'a) \<Rightarrow> 'a list \<Rightarrow> 'a list" where
  "pairs c (a # b # xs) = c a b # pairs c xs"
| "pairs c xs = []"

text \<open>The roots of the complete subtrees of height \<^term>\<open>k\<close>, from left to right.\<close>
fun level :: "('a \<Rightarrow> 'a \<Rightarrow> 'a) \<Rightarrow> nat \<Rightarrow> 'a list \<Rightarrow> 'a list" where
  "level c 0 xs = xs"
| "level c (Suc k) xs = pairs c (level c k xs)"

lemma length_pairs [simp]: "length (pairs c xs) = length xs div 2"
  by (induction c xs rule: pairs.induct) auto

lemma pairs_append: "even (length xs) \<Longrightarrow> pairs c (xs @ ys) = pairs c xs @ pairs c ys"
  by (induction c xs rule: pairs.induct) auto

lemma pairs_nth: "i < length xs div 2 \<Longrightarrow> pairs c xs ! i = c (xs ! (2 * i)) (xs ! (2 * i + 1))"
proof (induction c xs arbitrary: i rule: pairs.induct)
  case (1 c a b xs)
  then show ?case by (cases i) auto
qed auto

lemma take_pairs: "take k (pairs c xs) = pairs c (take (2 * k) xs)"
proof (induction c xs arbitrary: k rule: pairs.induct)
  case (1 c a b xs)
  then show ?case by (cases k) auto
next
  case "2_2"
  then show ?case by (cases k) auto
qed auto

lemma drop_pairs: "drop k (pairs c xs) = pairs c (drop (2 * k) xs)"
proof (induction c xs arbitrary: k rule: pairs.induct)
  case (1 c a b xs)
  then show ?case by (cases k) auto
next
  case "2_2"
  then show ?case by (cases k) auto
qed auto

lemma length_level [simp]: "length (level c k xs) = length xs div 2 ^ k"
  by (induction k) (simp_all add: mult.commute flip: div_mult2_eq)

lemma level_Suc': "level c (Suc k) xs = level c k (pairs c xs)"
  by (induction k) auto

lemma take_level: "take j (level c k xs) = level c k (take (j * 2 ^ k) xs)"
proof (induction k arbitrary: j)
  case (Suc k)
  then show ?case by (simp add: take_pairs Suc [of "2 * j"] algebra_simps)
qed simp

lemma drop_level: "drop j (level c k xs) = level c k (drop (j * 2 ^ k) xs)"
proof (induction k arbitrary: j)
  case (Suc k)
  then show ?case by (simp add: drop_pairs Suc [of "2 * j"] algebra_simps)
qed simp

lemma pairs_take: "pairs c (take n xs) = take (n div 2) (pairs c xs)"
proof (induction c xs arbitrary: n rule: pairs.induct)
  case (1 c a b xs)
  consider "n = 0" | "n = 1" | k where "n = Suc (Suc k)"
    by (metis One_nat_def not0_implies_Suc)
  then show ?case by cases (use 1 in auto)
next
  case "2_2"
  then show ?case by (cases n) auto
qed auto

lemma level_take: "level c k (take n xs) = take (n div 2 ^ k) (level c k xs)"
  by (induction k) (simp_all add: pairs_take mult.commute flip: div_mult2_eq)

lemma level_take_nth: "j < n div 2 ^ k \<Longrightarrow> level c k (take n xs) ! j = level c k xs ! j"
  by (simp add: level_take)

lemma pairs_closed: "(\<And>a b. P (c a b)) \<Longrightarrow> x \<in> set (pairs c xs) \<Longrightarrow> P x"
  by (induction c xs rule: pairs.induct) auto

lemma level_closed:
  "(\<And>a b. P (c a b)) \<Longrightarrow> \<forall>x \<in> set xs. P x \<Longrightarrow> x \<in> set (level c k xs) \<Longrightarrow> P x"
  by (cases k) (auto intro: pairs_closed [of P])

lemma level_nth_Suc:
  "i < length xs div 2 ^ Suc k \<Longrightarrow>
   level c (Suc k) xs ! i = c (level c k xs ! (2 * i)) (level c k xs ! (2 * i + 1))"
  by (simp add: pairs_nth div_mult2_eq mult.commute [of 2])

section \<open>The spine\<close>

function spine :: "('a \<Rightarrow> 'a \<Rightarrow> 'a) \<Rightarrow> 'a list \<Rightarrow> 'a option list" where
  "spine c xs = (if xs = [] then []
     else (if odd (length xs) then Some (last xs) else None) # spine c (pairs c xs))"
  by pat_completeness auto
termination
  by (relation "measure (\<lambda>(c, xs). length xs)") auto

declare spine.simps [simp del]

lemma spine_Nil [simp]: "spine c [] = []"
  by (simp add: spine.simps)

lemma spine_step: "xs \<noteq> [] \<Longrightarrow>
  spine c xs = (if odd (length xs) then Some (last xs) else None) # spine c (pairs c xs)"
  by (subst spine.simps) simp

lemma spine_Nil_iff [simp]: "spine c xs = [] \<longleftrightarrow> xs = []"
  by (subst spine.simps) simp

lemma spine_last: "xs \<noteq> [] \<Longrightarrow> last (spine c xs) \<noteq> None"
proof (induction c xs rule: spine.induct)
  case (1 c xs)
  show ?case
  proof (cases "pairs c xs = []")
    case True
    then have "length xs div 2 = 0" by (metis length_pairs list.size(3))
    then have "length xs < 2" by (simp add: div_eq_0_iff)
    with 1(2) have "length xs = 1" by (cases xs) auto
    with True 1(2) show ?thesis by (simp add: spine_step)
  next
    case False
    with 1 show ?thesis by (simp add: spine_step)
  qed
qed

lemma spine_nth:
  "k < length (spine c xs) \<Longrightarrow> spine c xs ! k =
     (if odd (length xs div 2 ^ k) then Some (last (level c k xs)) else None)"
proof (induction c xs arbitrary: k rule: spine.induct)
  case (1 c xs)
  then have "xs \<noteq> []" by auto
  then show ?case
  proof (cases k)
    case (Suc k')
    then have "k' < length (spine c (pairs c xs))"
      using 1(2) \<open>xs \<noteq> []\<close> by (simp add: spine_step)
    then show ?thesis
      using 1(1) [OF \<open>xs \<noteq> []\<close>] Suc \<open>xs \<noteq> []\<close>
      by (simp add: spine_step div_mult2_eq level_Suc' del: level.simps(2))
  qed (simp add: spine_step)
qed

lemma length_spine: "length xs < 2 ^ length (spine c xs)"
proof (induction c xs rule: spine.induct)
  case (1 c xs)
  show ?case
  proof (cases "xs = []")
    case False
    with 1 have "length xs div 2 < 2 ^ length (spine c (pairs c xs))" by simp
    then show ?thesis using False by (simp add: spine_step)
  qed simp
qed

lemma spine_lower: "xs \<noteq> [] \<Longrightarrow> 2 ^ (length (spine c xs) - 1) \<le> length xs"
proof (induction c xs rule: spine.induct)
  case (1 c xs)
  show ?case
  proof (cases "pairs c xs = []")
    case True
    then show ?thesis using 1(2) by (simp add: spine_step) (cases xs; simp)
  next
    case False
    with 1 have "2 ^ (length (spine c (pairs c xs)) - 1) \<le> length xs div 2" by simp
    moreover obtain m where "length (spine c (pairs c xs)) = Suc m"
      using False by (cases "spine c (pairs c xs)") auto
    ultimately show ?thesis
      using 1(2) by (simp add: spine_step)
  qed
qed

section \<open>The tree hash of RFC 6962\<close>

function pow2_below :: "nat \<Rightarrow> nat" where
  "pow2_below n = (if n \<le> 2 then 1 else 2 * pow2_below ((n + 1) div 2))"
  by pat_completeness auto
termination by (relation "measure id") auto

declare pow2_below.simps [simp del]

lemma pow2_below_bounds: "2 \<le> n \<Longrightarrow> pow2_below n < n \<and> n \<le> 2 * pow2_below n"
proof (induction n rule: pow2_below.induct)
  case (1 n)
  show ?case
  proof (cases "n \<le> 2")
    case True
    with 1 show ?thesis by (simp add: pow2_below.simps)
  next
    case False
    then have "pow2_below ((n + 1) div 2) < (n + 1) div 2 \<and> (n + 1) div 2 \<le> 2 * pow2_below ((n + 1) div 2)"
      by (intro 1) auto
    with False show ?thesis by (subst (1 2) pow2_below.simps) auto
  qed
qed

text \<open>The split point is the largest power of two below the number of leaves.\<close>
lemma pow2_below_power: "\<exists>j. pow2_below n = 2 ^ j"
proof (induction n rule: pow2_below.induct)
  case (1 n)
  show ?case
  proof (cases "n \<le> 2")
    case True
    then show ?thesis by (intro exI [of _ 0]) (simp add: pow2_below.simps)
  next
    case False
    with 1 obtain j where "pow2_below ((n + 1) div 2) = 2 ^ j" by auto
    with False show ?thesis by (intro exI [of _ "Suc j"]) (subst pow2_below.simps, simp)
  qed
qed

lemma pow2_below_pos [simp]: "0 < pow2_below n"
  using pow2_below_power [of n] by auto

function mth :: "('a \<Rightarrow> 'a \<Rightarrow> 'a) \<Rightarrow> 'a list \<Rightarrow> 'a" where
  "mth c xs = (if length xs \<le> 1 then hd xs
     else c (mth c (take (pow2_below (length xs)) xs)) (mth c (drop (pow2_below (length xs)) xs)))"
  by pat_completeness auto
termination
proof (relation "measure (\<lambda>(c, xs). length xs)", goal_cases)
  case (2 c xs)
  then show ?case using pow2_below_bounds [of "length xs"] by auto
next
  case (3 c xs)
  then show ?case using pow2_below_pos [of "length xs"] by (auto simp: not_le simp del: pow2_below_pos)
qed simp

declare mth.simps [simp del]

lemma mth_single [simp]: "mth c [x] = x"
  by (simp add: mth.simps)

lemma mth_split: "2 \<le> length xs \<Longrightarrow>
  mth c xs = c (mth c (take (pow2_below (length xs)) xs)) (mth c (drop (pow2_below (length xs)) xs))"
  by (subst mth.simps) simp

lemma mth_closed: "xs \<noteq> [] \<Longrightarrow> \<forall>x \<in> set xs. P x \<Longrightarrow> (\<And>a b. P (c a b)) \<Longrightarrow> P (mth c xs)"
  by (subst mth.simps) simp

text \<open>The same hash level by level, an odd last node being promoted unchanged.\<close>
fun promote :: "('a \<Rightarrow> 'a \<Rightarrow> 'a) \<Rightarrow> 'a list \<Rightarrow> 'a list" where
  "promote c (a # b # xs) = c a b # promote c xs"
| "promote c xs = xs"

lemma length_promote [simp]: "length (promote c xs) = (length xs + 1) div 2"
  by (induction c xs rule: promote.induct) auto

lemma promote_append: "even (length xs) \<Longrightarrow> promote c (xs @ ys) = pairs c xs @ promote c ys"
  by (induction c xs rule: pairs.induct) auto

lemma promote_even: "even (length xs) \<Longrightarrow> promote c xs = pairs c xs"
  using promote_append [of xs c "[]"] by simp

lemma take_promote: "2 * k \<le> length xs \<Longrightarrow> take k (promote c xs) = promote c (take (2 * k) xs)"
  using promote_append [of "take (2 * k) xs" c "drop (2 * k) xs"]
  by (simp add: promote_even min_def)

lemma drop_promote: "2 * k \<le> length xs \<Longrightarrow> drop k (promote c xs) = promote c (drop (2 * k) xs)"
  using promote_append [of "take (2 * k) xs" c "drop (2 * k) xs"]
  by (simp add: min_def)

lemma mth_promote: "xs \<noteq> [] \<Longrightarrow> mth c (promote c xs) = mth c xs"
proof (induction xs rule: length_induct)
  case (1 xs)
  let ?n = "length xs"
  let ?k = "pow2_below ((?n + 1) div 2)"
  have "?n \<noteq> 0" using 1(2) by simp
  then consider "?n = 1" | "?n = 2" | "2 < ?n" by linarith
  then show ?case
  proof cases
    case 1
    then obtain a where "xs = [a]" by (auto simp: length_Suc_conv)
    then show ?thesis by simp
  next
    case 2
    then obtain a b where "xs = [a, b]" by (auto simp: length_Suc_conv numeral_2_eq_2)
    then show ?thesis by (simp add: mth_split pow2_below.simps)
  next
    case 3
    then have k: "pow2_below ?n = 2 * ?k" by (subst pow2_below.simps) simp
    have b: "2 * ?k < ?n" using pow2_below_bounds [of ?n] 3 k by simp
    have h: "2 \<le> length (promote c xs)" using 3 by simp
    have "mth c (promote c xs) = c (mth c (take ?k (promote c xs))) (mth c (drop ?k (promote c xs)))"
      using mth_split [OF h] by simp
    also have "\<dots> = c (mth c (promote c (take (2 * ?k) xs))) (mth c (promote c (drop (2 * ?k) xs)))"
      using b by (simp add: take_promote drop_promote)
    also have "mth c (promote c (take (2 * ?k) xs)) = mth c (take (2 * ?k) xs)"
      using 1(1) b 3 by (intro 1(1) [rule_format]) auto
    also have "mth c (promote c (drop (2 * ?k) xs)) = mth c (drop (2 * ?k) xs)"
      using b pow2_below_pos [of "(?n + 1) div 2"] by (intro 1(1) [rule_format]) (auto simp del: pow2_below_pos)
    finally show ?thesis using mth_split [of xs c] 3 k by simp
  qed
qed

text \<open>A complete subtree: its root is the tree hash of its block of leaves.\<close>
lemma mth_level: "length xs = 2 ^ k \<Longrightarrow> level c k xs = [mth c xs]"
proof (induction k arbitrary: xs)
  case 0
  then show ?case by (auto simp: length_Suc_conv)
next
  case (Suc k)
  then have "level c k (pairs c xs) = [mth c (pairs c xs)]" by simp
  moreover have "pairs c xs = promote c xs" using Suc(2) by (simp add: promote_even)
  moreover have "xs \<noteq> []" using Suc(2) by auto
  ultimately show ?case
    by (simp add: level_Suc' mth_promote del: level.simps(2))
qed

lemma level_nth_mth:
  assumes "(j + 1) * 2 ^ k \<le> length xs"
  shows "level c k xs ! j = mth c (take (2 ^ k) (drop (j * 2 ^ k) xs))"
proof -
  have "j < length (level c k xs)"
    using assms by (simp add: less_eq_div_iff_mult_less_eq flip: Suc_le_eq)
  then have "[level c k xs ! j] = take 1 (drop j (level c k xs))"
    by (simp add: take_Suc_conv_app_nth hd_drop_conv_nth take_Suc)
  also have "\<dots> = level c k (take (2 ^ k) (drop (j * 2 ^ k) xs))"
    by (simp add: drop_level take_level)
  also have "\<dots> = [mth c (take (2 ^ k) (drop (j * 2 ^ k) xs))]"
    using assms by (intro mth_level) (simp add: algebra_simps)
  finally show ?thesis by simp
qed

end
