(* ===== verification/Merkle_State.thy ===== *)
theory Merkle_State
  imports Encoding Merkle_Tree
begin

unbundle bit_operations_syntax

text \<open>
  \<^verbatim>\<open>src/smt/managed/hash.go\<close> and \<^verbatim>\<open>src/smt/managed/merklestate.go\<close>: hashes, the sparse list of
  pending subtree roots, and the Merkle state with its incremental insertion, its root and
  its binary form. A hash is a byte slice that may be nil; nil marks an empty slot of the
  pending list. Copying is the identity on values.

  The state after adding a list of leaves is the spine of the reference tree
  (\<^const>\<open>spine\<close>), and its root is the tree hash of RFC 6962 (\<^const>\<open>mth\<close>).
\<close>

section \<open>Hashes\<close>

type_synonym hash = slice

text \<open>\<^verbatim>\<open>HashFunc\<close>.\<close>
type_synonym hash_func = "bytes \<Rightarrow> hash"

definition Sha256 :: hash_func where
  "Sha256 b = Some (sha256 b)"

definition Combine :: "hash_func \<Rightarrow> hash \<Rightarrow> hash \<Rightarrow> hash" where
  "Combine hf h right = hf (contents h @ contents right)"

text \<open>\<^verbatim>\<open>bytes.Equal\<close>: a nil slice equals an empty one.\<close>
definition hash_Equal :: "hash \<Rightarrow> hash \<Rightarrow> bool" where
  "hash_Equal h g \<longleftrightarrow> contents h = contents g"

definition Bytes32 :: "hash \<Rightarrow> bytes result" where
  "Bytes32 h = (if length (contents h) \<noteq> 32 then Panic ''hash is not 32 bytes'' else Ok (contents h))"

definition hash_BinarySize :: "hash \<Rightarrow> nat" where
  "hash_BinarySize h = BytesBinarySize (contents h)"

definition hash_MarshalBinary :: "hash \<Rightarrow> bytes" where
  "hash_MarshalBinary h = BytesMarshalBinary (contents h)"

definition hash_UnmarhsalBinary :: "bytes \<Rightarrow> hash result" where
  "hash_UnmarhsalBinary b = BytesUnmarshalBinary b"

section \<open>Sparse hash lists\<close>

text \<open>\<^verbatim>\<open>height & (1 << i)\<close> on an \<^verbatim>\<open>int64\<close>: a shift by 64 or more is zero.\<close>
definition height_bit :: "int \<Rightarrow> nat \<Rightarrow> bool" where
  "height_bit height i \<longleftrightarrow> i < 64 \<and> bit height i"

fun sparse_size_from :: "nat \<Rightarrow> hash list \<Rightarrow> int \<Rightarrow> nat" where
  "sparse_size_from i [] height = 0"
| "sparse_size_from i (h # l) height =
     (if height_bit height i then BytesBinarySize (contents h) else 0) + sparse_size_from (i + 1) l height"

definition SparseHashList_BinarySize :: "hash list \<Rightarrow> int \<Rightarrow> nat" where
  "SparseHashList_BinarySize l height = sparse_size_from 0 l height"

fun SparseHashList_MarshalBinary :: "hash list \<Rightarrow> int \<Rightarrow> bytes result" where
  "SparseHashList_MarshalBinary [] height =
     (if height > 0 then Err (Plain ''missing hash at [%d]'') else Ok [])"
| "SparseHashList_MarshalBinary (h # l) height =
     (if height > 0 then map_ok ((@) (if odd height then BytesMarshalBinary (contents h) else []))
        (SparseHashList_MarshalBinary l (height div 2))
      else Ok [])"

text \<open>\<^verbatim>\<open>bits.Len64\<close>, the number of bits required to represent an unsigned number.\<close>
function bit_len :: "nat \<Rightarrow> nat" where
  "bit_len n = (if n = 0 then 0 else Suc (bit_len (n div 2)))"
  by pat_completeness auto
termination by (relation "measure id") auto

declare bit_len.simps [simp del]

definition Len64 :: "64 word \<Rightarrow> nat" where
  "Len64 w = bit_len (unat w)"

fun sparse_unmarshal :: "nat \<Rightarrow> nat \<Rightarrow> int \<Rightarrow> bytes \<Rightarrow> hash list result" where
  "sparse_unmarshal i 0 height data = Ok []"
| "sparse_unmarshal i (Suc n) height data =
     (if \<not> height_bit height i then map_ok ((#) None) (sparse_unmarshal (i + 1) n height data)
      else bind_result (BytesUnmarshalBinary data) (\<lambda>h.
           bind_result (slice_from (BytesBinarySize (contents h)) data) (\<lambda>data.
           map_ok ((#) h) (sparse_unmarshal (i + 1) n height data))))"

definition SparseHashList_UnmarshalBinary :: "int \<Rightarrow> bytes \<Rightarrow> hash list result" where
  "SparseHashList_UnmarshalBinary height data =
     sparse_unmarshal 0 (Len64 (word_of_int height)) height data"

section \<open>Hash lists\<close>

definition HashList_BinarySize :: "hash list \<Rightarrow> nat" where
  "HashList_BinarySize l = UvarintBinarySize (word_of_nat (length l)) + sum_list (map hash_BinarySize l)"

definition HashList_MarshalBinary :: "hash list \<Rightarrow> bytes" where
  "HashList_MarshalBinary l =
     UvarintMarshalBinary (word_of_nat (length l)) @ concat (map hash_MarshalBinary l)"

fun hash_list_loop :: "nat \<Rightarrow> bytes \<Rightarrow> hash list result" where
  "hash_list_loop 0 b = Ok []"
| "hash_list_loop (Suc n) b =
     bind_result (hash_UnmarhsalBinary b) (\<lambda>h.
     bind_result (slice_from (hash_BinarySize h) b) (\<lambda>b.
     map_ok ((#) h) (hash_list_loop n b)))"

text \<open>A slice header takes 24 bytes.\<close>
definition HashList_UnmarhsalBinary :: "bytes \<Rightarrow> hash list result" where
  "HashList_UnmarhsalBinary b =
     bind_result (UvarintUnmarshalBinary b) (\<lambda>n.
     bind_result (slice_from (UvarintBinarySize n) b) (\<lambda>b.
       if \<not> makeslice_ok 24 (unat n) then Panic ''makeslice: len out of range''
       else hash_list_loop (unat n) b))"

section \<open>The Merkle state\<close>

record MerkleState =
  Count :: int
  Pending :: "hash list"
  HashList :: "hash list"

definition new_MerkleState :: MerkleState where
  "new_MerkleState = \<lparr> Count = 0, Pending = [], HashList = [] \<rparr>"

definition PadPending :: "MerkleState \<Rightarrow> MerkleState" where
  "PadPending m = (if Pending m = [] \<or> last (Pending m) \<noteq> None
     then m \<lparr> Pending := Pending m @ [None] \<rparr> else m)"

fun trim_pending :: "hash list \<Rightarrow> hash list" where
  "trim_pending l = (if l \<noteq> [] \<and> last l = None then trim_pending (butlast l) else l)"

declare trim_pending.simps [simp del]

definition Trim :: "MerkleState \<Rightarrow> MerkleState" where
  "Trim m = m \<lparr> Pending := trim_pending (Pending m) \<rparr>"

definition Pad :: "MerkleState \<Rightarrow> MerkleState" where
  "Pad m = (if length (Pending m) = 0 \<or> last (Pending m) \<noteq> None
     then m \<lparr> Pending := Pending m @ [None] \<rparr> else m)"

text \<open>The first loop of \<^verbatim>\<open>Equal\<close>, over the entries of the first list.\<close>
fun equal_pending :: "hash list \<Rightarrow> hash list \<Rightarrow> bool" where
  "equal_pending [] l2 = True"
| "equal_pending (v # l) [] = (if v = None then equal_pending l [] else False)"
| "equal_pending (v # l) (w # l2) = (if \<not> hash_Equal v w then False else equal_pending l l2)"

definition MerkleState_Equal :: "MerkleState \<Rightarrow> MerkleState \<Rightarrow> bool" where
  "MerkleState_Equal m m2 \<longleftrightarrow>
     Count m = Count m2 \<and>
     equal_pending (Pending m) (Pending m2) \<and>
     (\<forall>v \<in> set (drop (length (Pending m)) (Pending m2)). v = None) \<and>
     length (HashList m) = length (HashList m2) \<and>
     list_all2 hash_Equal (HashList m) (HashList m2)"

definition MerkleState_Marshal :: "MerkleState \<Rightarrow> bytes result" where
  "MerkleState_Marshal m =
     bind_result (SparseHashList_MarshalBinary (Pending m) (Count m)) (\<lambda>b.
     Ok (Int64Bytes (Count m) @ b @ HashList_MarshalBinary (HashList m)))"

definition MerkleState_UnMarshal :: "bytes \<Rightarrow> MerkleState result" where
  "MerkleState_UnMarshal MSBytes =
     bind_result (VarintUnmarshalBinary MSBytes) (\<lambda>count.
     bind_result (slice_from (VarintBinarySize count) MSBytes) (\<lambda>MSBytes.
     bind_result (SparseHashList_UnmarshalBinary count MSBytes) (\<lambda>pending.
     bind_result (slice_from (SparseHashList_BinarySize pending count) MSBytes) (\<lambda>MSBytes.
     bind_result (HashList_UnmarhsalBinary MSBytes) (\<lambda>hashList.
     Ok \<lparr> Count = count, Pending = pending, HashList = hashList \<rparr>)))))"

text \<open>The loop of \<^verbatim>\<open>AddToMerkleTree\<close>: like incrementing a binary counter.\<close>
fun add_pending :: "hash list \<Rightarrow> hash \<Rightarrow> hash list" where
  "add_pending [] h = []"
| "add_pending (None # l) h = h # l"
| "add_pending (Some v # l) h = None # add_pending l (Combine Sha256 (Some v) h)"

definition AddToMerkleTree :: "hash \<Rightarrow> MerkleState \<Rightarrow> MerkleState" where
  "AddToMerkleTree h m = (
     let m = m \<lparr> HashList := HashList m @ [h], Count := Count m + 1 \<rparr>;
         m = PadPending m
     in m \<lparr> Pending := add_pending (Pending m) h \<rparr>)"

fun md_root :: "hash \<Rightarrow> hash list \<Rightarrow> hash" where
  "md_root MDRoot [] = MDRoot"
| "md_root MDRoot (v # l) =
     (if MDRoot = None then md_root v l
      else if v \<noteq> None then md_root (Combine Sha256 v MDRoot) l
      else md_root MDRoot l)"

definition GetMDRoot :: "MerkleState \<Rightarrow> hash" where
  "GetMDRoot m = (if Count m = 0 then None else md_root None (Pending m))"

fun intermediate_loop :: "nat \<Rightarrow> hash list \<Rightarrow> hash \<Rightarrow> int \<Rightarrow> (hash \<times> hash) result" where
  "intermediate_loop i [] h height = Err (Plain ''no values found at height %d'')"
| "intermediate_loop i (v # l) h height =
     (if v = None then Err (Plain ''should not encounter a nil at height %d'')
      else if int i + 1 = height then Ok (v, h)
      else intermediate_loop (i + 1) l (Combine Sha256 v h) height)"

text \<open>The receiver is padded in place.\<close>
definition MerkleState_GetIntermediate ::
  "hash \<Rightarrow> int \<Rightarrow> MerkleState \<Rightarrow> MerkleState \<times> (hash \<times> hash) result" where
  "MerkleState_GetIntermediate h height m = (let m = PadPending m
     in (m, intermediate_loop 0 (Pending m) h height))"

section \<open>The state refines the reference tree\<close>

text \<open>The combining function of the tree.\<close>
definition node :: "bytes \<Rightarrow> bytes \<Rightarrow> bytes" where
  "node l r = sha256 (l @ r)"

lemma Combine_node [simp]: "Combine Sha256 (Some l) (Some r) = Some (node l r)"
  by (simp add: Combine_def Sha256_def node_def)

lemma length_node [simp]: "length (node l r) = 32" and node_not_Nil [simp]: "node l r \<noteq> []"
  by (simp_all add: node_def)

text \<open>The state holds the leaves \<^term>\<open>xs\<close>: trailing nils of the pending list do not matter.\<close>
definition holds :: "bytes list \<Rightarrow> MerkleState \<Rightarrow> bool" where
  "holds xs m \<longleftrightarrow> Count m = int (length xs) \<and> (\<exists>r. Pending m = spine node xs @ replicate r None)"

lemma add_spine:
  "\<exists>r'. add_pending (spine node xs @ replicate (Suc r) None) (Some x) = spine node (xs @ [x]) @ replicate r' None"
proof (induction xs arbitrary: x rule: length_induct_half)
  case Nil
  then show ?case by (intro exI [of _ r]) (simp add: spine_step)
next
  case (step xs)
  show ?case
  proof (cases "even (length xs)")
    case True
    then have "pairs node (xs @ [x]) = pairs node xs" by (simp add: pairs_append)
    then show ?thesis
      using True step(1) by (intro exI [of _ "Suc r"]) (simp add: spine_step)
  next
    case False
    obtain ys l where xs: "xs = ys @ [l]" using step(1) by (metis append_butlast_last_id)
    with False have "even (length ys)" by simp
    then have p: "pairs node (xs @ [x]) = pairs node xs @ [node l x]"
      by (simp add: xs pairs_append)
    have "length (pairs node xs) \<le> length xs div 2" by simp
    from step(2) [OF this, of "node l x"] obtain r' where
      "add_pending (spine node (pairs node xs) @ replicate (Suc r) None) (Some (node l x))
        = spine node (pairs node xs @ [node l x]) @ replicate r' None" by blast
    then show ?thesis
      using False step(1) by (intro exI [of _ r']) (simp add: spine_step p, simp add: xs)
  qed
qed

lemma PadPending_holds:
  assumes "Pending m = spine node xs @ replicate r None"
  shows "\<exists>r'. Pending (PadPending m) = spine node xs @ replicate (Suc r') None"
proof (cases r)
  case 0
  then show ?thesis
    using assms spine_last [of xs node] by (cases "xs = []") (auto simp: PadPending_def intro: exI [of _ 0])
next
  case (Suc r')
  then have "\<not> (Pending m = [] \<or> last (Pending m) \<noteq> None)" using assms by simp
  then show ?thesis using assms Suc by (simp add: PadPending_def)
qed

lemma PadPending_simps [simp]:
  "Count (PadPending m) = Count m" "HashList (PadPending m) = HashList m"
  by (simp_all add: PadPending_def)

lemma AddToMerkleTree_simps [simp]:
  "Count (AddToMerkleTree h m) = Count m + 1"
  "HashList (AddToMerkleTree h m) = HashList m @ [h]"
  by (simp_all add: AddToMerkleTree_def Let_def)

lemma holds_new [simp]: "holds [] new_MerkleState"
  by (simp add: holds_def new_MerkleState_def)

lemma holds_Add [keeps]:
  assumes "holds xs m"
  shows "holds (xs @ [x]) (AddToMerkleTree (Some x) m)"
proof -
  obtain r where r: "Pending m = spine node xs @ replicate r None" using assms by (auto simp: holds_def)
  let ?m = "m \<lparr> HashList := HashList m @ [Some x], Count := Count m + 1 \<rparr>"
  obtain r' where r': "Pending (PadPending ?m) = spine node xs @ replicate (Suc r') None"
    using PadPending_holds [of ?m xs r] r by auto
  obtain r'' where "add_pending (Pending (PadPending ?m)) (Some x) = spine node (xs @ [x]) @ replicate r'' None"
    using add_spine [of xs r' x] r' by auto
  then show ?thesis using assms by (auto simp: holds_def AddToMerkleTree_def Let_def)
qed

text \<open>Adding a list of leaves.\<close>
abbreviation add_all :: "bytes list \<Rightarrow> MerkleState \<Rightarrow> MerkleState" where
  "add_all xs m \<equiv> fold (\<lambda>x. AddToMerkleTree (Some x)) xs m"

lemma holds_add_all: "holds xs m \<Longrightarrow> holds (xs @ ys) (add_all ys m)"
proof (induction ys arbitrary: xs m)
  case (Cons y ys)
  have "holds ((xs @ [y]) @ ys) (add_all ys (AddToMerkleTree (Some y) m))"
    by (rule Cons.IH) (rule holds_Add [OF Cons.prems])
  then show ?case by simp
qed simp

lemma HashList_add_all [simp]: "HashList (add_all ys m) = HashList m @ map Some ys"
  by (induction ys arbitrary: m) auto

lemma Count_add_all [simp]: "Count (add_all ys m) = Count m + int (length ys)"
  by (induction ys arbitrary: m) auto

lemma holds_pending:
  assumes "holds xs m" "k < length (Pending m)"
  shows "Pending m ! k = (if odd (length xs div 2 ^ k) then Some (last (level node k xs)) else None)"
proof -
  obtain r where r: "Pending m = spine node xs @ replicate r None" using assms by (auto simp: holds_def)
  show ?thesis
  proof (cases "k < length (spine node xs)")
    case True
    then show ?thesis by (simp add: r nth_append spine_nth)
  next
    case False
    then have "length xs < 2 ^ k"
      by (intro less_power_mono [OF length_spine [of xs node]]) simp
    then show ?thesis using False assms(2) by (simp add: r nth_append)
  qed
qed

lemma holds_length: "holds xs m \<Longrightarrow> length xs < 2 ^ length (Pending m)"
proof -
  assume "holds xs m"
  then obtain r where "Pending m = spine node xs @ replicate r None" by (auto simp: holds_def)
  then show ?thesis
    using less_power_mono [OF length_spine [of xs node], of "length (Pending m)"] by simp
qed

text \<open>The last complete subtree of an odd level, as a block of leaves.\<close>
lemma last_level_block:
  assumes "odd (length xs div 2 ^ k)"
  shows "last (level c k xs) = mth c (take (2 ^ k) (drop (2 ^ Suc k * (length xs div 2 ^ Suc k)) xs))"
proof -
  let ?q = "length xs div 2 ^ k"
  have "?q \<noteq> 0" using assms by (metis even_zero)
  then have ne: "level c k xs \<noteq> []" by (metis length_level length_0_conv)
  have "?q - 1 = 2 * (length xs div 2 ^ Suc k)"
    using assms by (simp add: div_mult2_eq mult.commute [of 2 "2 ^ k"])
  then have q: "(?q - 1) * 2 ^ k = 2 ^ Suc k * (length xs div 2 ^ Suc k)" by simp
  have "last (level c k xs) = level c k xs ! (?q - 1)" using ne by (simp add: last_conv_nth)
  also have "\<dots> = mth c (take (2 ^ k) (drop ((?q - 1) * 2 ^ k) xs))"
    using \<open>?q \<noteq> 0\<close> by (intro level_nth_mth) (simp add: div_times_less_eq_dividend)
  finally show ?thesis unfolding q .
qed

section \<open>The root\<close>

lemma md_root_nones [simp]: "md_root h (l @ replicate r None) = md_root h l"
proof -
  have "md_root h (replicate r None) = h" for h by (induction r) auto
  then show ?thesis by (induction l arbitrary: h) auto
qed

lemma md_root_Some: "md_root (Some a) (spine node xs) = Some (mth node (xs @ [a]))"
proof (induction xs arbitrary: a rule: length_induct_half)
  case (step xs)
  show ?case
  proof (cases "even (length xs)")
    case True
    then have "promote node (xs @ [a]) = pairs node xs @ [a]" by (simp add: promote_append)
    then have "mth node (xs @ [a]) = mth node (pairs node xs @ [a])"
      using mth_promote [of "xs @ [a]" node] by simp
    then show ?thesis using True step by (simp add: spine_step)
  next
    case False
    obtain ys l where xs: "xs = ys @ [l]" using step(1) by (metis append_butlast_last_id)
    with False have e: "even (length ys)" by simp
    then have "promote node (xs @ [a]) = pairs node xs @ [node l a]"
      by (simp add: xs promote_append pairs_append)
    then have "mth node (xs @ [a]) = mth node (pairs node xs @ [node l a])"
      using mth_promote [of "xs @ [a]" node] by simp
    moreover have "length (pairs node xs) \<le> length xs div 2" by simp
    ultimately show ?thesis using False step by (simp add: spine_step) (simp add: xs)
  qed
qed simp

lemma md_root_None: "md_root None (spine node xs) = (if xs = [] then None else Some (mth node xs))"
proof (induction xs rule: length_induct_half)
  case (step xs)
  show ?case
  proof (cases "even (length xs)")
    case True
    then have "mth node xs = mth node (pairs node xs)"
      using mth_promote [of xs node] step(1) by (simp add: promote_even)
    moreover have "pairs node xs \<noteq> []" using True step(1) by (metis length_0_conv length_pairs odd_one div_eq_0_iff less_2_cases One_nat_def zero_neq_numeral)
    moreover have "length (pairs node xs) \<le> length xs div 2" by simp
    ultimately show ?thesis
      using True step(1) step(2) [of "pairs node xs"] by (simp add: spine_step [OF step(1)])
  next
    case False
    obtain ys l where xs: "xs = ys @ [l]" using step(1) by (metis append_butlast_last_id)
    with False have e: "even (length ys)" by simp
    then have "promote node xs = pairs node xs @ [l]" by (simp add: xs promote_append pairs_append)
    then have "mth node xs = mth node (pairs node xs @ [l])"
      using mth_promote [of xs node] step(1) by simp
    then show ?thesis using False step(1) by (simp add: spine_step md_root_Some) (simp add: xs)
  qed
qed simp

lemma GetMDRoot_holds: "holds xs m \<Longrightarrow> GetMDRoot m = (if xs = [] then None else Some (mth node xs))"
  by (auto simp: holds_def GetMDRoot_def md_root_None)

section \<open>The binary form\<close>

text \<open>The pending list has a non-empty hash exactly at the set bits of the count.\<close>
fun fits :: "hash list \<Rightarrow> nat \<Rightarrow> bool" where
  "fits [] n \<longleftrightarrow> n = 0"
| "fits (h # l) n \<longleftrightarrow> (odd n \<longleftrightarrow> h \<noteq> None) \<and> (\<forall>x. h = Some x \<longrightarrow> x \<noteq> [] \<and> length x < 2 ^ 63)
     \<and> fits l (n div 2)"

lemma bit_len_0 [simp]: "bit_len 0 = 0"
  by (simp add: bit_len.simps)

lemma bit_len_pos: "0 < n \<Longrightarrow> bit_len n = Suc (bit_len (n div 2))"
  by (subst bit_len.simps) simp

lemma bit_len_le: "n < 2 ^ k \<Longrightarrow> bit_len n \<le> k"
proof (induction n arbitrary: k rule: bit_len.induct)
  case (1 n)
  show ?case
  proof (cases "n = 0")
    case False
    then obtain k' where "k = Suc k'" using 1(2) by (cases k) auto
    with 1 False show ?thesis by (simp add: bit_len_pos)
  qed simp
qed

lemma BytesBinarySize_marshal: "slice_from (BytesBinarySize b) (BytesMarshalBinary b @ rest) = Ok rest"
  by (simp add: BytesBinarySize_def)

lemma fits_marshal:
  "fits l n \<Longrightarrow> \<exists>b. SparseHashList_MarshalBinary l (int n) = Ok b \<and>
     (\<forall>i H rest. (\<forall>j < bit_len n. height_bit H (i + j) = bit n j) \<longrightarrow>
       sparse_unmarshal i (bit_len n) H (b @ rest) = Ok (take (bit_len n) l) \<and>
       sparse_size_from i (take (bit_len n) l) H = length b)"
proof (induction l n rule: fits.induct)
  case (1 n)
  then show ?case by simp
next
  case (2 h l n)
  show ?case
  proof (cases "n = 0")
    case True
    then show ?thesis by simp
  next
    case False
    from 2(2) have l: "fits l (n div 2)" by simp
    obtain b where b: "SparseHashList_MarshalBinary l (int (n div 2)) = Ok b"
      and u: "\<And>i H rest. (\<forall>j < bit_len (n div 2). height_bit H (i + j) = bit (n div 2) j) \<Longrightarrow>
        sparse_unmarshal i (bit_len (n div 2)) H (b @ rest) = Ok (take (bit_len (n div 2)) l) \<and>
        sparse_size_from i (take (bit_len (n div 2)) l) H = length b"
      using 2(1) [OF l] by blast
    let ?p = "if odd n then BytesMarshalBinary (contents h) else []"
    have m: "SparseHashList_MarshalBinary (h # l) (int n) = Ok (?p @ b)"
      using False b by (simp add: zdiv_int)
    have "sparse_unmarshal i (bit_len n) H ((?p @ b) @ rest) = Ok (take (bit_len n) (h # l)) \<and>
       sparse_size_from i (take (bit_len n) (h # l)) H = length (?p @ b)"
      if H: "\<forall>j < bit_len n. height_bit H (i + j) = bit n j" for i H rest
    proof -
      have n: "bit_len n = Suc (bit_len (n div 2))" using False by (simp add: bit_len_pos)
      have h0: "height_bit H i = odd n" using H n by (auto simp: bit_0 dest: spec [of _ 0])
      have "\<forall>j < bit_len (n div 2). height_bit H ((i + 1) + j) = bit (n div 2) j"
        using H n by (auto simp: bit_Suc dest: spec [of _ "Suc _"])
      note u = u [OF this, of rest]
      show ?thesis
      proof (cases "odd n")
        case True
        with 2(2) obtain x where x: "h = Some x" "x \<noteq> []" "length x < 2 ^ 63" by auto
        have d: "BytesUnmarshalBinary (BytesMarshalBinary x @ (b @ rest)) = Ok (Some x)"
          using x BytesUnmarshal_Marshal by auto
        have s: "slice_from (BytesBinarySize x) (BytesMarshalBinary x @ (b @ rest)) = Ok (b @ rest)"
          by (rule BytesBinarySize_marshal)
        show ?thesis
          using True x(1) u h0 d s by (simp add: n) (simp add: BytesBinarySize_def)
      next
        case False
        then show ?thesis using 2(2) u h0 by (simp add: n)
      qed
    qed
    with m show ?thesis by blast
  qed
qed

lemma hash_MarshalBinary_Some: "hash_MarshalBinary (Some x) = BytesMarshalBinary x"
  by (simp add: hash_MarshalBinary_def)

lemma hash_list_loop_marshal:
  "\<forall>x \<in> set xs. x \<noteq> [] \<and> length x < 2 ^ 63 \<Longrightarrow>
   hash_list_loop (length xs) (concat (map hash_MarshalBinary (map Some xs))) = Ok (map Some xs)"
proof (induction xs)
  case (Cons x xs)
  let ?r = "concat (map hash_MarshalBinary (map Some xs))"
  have "BytesUnmarshalBinary (BytesMarshalBinary x @ ?r) = Ok (Some x)"
    using Cons.prems BytesUnmarshal_Marshal [of x ?r] by auto
  moreover have "slice_from (BytesBinarySize x) (BytesMarshalBinary x @ ?r) = Ok ?r"
    by (rule BytesBinarySize_marshal)
  ultimately show ?case
    using Cons by (simp add: hash_UnmarhsalBinary_def hash_BinarySize_def hash_MarshalBinary_Some)
qed simp

lemma HashList_roundtrip [codec]:
  assumes "\<forall>x \<in> set xs. x \<noteq> [] \<and> length x < 2 ^ 63" "24 * length xs \<le> 2 ^ 48"
  shows "HashList_UnmarhsalBinary (HashList_MarshalBinary (map Some xs)) = Ok (map Some xs)"
proof -
  let ?n = "word_of_nat (length xs) :: 64 word" and ?r = "concat (map hash_MarshalBinary (map Some xs))"
  have n: "unat ?n = length xs" using assms(2) by (intro unat_word_length) simp
  have s: "slice_from (UvarintBinarySize ?n) (UvarintMarshalBinary ?n @ ?r) = Ok ?r"
    unfolding UvarintBinarySize_def by (rule slice_from_append)
  have "makeslice_ok 24 (length xs)" using assms(2) by (simp add: makeslice_ok_def)
  with n s show ?thesis
    unfolding HashList_UnmarhsalBinary_def HashList_MarshalBinary_def
    by (simp only: length_map UvarintUnmarshal_Marshal bind_result.simps hash_list_loop_marshal [OF assms(1)]
        not_True_eq_False if_False)
qed

lemma trim_pending_spine: "trim_pending (spine node xs @ replicate r None) = spine node xs"
proof (induction r)
  case 0
  show ?case using spine_last [of xs node] by (subst trim_pending.simps) auto
next
  case (Suc r)
  have "spine node xs @ replicate (Suc r) None = (spine node xs @ replicate r None) @ [None]"
    by (simp add: replicate_append_same)
  moreover have "trim_pending (l @ [None]) = trim_pending l" for l
    by (subst trim_pending.simps) simp
  ultimately show ?case using Suc by metis
qed

lemma length_spine_bit_len: "length (spine c xs) = bit_len (length xs)"
proof (induction c xs rule: spine.induct)
  case (1 c xs)
  then show ?case by (cases "xs = []") (auto simp: spine_step bit_len_pos)
qed

lemma pairs_nonempty: "x \<in> set (pairs node xs) \<Longrightarrow> x \<noteq> [] \<and> length x = 32"
  by (induction node xs rule: pairs.induct) auto

lemma fits_spine:
  assumes "\<forall>x \<in> set xs. x \<noteq> [] \<and> length x < 2 ^ 63"
  shows "fits (spine node xs @ replicate r None) (length xs)"
  using assms
proof (induction xs rule: length_induct_half)
  case Nil
  show ?case by (induction r) auto
next
  case (step xs)
  have "fits (spine node (pairs node xs) @ replicate r None) (length (pairs node xs))"
    using step(2) [of "pairs node xs"] pairs_nonempty by simp
  moreover have "last xs \<in> set xs" using step(1) by simp
  ultimately show ?case using step(1,3) by (simp add: spine_step)
qed

lemma height_bit_of_nat: "n < 2 ^ 63 \<Longrightarrow> j < bit_len n \<Longrightarrow> height_bit (int n) j = bit n j"
  using bit_len_le [of n 63] by (simp add: height_bit_def bit_of_nat_iff)

lemma Len64_of_nat: "n < 2 ^ 63 \<Longrightarrow> Len64 (word_of_nat n) = bit_len n"
  by (simp add: Len64_def unat_word_length)

text \<open>Decoding the binary form of a state gives the state without its trailing nils.\<close>
lemma Marshal_holds:
  assumes "holds xs m" "\<forall>x \<in> set xs. x \<noteq> [] \<and> length x < 2 ^ 63" "length xs < 2 ^ 63"
    and "HashList m = map Some hl" "\<forall>x \<in> set hl. x \<noteq> [] \<and> length x < 2 ^ 63" "24 * length hl \<le> 2 ^ 48"
  shows "\<exists>b. MerkleState_Marshal m = Ok b \<and> MerkleState_UnMarshal b = Ok (Trim m)"
proof -
  let ?n = "length xs"
  obtain r where c: "Count m = int ?n" and p: "Pending m = spine node xs @ replicate r None"
    using assms(1) by (auto simp: holds_def)
  obtain b where b: "SparseHashList_MarshalBinary (Pending m) (int ?n) = Ok b"
    and u: "\<And>i H rest. (\<forall>j < bit_len ?n. height_bit H (i + j) = bit ?n j) \<Longrightarrow>
        sparse_unmarshal i (bit_len ?n) H (b @ rest) = Ok (take (bit_len ?n) (Pending m)) \<and>
        sparse_size_from i (take (bit_len ?n) (Pending m)) H = length b"
    using fits_marshal [OF fits_spine [OF assms(2)], of r] p by auto
  let ?h = "HashList_MarshalBinary (HashList m)"
  have t: "take (bit_len ?n) (Pending m) = trim_pending (Pending m)"
    by (simp add: p trim_pending_spine length_spine_bit_len)
  have u': "SparseHashList_UnmarshalBinary (int ?n) (b @ ?h) = Ok (trim_pending (Pending m))"
    "SparseHashList_BinarySize (trim_pending (Pending m)) (int ?n) = length b"
    using u [of "int ?n" 0 ?h] assms(3) t
    by (simp_all add: SparseHashList_UnmarshalBinary_def SparseHashList_BinarySize_def
        Len64_of_nat height_bit_of_nat)
  have v: "VarintUnmarshalBinary (VarintMarshalBinary (int ?n) @ b @ ?h) = Ok (int ?n)"
    using assms(3) by (intro VarintUnmarshal_Marshal) simp_all
  have "MerkleState_UnMarshal (VarintMarshalBinary (int ?n) @ b @ ?h) = Ok (Trim m)"
    using u' v HashList_roundtrip [OF assms(5,6)] assms(4)
    by (simp add: MerkleState_UnMarshal_def VarintBinarySize_def Trim_def c)
  then show ?thesis
    using b c by (simp add: MerkleState_Marshal_def VarintMarshalBinary_def)
qed

section \<open>Comparison\<close>

lemma trim_pending_snoc: "trim_pending (l @ [v]) = (if v = None then trim_pending l else l @ [v])"
  by (subst trim_pending.simps) simp

lemma trim_pending_prefix: "\<exists>r. l = trim_pending l @ replicate r None"
proof (induction l rule: rev_induct)
  case Nil
  show ?case by (subst trim_pending.simps) simp
next
  case (snoc v l)
  then obtain r where r: "l = trim_pending l @ replicate r None" by blast
  show ?case
  proof (cases v)
    case None
    have "l @ [v] = trim_pending l @ replicate (Suc r) None"
      by (subst r) (simp add: None replicate_append_same)
    moreover have "trim_pending (l @ [v]) = trim_pending l" by (simp add: trim_pending_snoc None)
    ultimately have "l @ [v] = trim_pending (l @ [v]) @ replicate (Suc r) None" by argo
    then show ?thesis by (rule exI)
  next
    case (Some x)
    then show ?thesis by (auto simp: trim_pending_snoc intro: exI [of _ 0])
  qed
qed

lemma equal_pending_prefix: "equal_pending l (l @ r)"
  by (induction l) (auto simp: hash_Equal_def)

text \<open>Trimming a state does not change it for the comparison.\<close>
lemma Equal_Trim: "MerkleState_Equal (Trim m) m"
proof -
  obtain r where r: "Pending m = trim_pending (Pending m) @ replicate r None"
    using trim_pending_prefix by blast
  have "equal_pending (trim_pending (Pending m)) (Pending m)"
    by (subst (2) r) (rule equal_pending_prefix)
  moreover have "set (drop (length (trim_pending (Pending m))) (Pending m)) \<subseteq> {None}"
    by (subst (2) r) auto
  ultimately show ?thesis
    by (auto simp: MerkleState_Equal_def Trim_def hash_Equal_def list_all2_same)
qed

lemma add_all_length: "length xs < 2 ^ length (Pending (add_all xs new_MerkleState))"
  using holds_length [OF holds_add_all [OF holds_new, of xs]] by simp

section \<open>Properties\<close>

text \<open>
  After any list of hashes has been added to a new state, the state counts them, and its
  pending list is the binary representation of the count: at each set bit \<^term>\<open>k\<close> it holds the
  Merkle root of the block of \<open>2 ^ k\<close> hashes that bit stands for, at every other bit it is nil.
\<close>
theorem MerkleState_pending:
  "Count (add_all xs new_MerkleState) = int (length xs) \<and>
   HashList (add_all xs new_MerkleState) = map Some xs \<and>
   length xs < 2 ^ length (Pending (add_all xs new_MerkleState)) \<and>
   Pending (add_all xs new_MerkleState) = map
     (\<lambda>k. if bit (length xs) k
       then Some (mth node (take (2 ^ k) (drop (2 ^ Suc k * (length xs div 2 ^ Suc k)) xs))) else None)
     [0..<length (Pending (add_all xs new_MerkleState))]"
  (is "?count \<and> ?list \<and> ?len \<and> ?pending")
proof -
  have h: "holds xs (add_all xs new_MerkleState)" using holds_add_all [OF holds_new, of xs] by simp
  have ?pending
  proof (rule nth_equalityI, goal_cases)
    case (2 k)
    then show ?case
      using holds_pending [OF h 2] last_level_block [of xs k node] by (simp add: bit_iff_odd)
  qed simp
  moreover have ?count ?list using h by (simp_all add: holds_def) (simp_all add: new_MerkleState_def)
  ultimately show ?thesis using add_all_length by blast
qed

text \<open>
  C9. The root of a state is the Merkle tree hash of RFC 6962 over the hashes added, in order;
  the root of the empty state is nil.
\<close>
theorem GetMDRoot_mth:
  "GetMDRoot (add_all xs new_MerkleState) = (if xs = [] then None else Some (mth node xs))"
  using GetMDRoot_holds [OF holds_add_all [OF holds_new, of xs]] by simp

text \<open>
  C21. A state of non-empty hashes can be marshalled, and unmarshalling the bytes gives the state
  back without the trailing nils of its pending list, which the comparison ignores.
\<close>
theorem MerkleState_roundtrip:
  assumes "\<forall>x \<in> set xs. x \<noteq> [] \<and> length x < 2 ^ 63" "24 * length xs \<le> 2 ^ 48"
  shows "\<exists>b. MerkleState_Marshal (add_all xs new_MerkleState) = Ok b \<and>
    MerkleState_UnMarshal b = Ok (Trim (add_all xs new_MerkleState)) \<and>
    MerkleState_Equal (Trim (add_all xs new_MerkleState)) (add_all xs new_MerkleState)"
proof -
  let ?m = "add_all xs new_MerkleState"
  have h: "holds xs ?m" using holds_add_all [OF holds_new, of xs] by simp
  have "HashList ?m = map Some xs" by (simp add: new_MerkleState_def)
  then show ?thesis
    using Marshal_holds [OF h assms(1) _ _ assms(1,2)] assms(2) Equal_Trim [of ?m] by auto
qed

theorem MerkleState_roundtrip_witness:
  "\<exists>b. MerkleState_Marshal (add_all [[1], [2, 3]] new_MerkleState) = Ok b \<and>
    MerkleState_UnMarshal b = Ok (Trim (add_all [[1], [2, 3]] new_MerkleState)) \<and>
    MerkleState_Equal (Trim (add_all [[1], [2, 3]] new_MerkleState)) (add_all [[1], [2, 3]] new_MerkleState)"
  by (rule MerkleState_roundtrip) simp_all

end
