(* ===== verification/Merkle_Manager.thy ===== *)
theory Merkle_Manager
  imports Merkle_State
begin

unbundle bit_operations_syntax

text \<open>
  \<^verbatim>\<open>src/smt/managed/merklemanager.go\<close> and \<^verbatim>\<open>merklemanagerrange.go\<close>: the chain, an append-only list
  of hashes kept as its head state, the states at the mark points, the elements and the index
  of the elements. The records of the chain are maps; a missing record is absent from its map
  and an empty head is the new state, as \<^verbatim>\<open>record.Value\<close> returns them. Reads of the store do not
  fail otherwise. The conversion of an \<^verbatim>\<open>int64\<close> index to \<^verbatim>\<open>uint64\<close> is one to one, so the maps
  are keyed by the signed index.

  \<open>chain_holds\<close> is the invariant: the chain holds a list of hashes. Every operation is shown to
  be the one of that list.
\<close>

section \<open>The chain\<close>

record Chain =
  markPower :: int
  markFreq :: int
  markMask :: int
  Head :: MerkleState
  States :: "int \<rightharpoonup> MerkleState"
  ElementIndex :: "bytes \<rightharpoonup> int"
  Element :: "int \<rightharpoonup> hash"

definition NewChain :: "nat \<Rightarrow> Chain" where
  "NewChain p = \<lparr> markPower = int p, markFreq = 2 ^ p, markMask = 2 ^ p - 1,
     Head = new_MerkleState, States = Map.empty, ElementIndex = Map.empty, Element = Map.empty \<rparr>"

text \<open>\<^verbatim>\<open>record.MapKeyBytes\<close>, the key of an element in the index.\<close>
definition MapKeyBytes :: "bytes \<Rightarrow> bytes" where
  "MapKeyBytes v = (if length v = 32 then v else sha256 v)"

definition AddHash :: "hash \<Rightarrow> bool \<Rightarrow> Chain \<Rightarrow> Chain" where
  "AddHash h unique m = (
     let head = Head m;
         k = MapKeyBytes (contents h)
     in if ElementIndex m k \<noteq> None \<and> unique then m
        else
          let m = (if ElementIndex m k = None
                   then m \<lparr> ElementIndex := (ElementIndex m)(k \<mapsto> Count head) \<rparr> else m);
              m = m \<lparr> Element := (Element m)(Count head \<mapsto> h) \<rparr>;
              c = (Count head + 1) AND markMask m
          in if c = 0 then
               let head = AddToMerkleTree h head;
                   m = m \<lparr> States := (States m)(Count head - 1 \<mapsto> head) \<rparr>
               in m \<lparr> Head := head \<rparr>
             else
               let head = (if c = 1 then head \<lparr> HashList := [] \<rparr> else head);
                   head = AddToMerkleTree h head
               in m \<lparr> Head := head \<rparr>)"

abbreviation "NotFound \<equiv> Coded StatusNotFound ''%s not found''"

definition GetElementIndex :: "Chain \<Rightarrow> hash \<Rightarrow> int result" where
  "GetElementIndex m h = (case ElementIndex m (MapKeyBytes (contents h)) of
     None \<Rightarrow> Err NotFound | Some i \<Rightarrow> Ok i)"

definition Chain_Get :: "Chain \<Rightarrow> int \<Rightarrow> hash result" where
  "Chain_Get m element = (case Element m element of None \<Rightarrow> Err NotFound | Some h \<Rightarrow> Ok h)"

text \<open>On an empty chain the state is new, with the element added when it is not found.\<close>
definition GetState :: "Chain \<Rightarrow> int \<Rightarrow> MerkleState option" where
  "GetState m element = (
     if Count (Head m) = 0 then
       (let ms = new_MerkleState in
        case Chain_Get m element of
          Ok _ \<Rightarrow> Some ms
        | _ \<Rightarrow> Some (AddToMerkleTree None ms))
     else States m element)"

text \<open>The loop of \<^verbatim>\<open>GetAnyState\<close> over the hashes of the mark set.\<close>
fun add_until :: "int \<Rightarrow> hash list \<Rightarrow> MerkleState \<Rightarrow> MerkleState" where
  "add_until element [] cState = cState"
| "add_until element (v # vs) cState =
     (if element + 1 = Count cState then cState
      else add_until element vs (AddToMerkleTree v cState))"

definition GetAnyState :: "Chain \<Rightarrow> int \<Rightarrow> MerkleState result" where
  "GetAnyState m element = (
     if element = -1 then Ok new_MerkleState
     else case GetState m element of Some ms \<Rightarrow> Ok ms
     | None \<Rightarrow>
       if element \<ge> Count (Head m) then Err (Coded StatusBadRequest ''element out of range'')
       else
         let MIPrev = (element AND NOT (markMask m)) - 1;
             cState = (if MIPrev < 0 then Some new_MerkleState else GetState m MIPrev)
         in case cState of
              None \<Rightarrow> Err (Coded StatusInternalError ''should have a state for all elements(1)'')
            | Some cState \<Rightarrow>
              let cState = cState \<lparr> HashList := [] \<rparr>;
                  MINext = (element AND NOT (markMask m)) - 1 + markFreq m;
                  NMark = (if MINext \<ge> Count (Head m) then Some (Head m) else GetState m MINext)
              in case NMark of
                   None \<Rightarrow> Err (Coded StatusInternalError ''mark not found in the database'')
                 | Some NMark \<Rightarrow>
                   let cState = add_until element (HashList NMark) cState
                   in Ok (if Count cState AND markMask m = 0
                          then cState \<lparr> HashList := [] \<rparr> else cState))"

definition Chain_GetIntermediate :: "Chain \<Rightarrow> int \<Rightarrow> int \<Rightarrow> (hash \<times> hash) result" where
  "Chain_GetIntermediate m element height =
     bind_result (Chain_Get m element) (\<lambda>h.
     bind_result (GetAnyState m (element - 1)) (\<lambda>s.
     snd (MerkleState_GetIntermediate h height s)))"

text \<open>The loop of \<^verbatim>\<open>GetRange\<close> over the mark sets, with the remaining number of them.\<close>
fun range_loop :: "Chain \<Rightarrow> nat \<Rightarrow> int \<Rightarrow> hash list \<Rightarrow> hash list result" where
  "range_loop m 0 markPoint hl = Ok hl"
| "range_loop m (Suc n) markPoint hl = (
     let last = markPoint;
         markPoint = markPoint + markFreq m
     in case GetState m (markPoint - 1) of
          Some s \<Rightarrow>
            if int (length (HashList s)) \<noteq> markFreq m
            then Err (Coded StatusIncompleteChain ''markpoint %d: expected %d entries, got %d'')
            else range_loop m n markPoint (hl @ HashList s)
        | None \<Rightarrow>
            let s = Head m;
                c = Count s - last;
                c = (if c mod markFreq m = 0 then c XOR markFreq m else c)
            in if int (length (HashList s)) \<noteq> c
               then Err (Coded StatusIncompleteChain ''head: expected %d entries, got %d'')
               else Ok (hl @ HashList s))"

definition GetRange :: "Chain \<Rightarrow> int \<Rightarrow> int \<Rightarrow> hash list result" where
  "GetRange m begin end = (
     let ec = Count (Head m)
     in if end < begin \<or> begin \<ge> ec \<or> begin < 0
        then Err (Plain ''impossible range %d,%d for chain length %d'')
        else
          let end = (if end > ec then ec else end)
          in if end = begin then Ok []
             else
               let markPoint = begin AND NOT (markMask m);
                   marks = (end - (begin AND NOT (markMask m))) div markFreq m + 1
               in bind_result (range_loop m (nat marks) markPoint []) (\<lambda>hl.
                    let first = begin AND markMask m;
                        last = first + end - begin
                    in bind_result (slice_to (nat last) hl) (slice_from (nat first))))"

section \<open>The chain holds a list of hashes\<close>

lemma and_mask: "x AND (2 ^ p - 1) = (x :: int) mod 2 ^ p"
  by (simp add: take_bit_eq_mod flip: take_bit_eq_mask mask_eq_exp_minus_1)

lemma and_not_mask: "x AND NOT (2 ^ p - 1) = (2 ^ p * (x div 2 ^ p) :: int)"
proof -
  have "x AND NOT (mask p) = push_bit p (drop_bit p x)"
    by (rule bit_eqI) (auto simp: bit_and_iff bit_not_iff bit_mask_iff bit_push_bit_iff bit_drop_bit_eq)
  then show ?thesis by (simp add: mask_eq_exp_minus_1 push_bit_eq_mult drop_bit_eq_div mult.commute)
qed

text \<open>The hashes collected since the last mark point, after \<^term>\<open>xs\<close> has been added.\<close>
definition segment :: "nat \<Rightarrow> bytes list \<Rightarrow> hash list" where
  "segment p xs = map Some (drop (2 ^ p * ((length xs - 1) div 2 ^ p)) xs)"

definition first_index :: "bytes \<Rightarrow> bytes list \<Rightarrow> int option" where
  "first_index k xs = (let i = length (takeWhile (\<lambda>x. MapKeyBytes x \<noteq> k) xs)
     in if i < length xs then Some (int i) else None)"

definition state_of :: "nat \<Rightarrow> bytes list \<Rightarrow> MerkleState \<Rightarrow> bool" where
  "state_of p xs s \<longleftrightarrow> holds xs s \<and> HashList s = segment p xs"

definition marked :: "nat \<Rightarrow> nat \<Rightarrow> int \<Rightarrow> bool" where
  "marked p n i \<longleftrightarrow> 0 \<le> i \<and> i < int n \<and> (i + 1) mod 2 ^ p = 0"

definition chain_holds :: "nat \<Rightarrow> bytes list \<Rightarrow> Chain \<Rightarrow> bool" where
  "chain_holds p xs m \<longleftrightarrow>
     markFreq m = 2 ^ p \<and> markMask m = 2 ^ p - 1 \<and>
     state_of p xs (Head m) \<and>
     (\<forall>i. case States m i of
        None \<Rightarrow> \<not> marked p (length xs) i
      | Some s \<Rightarrow> marked p (length xs) i \<and> state_of p (take (nat (i + 1)) xs) s) \<and>
     (\<forall>i. Element m i = (if 0 \<le> i \<and> i < int (length xs) then Some (Some (xs ! nat i)) else None)) \<and>
     (\<forall>k. ElementIndex m k = first_index k xs)"

lemma chain_holds_new: "chain_holds p [] (NewChain p)"
  by (simp add: chain_holds_def NewChain_def state_of_def segment_def marked_def first_index_def)
    (simp add: new_MerkleState_def)

lemma segment_snoc:
  assumes "1 \<le> p"
  shows "segment p (xs @ [x]) =
    (if (int (length xs) + 1) mod 2 ^ p = 1 then [] else segment p xs) @ [Some x]"
proof -
  let ?n = "length xs" and ?F = "2 ^ p :: nat"
  have F: "2 \<le> ?F" using assms by (metis numeral_le_iff power_increasing one_le_numeral power_one_right)
  have "(int ?n + 1) mod 2 ^ p = int ((?n + 1) mod ?F)" by (simp add: zmod_int add.commute)
  then have i: "(int ?n + 1) mod 2 ^ p = 1 \<longleftrightarrow> (?n + 1) mod ?F = 1" by simp
  show ?thesis
  proof (cases "?n mod ?F = 0")
    case True
    then have "(?n + 1) mod ?F = 1" using F by (simp add: mod_Suc)
    moreover have "?F * (?n div ?F) = ?n" using True by auto
    ultimately show ?thesis by (simp add: segment_def i)
  next
    case False
    then have "(?n + 1) mod ?F \<noteq> 1" using F by (auto simp: mod_Suc split: if_splits)
    moreover have "?n div ?F = (?n - 1) div ?F"
      using False by (cases ?n) (auto simp: div_Suc mod_Suc split: if_splits)
    moreover have "?F * ((?n - 1) div ?F) \<le> ?n"
      by (meson diff_le_self le_trans times_div_less_eq_dividend)
    ultimately show ?thesis by (simp add: segment_def i)
  qed
qed

lemma first_index_snoc:
  "first_index k (xs @ [x]) = (case first_index k xs of Some i \<Rightarrow> Some i
     | None \<Rightarrow> if MapKeyBytes x = k then Some (int (length xs)) else None)"
  by (induction xs) (auto simp: first_index_def Let_def split: if_splits)

lemma first_index_None:
  assumes "\<forall>y \<in> set xs. length y = 32" "length x = 32"
  shows "first_index (MapKeyBytes x) xs = None \<longleftrightarrow> x \<notin> set xs"
proof -
  have "takeWhile (\<lambda>y. MapKeyBytes y \<noteq> MapKeyBytes x) xs = takeWhile (\<lambda>y. y \<noteq> x) xs"
    using assms by (intro takeWhile_cong) (auto simp: MapKeyBytes_def)
  moreover have "length (takeWhile (\<lambda>y. y \<noteq> x) xs) < length xs \<longleftrightarrow> x \<in> set xs"
    by (induction xs) auto
  ultimately show ?thesis by (simp add: first_index_def)
qed

lemma first_index_Some:
  assumes "\<forall>y \<in> set xs. length y = 32" "i < length xs" "xs ! i = x" "\<forall>j < i. xs ! j \<noteq> x"
  shows "first_index (MapKeyBytes x) xs = Some (int i)"
proof -
  have "takeWhile (\<lambda>y. MapKeyBytes y \<noteq> MapKeyBytes x) xs = takeWhile (\<lambda>y. y \<noteq> x) xs"
    using assms by (intro takeWhile_cong) (auto simp: MapKeyBytes_def)
  also have "\<dots> = take i xs"
    using assms by (intro takeWhile_eq_take_P_nth) auto
  finally show ?thesis using assms(2) by (simp add: first_index_def)
qed

lemma first_index_nth:
  "distinct xs \<Longrightarrow> \<forall>y \<in> set xs. length y = 32 \<Longrightarrow> i < length xs \<Longrightarrow>
    first_index (MapKeyBytes (xs ! i)) xs = Some (int i)"
  by (rule first_index_Some) (auto simp: nth_eq_iff_index_eq)

lemma holds_HashList [simp]: "holds xs (m \<lparr> HashList := l \<rparr>) = holds xs m"
  by (simp add: holds_def)

lemma state_of_snoc:
  assumes "1 \<le> p" "state_of p xs s"
  shows "state_of p (xs @ [x]) (AddToMerkleTree (Some x)
    (if (int (length xs) + 1) mod 2 ^ p = 1 then s \<lparr> HashList := [] \<rparr> else s))"
  using assms by (auto simp: state_of_def segment_snoc intro!: holds_Add)

text \<open>
  Appending to the chain appends to the list, and a duplicate is not appended when it must be
  unique.
\<close>
lemma chain_holds_AddHash [keeps]:
  assumes p: "1 \<le> p" and m: "chain_holds p xs m"
  shows "chain_holds p (if unique \<and> first_index (MapKeyBytes x) xs \<noteq> None then xs else xs @ [x])
    (AddHash (Some x) unique m)"
proof (cases "unique \<and> first_index (MapKeyBytes x) xs \<noteq> None")
  case True
  then show ?thesis using m by (auto simp: AddHash_def Let_def chain_holds_def)
next
  case False
  let ?n = "length xs" and ?c = "(int (length xs) + 1) mod 2 ^ p" and ?m = "AddHash (Some x) unique m"
  have mk: "markFreq m = 2 ^ p" "markMask m = 2 ^ p - 1" and hd: "state_of p xs (Head m)"
    and st: "\<And>i. case States m i of None \<Rightarrow> \<not> marked p ?n i
      | Some s \<Rightarrow> marked p ?n i \<and> state_of p (take (nat (i + 1)) xs) s"
    and el: "\<And>i. Element m i = (if 0 \<le> i \<and> i < int ?n then Some (Some (xs ! nat i)) else None)"
    and ix: "\<And>k. ElementIndex m k = first_index k xs"
    using m by (simp_all add: chain_holds_def)
  have n: "Count (Head m) = int ?n" using hd by (simp add: state_of_def holds_def)
  let ?h = "AddToMerkleTree (Some x) (if ?c = 1 then (Head m) \<lparr> HashList := [] \<rparr> else Head m)"
  have h: "state_of p (xs @ [x]) ?h" using state_of_snoc [OF p hd] .
  have a: "Head ?m = ?h" "markFreq ?m = 2 ^ p" "markMask ?m = 2 ^ p - 1"
    "Element ?m = (Element m)(int ?n \<mapsto> Some x)"
    "ElementIndex ?m = (\<lambda>k. first_index k (xs @ [x]))"
    "States ?m = (if ?c = 0 then (States m)(int ?n \<mapsto> ?h) else States m)"
    using False n mk
    by (auto simp: AddHash_def Let_def and_mask ix first_index_snoc fun_eq_iff split: option.splits)
  have "case States ?m i of None \<Rightarrow> \<not> marked p (length (xs @ [x])) i
      | Some s \<Rightarrow> marked p (length (xs @ [x])) i \<and> state_of p (take (nat (i + 1)) (xs @ [x])) s" for i
  proof (cases "i = int ?n")
    case True
    then have "States m i = None" using st [of i] by (auto simp: marked_def split: option.splits)
    then show ?thesis using True h by (auto simp: a marked_def nat_add_distrib add.commute)
  next
    case False
    then have "marked p (length (xs @ [x])) i = marked p ?n i" by (auto simp: marked_def)
    then show ?thesis using False st [of i] by (auto simp: a marked_def split: option.splits)
  qed
  moreover have "Element ?m i = (if 0 \<le> i \<and> i < int (length (xs @ [x]))
      then Some (Some ((xs @ [x]) ! nat i)) else None)" for i
    by (auto simp: a el nth_append)
  ultimately have "chain_holds p (xs @ [x]) ?m"
    using h by (simp add: chain_holds_def a)
  then show ?thesis using False by auto
qed

section \<open>Reading states\<close>

lemma GetState_holds:
  assumes "chain_holds p xs m" "xs \<noteq> []"
  shows "case GetState m i of None \<Rightarrow> \<not> marked p (length xs) i
    | Some s \<Rightarrow> marked p (length xs) i \<and> state_of p (take (nat (i + 1)) xs) s"
  using assms by (simp add: GetState_def chain_holds_def state_of_def holds_def)

lemma add_until_take:
  assumes "holds ys s" "length ys \<le> n" "n \<le> length ys + length vs"
  shows "add_until (int n - 1) (map Some vs) s = add_all (take (n - length ys) vs) s"
  using assms
proof (induction vs arbitrary: s ys)
  case (Cons v vs)
  have c: "Count s = int (length ys)" using Cons.prems(1) by (simp add: holds_def)
  show ?case
  proof (cases "length ys = n")
    case False
    have "holds (ys @ [v]) (AddToMerkleTree (Some v) s)" by (rule holds_Add [OF Cons.prems(1)])
    from Cons.IH [OF this] Cons.prems False show ?thesis
      by (simp add: c take_Cons')
  qed (simp add: c)
qed simp

lemma mark_start: "int e AND NOT (2 ^ p - 1) = int (2 ^ p * (e div 2 ^ p))"
  by (simp add: and_not_mask zdiv_int)

lemma mark_bounds:
  fixes e p :: nat
  defines "b \<equiv> 2 ^ p * (e div 2 ^ p)"
  shows "b \<le> e" "e < b + 2 ^ p" "2 ^ p dvd b"
  using dividend_less_times_div [of "2 ^ p" e] by (simp_all add: b_def add.commute)

lemma div_in_mark:
  assumes "2 ^ p dvd (b :: nat)" "b \<le> e" "e < b + 2 ^ p"
  shows "2 ^ p * (e div 2 ^ p) = b"
proof -
  obtain k where "b = 2 ^ p * k" using assms(1) by blast
  moreover from this have "e div 2 ^ p = k" using assms by (intro div_nat_eqI) (auto simp: algebra_simps)
  ultimately show ?thesis by simp
qed

lemma state_before:
  assumes m: "chain_holds p xs m" "xs \<noteq> []" and b: "2 ^ p dvd b" "b \<le> length xs"
  shows "\<exists>s. (if int b - 1 < 0 then Some new_MerkleState else GetState m (int b - 1)) = Some s
    \<and> holds (take b xs) s"
proof (cases "b = 0")
  case False
  have "(2 :: int) ^ p dvd int b" using b(1) by (metis of_nat_dvd_iff of_nat_numeral of_nat_power)
  then have "marked p (length xs) (int b - 1)" using False b(2) by (auto simp: marked_def)
  then show ?thesis
    using False GetState_holds [OF m, of "int b - 1"] by (auto simp: state_of_def split: option.splits)
qed simp

lemma hashes_after:
  assumes m: "chain_holds p xs m" and b: "2 ^ p dvd b" "b \<le> e" "e < b + 2 ^ p" and e: "e < length xs"
  shows "\<exists>N v. (if int b - 1 + 2 ^ p \<ge> int (length xs) then Some (Head m) else GetState m (int b - 1 + 2 ^ p)) = Some N
    \<and> HashList N = map Some (drop b (take v xs)) \<and> e < v \<and> v \<le> length xs"
proof (cases "length xs < b + 2 ^ p")
  case True
  then have "int (length xs) < int (b + 2 ^ p)" by (simp only: of_nat_less_iff)
  then have "int (length xs) \<le> int b - 1 + 2 ^ p" by simp
  moreover have "2 ^ p * ((length xs - 1) div 2 ^ p) = b" using True b e by (intro div_in_mark) auto
  ultimately show ?thesis
    using m e by (intro exI [of _ "Head m"] exI [of _ "length xs"])
      (simp add: chain_holds_def state_of_def segment_def)
next
  case False
  let ?i = "int b - 1 + 2 ^ p"
  have i: "?i + 1 = int (b + 2 ^ p)" by simp
  have l: "\<not> int (length xs) \<le> ?i" using False i by linarith
  have "2 ^ p dvd b + 2 ^ p" using b(1) by simp
  then have "(2 :: int) ^ p dvd ?i + 1" unfolding i by (metis of_nat_dvd_iff of_nat_numeral of_nat_power)
  moreover have "(1 :: int) \<le> 2 ^ p" by simp
  then have "0 \<le> ?i" by linarith
  ultimately have "marked p (length xs) ?i" using l unfolding marked_def by auto
  moreover have "xs \<noteq> []" using e by auto
  ultimately obtain N where N: "GetState m ?i = Some N" "state_of p (take (nat (?i + 1)) xs) N"
    using GetState_holds [OF m, of ?i] by (auto split: option.splits)
  have "2 ^ p * ((b + 2 ^ p - 1) div 2 ^ p) = b" using b by (intro div_in_mark) auto
  then have "HashList N = map Some (drop b (take (b + 2 ^ p) xs))"
    using N(2) False unfolding i nat_int by (simp add: state_of_def segment_def min_def)
  then show ?thesis using False l N(1) b by (intro exI [of _ N] exI [of _ "b + 2 ^ p"]) simp
qed

text \<open>The state after any element, recomputed from the mark points.\<close>
lemma GetAnyState_holds:
  assumes m: "chain_holds p xs m" and e: "e < length xs"
  shows "\<exists>s. GetAnyState m (int e) = Ok s \<and> state_of p (take (Suc e) xs) s"
proof (cases "GetState m (int e)")
  case (Some s)
  then show ?thesis
    using GetState_holds [OF m, of "int e"] e by (cases "xs = []") (auto simp: GetAnyState_def nat_add_distrib)
next
  case None
  have xs: "xs \<noteq> []" using e by auto
  have mk: "markFreq m = 2 ^ p" "markMask m = 2 ^ p - 1" and n: "Count (Head m) = int (length xs)"
    using m by (simp_all add: chain_holds_def state_of_def holds_def)
  have nm: "\<not> marked p (length xs) (int e)" using GetState_holds [OF m xs, of "int e"] None by simp
  define b where "b = 2 ^ p * (e div 2 ^ p)"
  note be = mark_bounds [where p = p and e = e, folded b_def]
  obtain s where s: "(if int b - 1 < 0 then Some new_MerkleState else GetState m (int b - 1)) = Some s"
    and hs: "holds (take b xs) s" using state_before [OF m xs be(3)] be(1) e by auto
  obtain N v where N: "(if int b - 1 + 2 ^ p \<ge> int (length xs) then Some (Head m) else GetState m (int b - 1 + 2 ^ p)) = Some N"
    and hl: "HashList N = map Some (drop b (take v xs))" and v: "e < v" "v \<le> length xs"
    using hashes_after [OF m be(3,1,2) e] by blast
  let ?s = "s \<lparr> HashList := [] \<rparr>"
  let ?r = "add_until (int e) (HashList N) ?s"
  have "?r = add_all (take (Suc e - b) (drop b (take v xs))) ?s"
    using add_until_take [of "take b xs" ?s "Suc e" "drop b (take v xs)"] hs be v by (simp add: hl)
  also have "take (Suc e - b) (drop b (take v xs)) = drop b (take (Suc e) xs)"
    using be v by (simp add: take_drop)
  finally have r: "?r = add_all (drop b (take (Suc e) xs)) ?s" .
  have "holds (take b xs @ drop b (take (Suc e) xs)) ?r"
    unfolding r using hs by (intro holds_add_all) simp
  moreover have "take b xs @ drop b (take (Suc e) xs) = take (Suc e) xs"
    using be append_take_drop_id [of b "take (Suc e) xs"] by (simp add: min_def)
  ultimately have hr: "holds (take (Suc e) xs) ?r" by simp
  have seg: "HashList ?r = segment p (take (Suc e) xs)"
    using e by (simp add: r segment_def b_def)
  have "Count ?r = int e + 1" using hr e by (simp add: holds_def)
  then have "Count ?r mod 2 ^ p \<noteq> 0" using nm e by (simp add: marked_def)
  then have "GetAnyState m (int e) = Ok ?r"
    using None e s N unfolding GetAnyState_def Let_def mk mark_start n b_def [symmetric]
    by (simp add: and_mask)
  then show ?thesis using hr seg by (auto simp: state_of_def)
qed

lemma odd_mod_ones: "odd n \<Longrightarrow> 0 < M \<Longrightarrow> n mod (2 * M) = 2 * M - 1 \<longleftrightarrow> n div 2 mod M = M - (1 :: nat)"
proof -
  assume "odd n" "0 < M"
  have "n mod (2 * M) = 2 * (n div 2 mod M) + 1"
    using \<open>odd n\<close> by (simp add: mod_mult2_eq odd_iff_mod_2_eq_one)
  with \<open>0 < M\<close> show ?thesis by linarith
qed

text \<open>
  The two hashes combined at a height when an element was added. They exist when the low bits
  of the index are all set, and are then the two halves of the subtree the element completes.
\<close>
lemma intermediate_loop_spine:
  assumes "1 \<le> h" "i < h"
  shows "intermediate_loop i (spine node ys @ replicate (Suc r) None) (Some x) (int h) =
    (if length ys mod 2 ^ (h - i) = 2 ^ (h - i) - 1
     then Ok (Some (last (level node (h - 1 - i) ys)), Some (last (level node (h - 1 - i) (ys @ [x]))))
     else Err (Plain ''should not encounter a nil at height %d''))"
  using assms
proof (induction ys arbitrary: i x rule: length_induct_half)
  case Nil
  then have "2 \<le> (2 :: nat) ^ (h - i)" using power_increasing [of 1 "h - i" "2 :: nat"] by simp
  then show ?case by simp
next
  case (step ys)
  obtain k where k: "h - i = Suc k" "k = h - 1 - i" using step(4) by (cases "h - i") auto
  show ?case
  proof (cases "even (length ys)")
    case True
    have "odd ((2 :: nat) ^ Suc k - 1)" by simp
    moreover have "even (length ys mod 2 ^ Suc k)" using True by (simp add: even_iff_mod_2_eq_zero mod_mod_cancel)
    ultimately have "length ys mod 2 ^ Suc k \<noteq> 2 ^ Suc k - 1" by metis
    with True k show ?thesis by (simp add: spine_step [OF step(1)])
  next
    case False
    obtain zs l where ys: "ys = zs @ [l]" using step(1) by (metis append_butlast_last_id)
    with False have e: "even (length zs)" by simp
    have p: "pairs node (ys @ [x]) = pairs node ys @ [node l x]" using e by (simp add: ys pairs_append)
    show ?thesis
    proof (cases k)
      case 0
      then have "int i + 1 = int h" using k(1) by linarith
      with 0 show ?thesis using False k by (simp add: spine_step [OF step(1)] mod_2_eq_odd)
    next
      case (Suc k')
      then have i: "int i + 1 \<noteq> int h" "Suc i < h" "h - Suc i = Suc k'" "h - 1 - Suc i = k'" using k by auto
      have "length ys mod 2 ^ Suc (Suc k') = 2 ^ Suc (Suc k') - 1 \<longleftrightarrow> length ys div 2 mod 2 ^ Suc k' = 2 ^ Suc k' - 1"
        using False odd_mod_ones [of "length ys" "2 ^ Suc k'"] by simp
      moreover have "last ys = l" by (simp add: ys)
      then have "intermediate_loop i (spine node ys @ replicate (Suc r) None) (Some x) (int h)
        = intermediate_loop (Suc i) (spine node (pairs node ys) @ replicate (Suc r) None) (Some (node l x)) (int h)"
        using False i(1) by (simp add: spine_step [OF step(1)])
      ultimately show ?thesis
        using step(2) [of "pairs node ys" "Suc i" "node l x"] step(3) i(2-4) k Suc
        by (simp add: p level_Suc' del: level.simps(2) replicate.simps)
    qed
  qed
qed

text \<open>The leaves are below the level, so the subtree \<^term>\<open>j\<close> of a prefix is that of the whole list.\<close>
lemma ones_div:
  assumes "1 \<le> h" "e mod 2 ^ h = 2 ^ h - (1 :: nat)"
  shows "e div 2 ^ (h - 1) = 2 * (e div 2 ^ h) + 1" "Suc e div 2 ^ (h - 1) = 2 * (e div 2 ^ h) + 2"
proof -
  obtain k where h: "h = Suc k" using assms(1) by (cases h) auto
  let ?q = "e div 2 ^ h"
  have "Suc e = 2 ^ k * (2 * ?q + 2)"
  proof -
    have "e = 2 ^ h * ?q + (2 ^ h - 1)" using assms(2) by (metis mult_div_mod_eq)
    moreover have "1 \<le> (2 :: nat) ^ h" by simp
    ultimately have "Suc e = 2 ^ h * ?q + 2 ^ h" by linarith
    then show ?thesis by (simp add: h algebra_simps)
  qed
  then show "Suc e div 2 ^ (h - 1) = 2 * ?q + 2" by (simp add: h)
  have "2 ^ k * (2 * ?q + 2) = 2 ^ k * (2 * ?q + 1) + 2 ^ k" "1 \<le> (2 :: nat) ^ k"
    "2 ^ k * Suc (2 * ?q + 1) = 2 ^ k * (2 * ?q + 2)"
    by (simp_all add: algebra_simps)
  then have "e div 2 ^ k = 2 * ?q + 1"
    using \<open>Suc e = _\<close> by (intro div_nat_eqI) linarith+
  then show "e div 2 ^ (h - 1) = 2 * ?q + 1" by (simp add: h)
qed

lemma GetAnyState_before:
  assumes "chain_holds p xs m" "e < length xs"
  shows "\<exists>s. GetAnyState m (int e - 1) = Ok s \<and> holds (take e xs) s"
proof (cases e)
  case 0
  then show ?thesis by (simp add: GetAnyState_def)
next
  case (Suc e')
  then show ?thesis
    using GetAnyState_holds [OF assms(1), of e'] assms(2) by (auto simp: state_of_def)
qed

lemma ones_odd: "1 \<le> h \<Longrightarrow> e mod 2 ^ h = 2 ^ h - (1 :: nat) \<Longrightarrow> odd e"
proof -
  assume h: "1 \<le> h" and m: "e mod 2 ^ h = 2 ^ h - (1 :: nat)"
  from h have "even ((2 :: nat) ^ h)" by simp
  then have "even e \<longleftrightarrow> even (e mod 2 ^ h)" by (metis dvd_mod_iff)
  moreover have "odd ((2 :: nat) ^ h - 1)" using h by simp
  ultimately show ?thesis using m by simp
qed

text \<open>The same in terms of the whole list, for the state before element \<^term>\<open>e\<close>.\<close>
lemma intermediate_spine_nth:
  assumes e: "e < length xs" and h: "1 \<le> h"
  shows "intermediate_loop 0 (spine node (take e xs) @ replicate (Suc r) None) (Some (xs ! e)) (int h) =
    (if e mod 2 ^ h = 2 ^ h - 1
     then Ok (Some (level node (h - 1) xs ! (2 * (e div 2 ^ h))), Some (level node (h - 1) xs ! (2 * (e div 2 ^ h) + 1)))
     else Err (Plain ''should not encounter a nil at height %d''))"
proof -
  have tk: "take e xs @ [xs ! e] = take (Suc e) xs" using e by (simp add: take_Suc_conv_app_nth)
  have le: "length (take e xs) = e" using e by simp
  have l: "last (level node (h - 1) (take n xs)) = level node (h - 1) xs ! (n div 2 ^ (h - 1) - 1)"
    if "n \<le> length xs" "0 < n div 2 ^ (h - 1)" for n
  proof -
    have "level node (h - 1) (take n xs) \<noteq> []" using that by (metis length_level length_take length_greater_0_conv min.absorb2)
    then show ?thesis using that by (simp add: last_conv_nth level_take_nth)
  qed
  have "intermediate_loop 0 (spine node (take e xs) @ replicate (Suc r) None) (Some (xs ! e)) (int h) =
    (if e mod 2 ^ h = 2 ^ h - 1
     then Ok (Some (last (level node (h - 1) (take e xs))), Some (last (level node (h - 1) (take (Suc e) xs))))
     else Err (Plain ''should not encounter a nil at height %d''))"
    using h by (subst intermediate_loop_spine) (simp_all only: le tk diff_zero)
  then show ?thesis
    using ones_div [OF h, of e] l [of e] l [of "Suc e"] e by simp
qed

lemma Chain_GetIntermediate_holds:
  assumes m: "chain_holds p xs m" and e: "e < length xs" and h: "1 \<le> h"
  shows "Chain_GetIntermediate m (int e) (int h) =
    (if e mod 2 ^ h = 2 ^ h - 1
     then Ok (Some (level node (h - 1) xs ! (2 * (e div 2 ^ h))), Some (level node (h - 1) xs ! (2 * (e div 2 ^ h) + 1)))
     else Err (Plain ''should not encounter a nil at height %d''))"
proof -
  obtain s where s: "GetAnyState m (int e - 1) = Ok s" and hs: "holds (take e xs) s"
    using GetAnyState_before [OF m e] by blast
  obtain r where r: "Pending (PadPending s) = spine node (take e xs) @ replicate (Suc r) None"
    using hs PadPending_holds [of s "take e xs"] by (auto simp: holds_def)
  have el: "Chain_Get m (int e) = Ok (Some (xs ! e))"
    using m e by (simp add: chain_holds_def Chain_Get_def)
  have "Chain_GetIntermediate m (int e) (int h) =
    intermediate_loop 0 (spine node (take e xs) @ replicate (Suc r) None) (Some (xs ! e)) (int h)"
    using s el r by (simp add: Chain_GetIntermediate_def MerkleState_GetIntermediate_def Let_def)
  then show ?thesis using intermediate_spine_nth [OF e h] by simp
qed

section \<open>Reading a range\<close>

lemma segment_from:
  assumes "2 ^ p dvd b" "b < length xs" "length xs < b + 2 ^ p"
  shows "segment p xs = map Some (drop b xs)"
proof -
  have "2 ^ p * ((length xs - 1) div 2 ^ p) = b" using assms by (intro div_in_mark) auto
  then show ?thesis by (simp add: segment_def)
qed

lemma segment_full:
  assumes "2 ^ p dvd length xs" "xs \<noteq> []"
  shows "length (segment p xs) = 2 ^ p"
proof -
  have l: "2 ^ p \<le> length xs" using assms by (simp add: dvd_imp_le)
  have "2 ^ p * ((length xs - 1) div 2 ^ p) = length xs - 2 ^ p"
    using assms l by (intro div_in_mark) (auto simp: dvd_diff_nat intro: diff_le_mono2)
  then show ?thesis using l by (simp add: segment_def)
qed

lemma range_loop_holds:
  assumes m: "chain_holds p xs m" "xs \<noteq> []"
  shows "2 ^ p dvd b \<Longrightarrow> b \<le> length xs \<Longrightarrow>
    \<exists>extra. range_loop m k (int b) hl = Ok (hl @ map Some (drop b (take (b + k * 2 ^ p) xs)) @ extra)"
proof (induction k arbitrary: b hl)
  case (Suc k)
  let ?n = "length xs" and ?i = "int b + 2 ^ p - 1"
  have mk: "markFreq m = 2 ^ p" and hd: "HashList (Head m) = segment p xs" "Count (Head m) = int ?n"
    using m by (simp_all add: chain_holds_def state_of_def holds_def)
  have d: "2 ^ p dvd b + 2 ^ p" using Suc.prems(1) by simp
  have i: "?i + 1 = int (b + 2 ^ p)" by simp
  have "(2 :: int) ^ p dvd ?i + 1" unfolding i using d by (metis of_nat_dvd_iff of_nat_numeral of_nat_power)
  moreover have "(1 :: int) \<le> 2 ^ p" by simp
  then have "0 \<le> ?i" by linarith
  moreover have "?i < int ?n \<longleftrightarrow> b + 2 ^ p \<le> ?n"
    using i of_nat_le_iff [of "b + 2 ^ p" ?n, where ?'a = int] by linarith
  ultimately have mkd: "marked p ?n ?i \<longleftrightarrow> b + 2 ^ p \<le> ?n" unfolding marked_def by auto
  show ?case
  proof (cases "b + 2 ^ p \<le> ?n")
    case True
    then obtain s where s: "GetState m ?i = Some s" "state_of p (take (nat (?i + 1)) xs) s"
      using GetState_holds [OF m, of ?i] mkd by (auto split: option.splits)
    have "HashList s = map Some (drop b (take (b + 2 ^ p) xs))"
    proof -
      have "b \<le> b + 2 ^ p - 1 \<and> b + 2 ^ p - 1 < b + 2 ^ p" using one_le_power [of "2 :: nat" p] by linarith
      then have "2 ^ p * ((b + 2 ^ p - 1) div 2 ^ p) = b" using Suc.prems by (intro div_in_mark) auto
      then show ?thesis using s(2) True unfolding i nat_int by (simp add: state_of_def segment_def min_def)
    qed
    moreover obtain extra where "range_loop m k (int (b + 2 ^ p)) (hl @ HashList s) =
      Ok ((hl @ HashList s) @ map Some (drop (b + 2 ^ p) (take (b + 2 ^ p + k * 2 ^ p) xs)) @ extra)"
      using Suc.IH [OF d True] by blast
    moreover have "drop b (take (b + 2 ^ p + k * 2 ^ p) xs)
      = drop b (take (b + 2 ^ p) xs) @ drop (b + 2 ^ p) (take (b + 2 ^ p + k * 2 ^ p) xs)"
      by (rule drop_take_split) simp_all
    ultimately show ?thesis using s(1) True by (simp add: mk Let_def algebra_simps)
  next
    case False
    then have g: "GetState m ?i = None"
      using GetState_holds [OF m, of ?i] mkd by (auto split: option.splits)
    let ?c = "int ?n - int b"
    let ?c' = "if ?c mod 2 ^ p = 0 then ?c XOR 2 ^ p else ?c"
    have "int (length (segment p xs)) = ?c' \<and> (\<exists>extra. segment p xs = map Some (drop b xs) @ extra)"
    proof (cases "b < ?n")
      case True
      have "int ?n < int (b + 2 ^ p)" using False by (simp only: of_nat_less_iff not_le)
      then have "?c < 2 ^ p" by simp
      then have "?c mod 2 ^ p = ?c" using True by (intro mod_pos_pos_trivial) auto
      then show ?thesis using True False segment_from [OF Suc.prems(1) True] by (auto simp: of_nat_diff)
    next
      case False
      then have "b = ?n" using Suc.prems(2) by simp
      then show ?thesis using segment_full [of p xs] Suc.prems(1) m(2) by simp
    qed
    then show ?thesis using False g
      by (auto simp: mk hd Let_def simp del: of_nat_power)
  qed
qed simp

lemma GetRange_holds:
  assumes m: "chain_holds p xs m" and r: "i < length xs" "i \<le> j"
  shows "GetRange m (int i) (int j) = Ok (map Some (drop i (take j xs)))"
proof -
  let ?n = "length xs"
  define e where "e = min j ?n"
  have e: "i \<le> e" "e \<le> ?n" "(if int j > int ?n then int ?n else int j) = int e" "take e xs = take j xs"
    using r by (auto simp: e_def min_def)
  have mk: "markFreq m = 2 ^ p" "markMask m = 2 ^ p - 1" "Count (Head m) = int ?n" and xs: "xs \<noteq> []"
    using m r by (auto simp: chain_holds_def state_of_def holds_def)
  show ?thesis
  proof (cases "e = i")
    case True
    have "drop i (take j xs) = []" using True e(4) [symmetric] by simp
    with True show ?thesis using e(3) r unfolding GetRange_def Let_def mk by simp
  next
    case False
    define b where "b = 2 ^ p * (i div 2 ^ p)"
    note b = mark_bounds [where p = p and e = i, folded b_def]
    define k where "k = (e - b) div 2 ^ p + 1"
    have "(int e - int b) div 2 ^ p + 1 = int k" using e b by (simp add: k_def zdiv_int of_nat_diff)
    then have k: "nat ((int e - int b) div 2 ^ p + 1) = k" by simp
    have "e - b < k * 2 ^ p" using dividend_less_times_div [of "2 ^ p" "e - b"] by (simp add: k_def algebra_simps)
    then have ek: "e \<le> b + k * 2 ^ p" by linarith
    obtain extra where l: "range_loop m k (int b) [] = Ok (map Some (drop b (take (b + k * 2 ^ p) xs)) @ extra)"
      using range_loop_holds [OF m xs b(3), of k "[]"] b(1) r by auto
    let ?hl = "map Some (drop b (take (b + k * 2 ^ p) xs)) @ extra"
    have i: "int i mod 2 ^ p = int (i - b)"
      by (simp add: b_def minus_mult_div_eq_mod zmod_int)
    have "?hl = map Some (drop b (take e xs)) @ map Some (drop e (take (b + k * 2 ^ p) xs)) @ extra"
      using drop_take_split [of b e "b + k * 2 ^ p" xs] b e ek by simp
    moreover have "length (map Some (drop b (take e xs))) = e - b" using e(2) by simp
    ultimately have "slice_to (e - b) ?hl = Ok (map Some (drop b (take e xs)))"
      by (metis slice_to_append)
    moreover have "slice_from (i - b) (map Some (drop b (take e xs))) = Ok (map Some (drop i (take e xs)))"
      using b e(1,2) by (simp add: slice_from_def drop_map)
    moreover have "nat (int (i - b) + int e - int i) = e - b" using b e by simp
    ultimately show ?thesis
      using False e r l k unfolding GetRange_def Let_def mk mark_start b_def [symmetric] and_mask i
      by (simp del: of_nat_diff)
  qed
qed

section \<open>Properties\<close>

text \<open>The chain to which a list of hashes has been added.\<close>
definition chain_of :: "nat \<Rightarrow> bytes list \<Rightarrow> Chain" where
  "chain_of p xs = fold (\<lambda>x. AddHash (Some x) False) xs (NewChain p)"

lemma chain_of_snoc: "chain_of p (xs @ [x]) = AddHash (Some x) False (chain_of p xs)"
  by (simp add: chain_of_def)

lemma chain_holds_chain_of: "1 \<le> p \<Longrightarrow> chain_holds p xs (chain_of p xs)"
proof (induction xs rule: rev_induct)
  case Nil
  show ?case by (simp add: chain_of_def chain_holds_new)
next
  case (snoc x xs)
  then show ?case using chain_holds_AddHash [of p xs "chain_of p xs" False x] by (simp add: chain_of_snoc)
qed

text \<open>
  Adding a hash that must be unique changes nothing when it is in the chain, and otherwise
  does what adding it unconditionally does.
\<close>
theorem AddHash_unique:
  assumes "1 \<le> p" "\<forall>x \<in> set xs. length x = 32" "length x = 32"
  shows "AddHash (Some x) True (chain_of p xs) = (if x \<in> set xs then chain_of p xs else chain_of p (xs @ [x]))"
proof -
  have "ElementIndex (chain_of p xs) (MapKeyBytes x) = first_index (MapKeyBytes x) xs"
    using chain_holds_chain_of [OF assms(1), of xs] by (simp add: chain_holds_def)
  moreover have "first_index (MapKeyBytes x) xs = None \<longleftrightarrow> x \<notin> set xs"
    using first_index_None [of xs x] assms by simp
  ultimately show ?thesis
    using assms(3) by (auto simp: AddHash_def Let_def chain_of_snoc)
qed

theorem AddHash_unique_witness:
  "AddHash (Some (replicate 32 1)) True (chain_of 1 [replicate 32 1]) = chain_of 1 [replicate 32 1]"
  using AddHash_unique [of 1 "[replicate 32 1]" "replicate 32 1"] by simp

text \<open>
  C8. The state at any element of a chain, which is stored only at the mark points, is recomputed:
  it is the state reached by adding the elements up to that one.
\<close>
theorem GetAnyState_prefix:
  assumes "1 \<le> p" "e < length xs"
  shows "\<exists>s. GetAnyState (chain_of p xs) (int e) = Ok s \<and> Count s = int e + 1 \<and>
    trim_pending (Pending s) = trim_pending (Pending (add_all (take (Suc e) xs) new_MerkleState)) \<and>
    GetMDRoot s = Some (mth node (take (Suc e) xs))"
proof -
  obtain s where s: "GetAnyState (chain_of p xs) (int e) = Ok s" "holds (take (Suc e) xs) s"
    using GetAnyState_holds [OF chain_holds_chain_of [OF assms(1)] assms(2)] by (auto simp: state_of_def)
  have h: "holds (take (Suc e) xs) (add_all (take (Suc e) xs) new_MerkleState)"
    using holds_add_all [OF holds_new, of "take (Suc e) xs"] by simp
  have "trim_pending (Pending s) = trim_pending (Pending (add_all (take (Suc e) xs) new_MerkleState))"
    using s(2) h by (auto simp: holds_def trim_pending_spine)
  then show ?thesis
    using s assms(2) GetMDRoot_holds [OF s(2)] by (auto simp: holds_def)
qed

theorem GetAnyState_prefix_witness:
  "\<exists>s. GetAnyState (chain_of 1 [[1], [2], [3], [4]]) 2 = Ok s \<and> GetMDRoot s = Some (mth node [[1], [2], [3]])"
  using GetAnyState_prefix [of 1 2 "[[1], [2], [3], [4]]"] by (auto simp: numeral_3_eq_3)

text \<open>
  C15. Reading a range of a chain returns exactly the hashes of that range, cut at the end of the
  chain, whatever mark points it crosses.
\<close>
theorem GetRange_slice:
  assumes "1 \<le> p" "i < length xs" "i \<le> j"
  shows "GetRange (chain_of p xs) (int i) (int j) = Ok (map Some (drop i (take j xs)))"
  by (rule GetRange_holds [OF chain_holds_chain_of [OF assms(1)] assms(2,3)])

theorem GetRange_slice_witness:
  "GetRange (chain_of 1 [[1], [2], [3], [4], [5]]) 1 4 = Ok [Some [2], Some [3], Some [4]]"
  using GetRange_slice [of 1 1 "[[1], [2], [3], [4], [5]]" 4] by simp

text \<open>
  On an empty chain the state of any element is reported to exist, with one element: the check
  of the lookup in \<^const>\<open>GetState\<close> is inverted, so a nil hash is added exactly when the element
  is not found, and no out of range error is raised.
\<close>
theorem GetState_empty_chain:
  "map_option Count (GetState (NewChain p) e) = Some 1 \<and>
   map_option HashList (GetState (NewChain p) e) = Some [None] \<and>
   (e \<noteq> -1 \<longrightarrow> map_ok Count (GetAnyState (NewChain p) e) = Ok 1)"
  by (simp add: GetState_def GetAnyState_def NewChain_def Chain_Get_def) (simp add: new_MerkleState_def)

theorem GetState_empty_chain_witness: "map_ok Count (GetAnyState (NewChain 8) 5) = Ok 1"
  using GetState_empty_chain [of 8 5] by simp

end
