(* ===== verification/Receipt.thy ===== *)
theory Receipt
  imports Merkle_Manager
begin

unbundle bit_operations_syntax

text \<open>
  \<^verbatim>\<open>src/smt/managed/receipt.go\<close>: Merkle receipts, their evaluation, combination and construction.
  The source of the intermediate hashes, a parameter of the code, is the locale
  \<open>intermediates\<close>; in it a built receipt is shown to be valid with the root of the tree at the
  end index as its anchor. The chain is one provider of that interface; the hasher of
  \<^verbatim>\<open>src/internal/encoding/hash\<close> is the other.
\<close>

section \<open>Receipts\<close>

record ReceiptEntry =
  Right :: bool
  Hash :: hash

record Receipt =
  Start :: hash
  StartIndex :: int
  End :: hash
  EndIndex :: int
  Anchor :: hash
  Entries :: "ReceiptEntry list"

definition new_Receipt :: Receipt where
  "new_Receipt = \<lparr> Start = None, StartIndex = 0, End = None, EndIndex = 0, Anchor = None, Entries = [] \<rparr>"

definition Apply :: "ReceiptEntry \<Rightarrow> hash \<Rightarrow> hash" where
  "Apply n h = (if Right n then Combine Sha256 h (Hash n) else Combine Sha256 (Hash n) h)"

definition Validate :: "Receipt \<Rightarrow> bool" where
  "Validate r = (let MDRoot = fold Apply (Entries r) (Start r) in hash_Equal MDRoot (Anchor r))"

text \<open>The first loop of \<^verbatim>\<open>Contains\<close>: apply entries until the hash is the start of the other receipt.\<close>
fun contains_find :: "ReceiptEntry list \<Rightarrow> hash \<Rightarrow> hash \<Rightarrow> (ReceiptEntry list \<times> hash) option" where
  "contains_find es hashSelf hashOther =
     (if hash_Equal hashSelf hashOther then Some (es, hashSelf)
      else case es of [] \<Rightarrow> None | e # es \<Rightarrow> contains_find es (Apply e hashSelf) hashOther)"

declare contains_find.simps [simp del]

text \<open>The second loop: apply the entries of both in step.\<close>
fun contains_match :: "ReceiptEntry list \<Rightarrow> hash \<Rightarrow> ReceiptEntry list \<Rightarrow> hash \<Rightarrow> bool" where
  "contains_match es hashSelf [] hashOther = True"
| "contains_match [] hashSelf (f # fs) hashOther = False"
| "contains_match (e # es) hashSelf (f # fs) hashOther =
     (let hashSelf = Apply e hashSelf; hashOther = Apply f hashOther
      in if \<not> hash_Equal hashSelf hashOther then False else contains_match es hashSelf fs hashOther)"

definition Contains :: "Receipt \<Rightarrow> Receipt \<Rightarrow> bool" where
  "Contains r other = (case contains_find (Entries r) (Start r) (Start other) of
     None \<Rightarrow> False
   | Some (es, hashSelf) \<Rightarrow> contains_match es hashSelf (Entries other) (Start other))"

definition Receipt_Combine :: "Receipt \<Rightarrow> Receipt \<Rightarrow> Receipt result" where
  "Receipt_Combine r rm = (if \<not> hash_Equal (Anchor r) (Start rm)
     then Err (Plain ''receipts cannot be combined: anchor %x doesn't match root merkle tree %x'')
     else Ok (r \<lparr> Anchor := Anchor rm, Entries := Entries r @ Entries rm \<rparr>))"

fun combine_loop :: "Receipt \<Rightarrow> Receipt list \<Rightarrow> Receipt result" where
  "combine_loop r [] = Ok r"
| "combine_loop r (s # ss) = (case Receipt_Combine r s of
     Ok r \<Rightarrow> combine_loop r ss
   | Err e \<Rightarrow> Err (Plain ''failed to combine receipts: %v'')
   | Panic p \<Rightarrow> Panic p)"

definition CombineReceipts :: "Receipt list \<Rightarrow> Receipt result" where
  "CombineReceipts receipts = (case receipts of
     [] \<Rightarrow> Panic ''index out of range'' | r # rs \<Rightarrow> combine_loop r rs)"

section \<open>Building a receipt\<close>

type_synonym get_intermediate = "int \<Rightarrow> int \<Rightarrow> (hash \<times> hash) result"

text \<open>
  The first loop of \<^verbatim>\<open>BuildReceiptWith\<close>. Its progress depends on the intermediate hashes it is
  given, so it may run forever: then the value is \<^term>\<open>None\<close>.
\<close>
partial_function (option) build_loop ::
  "get_intermediate \<Rightarrow> hash_func \<Rightarrow> int \<Rightarrow> int \<Rightarrow> int \<Rightarrow> hash \<Rightarrow> bool \<Rightarrow> ReceiptEntry list
     \<Rightarrow> (int \<times> hash \<times> ReceiptEntry list) result option" where
  "build_loop getIntermediate hashFunc endIndex idx height anchor stay entries =
     (if idx \<le> endIndex then
        if idx AND 1 = 0 then
          build_loop getIntermediate hashFunc endIndex (idx + 1) height anchor False entries
        else (case getIntermediate idx height of
          Err e \<Rightarrow> build_loop getIntermediate hashFunc endIndex (idx + 2 ^ nat (height - 1)) height anchor False entries
        | Panic p \<Rightarrow> Some (Panic p)
        | Ok lr \<Rightarrow> build_loop getIntermediate hashFunc endIndex idx (height + 1)
            (Combine hashFunc (fst lr) (snd lr)) True
            (entries @ [if stay then \<lparr> Right = False, Hash = fst lr \<rparr> else \<lparr> Right = True, Hash = snd lr \<rparr>]))
      else Some (Ok (height, anchor, entries)))"

text \<open>The second loop, over the pending list of the anchor state.\<close>
fun finish_loop :: "hash_func \<Rightarrow> int \<Rightarrow> nat \<Rightarrow> hash list \<Rightarrow> hash \<Rightarrow> bool \<Rightarrow> ReceiptEntry list
     \<Rightarrow> hash \<times> ReceiptEntry list" where
  "finish_loop hashFunc height i [] intermediateHash stay entries = (intermediateHash, entries)"
| "finish_loop hashFunc height i (v # vs) intermediateHash stay entries =
     (if v = None then finish_loop hashFunc height (i + 1) vs intermediateHash stay entries
      else if intermediateHash = None then
        finish_loop hashFunc height (i + 1) vs v (if height - 1 = int i then True else stay) entries
      else
        let lastIH = intermediateHash;
            intermediateHash = Combine hashFunc v intermediateHash
        in if int i < height - 1 then
             finish_loop hashFunc height (i + 1) vs intermediateHash stay entries
           else if stay then
             finish_loop hashFunc height (i + 1) vs intermediateHash stay
               (if int i \<ge> height then entries @ [\<lparr> Right = False, Hash = v \<rparr>] else entries)
           else finish_loop hashFunc height (i + 1) vs intermediateHash True
               (entries @ [\<lparr> Right = True, Hash = lastIH \<rparr>]))"

definition BuildReceiptWith ::
  "get_intermediate \<Rightarrow> hash_func \<Rightarrow> MerkleState \<Rightarrow> Receipt \<Rightarrow> Receipt result option" where
  "BuildReceiptWith getIntermediate hashFunc anchorState r =
     (case build_loop getIntermediate hashFunc (EndIndex r) (StartIndex r) 1 (Start r) True (Entries r) of
        None \<Rightarrow> None
      | Some (Err e) \<Rightarrow> Some (Err e)
      | Some (Panic p) \<Rightarrow> Some (Panic p)
      | Some (Ok (height, anchor, entries)) \<Rightarrow>
          if EndIndex r = 0 then Some (Ok (r \<lparr> Anchor := Start r, Entries := entries \<rparr>))
          else
            let (intermediateHash, entries) = finish_loop hashFunc height 0 (Pending anchorState) None False entries
            in Some (Ok (r \<lparr> Anchor := intermediateHash, Entries := entries \<rparr>)))"

text \<open>The error of \<^verbatim>\<open>GetAnyState\<close> is dropped: trimming a nil state panics.\<close>
definition BuildReceipt :: "Chain \<Rightarrow> Receipt \<Rightarrow> Receipt result option" where
  "BuildReceipt manager r = (case GetAnyState manager (EndIndex r) of
     Ok state \<Rightarrow> BuildReceiptWith (Chain_GetIntermediate manager) Sha256 (Trim state) r
   | _ \<Rightarrow> Some (Panic ''nil pointer dereference''))"

definition GetReceipt :: "Chain \<Rightarrow> hash \<Rightarrow> hash \<Rightarrow> Receipt result option" where
  "GetReceipt manager element anchor = (
     let r = new_Receipt \<lparr> Start := element, End := anchor \<rparr>
     in case GetElementIndex manager element of
          Err e \<Rightarrow> Some (Err e) | Panic p \<Rightarrow> Some (Panic p)
        | Ok startIndex \<Rightarrow> (case GetElementIndex manager anchor of
            Err e \<Rightarrow> Some (Err e) | Panic p \<Rightarrow> Some (Panic p)
          | Ok endIndex \<Rightarrow>
              let r = r \<lparr> StartIndex := startIndex, EndIndex := endIndex \<rparr>
              in if StartIndex r > EndIndex r \<or> StartIndex r < 0 \<or> StartIndex r > Count (Head manager)
                 then Some (Err (Plain ''invalid indexes for the element %d and anchor %d''))
                 else if StartIndex r = 0 \<and> EndIndex r = 0 then Some (Ok (r \<lparr> Anchor := element \<rparr>))
                 else BuildReceipt manager r))"

section \<open>A built receipt is valid\<close>

lemma Apply_simps [simp]:
  "Apply \<lparr> Right = False, Hash = Some l \<rparr> (Some x) = Some (node l x)"
  "Apply \<lparr> Right = True, Hash = Some r \<rparr> (Some x) = Some (node x r)"
  by (simp_all add: Apply_def)

lemma idx_parity [simp]: "(int i AND 1 = 0) \<longleftrightarrow> even i"
  by (simp add: and_one_eq flip: even_iff_mod_2_eq_zero)

text \<open>Above the proof height, every pending root is combined from the left.\<close>
lemma finish_above:
  assumes "height \<le> int i" "fold Apply entries x = Some w"
  shows "\<exists>entries'. finish_loop Sha256 height i vs (Some w) True entries = (md_root (Some w) vs, entries')
    \<and> fold Apply entries' x = md_root (Some w) vs"
  using assms
proof (induction vs arbitrary: i w entries)
  case (Cons v vs)
  show ?case
  proof (cases v)
    case None
    then show ?thesis using Cons.IH [of "Suc i" entries w] Cons.prems by simp
  next
    case (Some a)
    then show ?thesis
      using Cons.IH [of "Suc i" "entries @ [\<lparr> Right = False, Hash = v \<rparr>]" "node a w"] Cons.prems
      by (simp add: Let_def)
  qed
qed simp

text \<open>
  Below it, the pending roots are only accumulated; at the proof height, where the pending root
  is the hash the receipt has reached, the accumulated hash is combined from the right.
\<close>
lemma finish_below:
  assumes "i \<le> t" "t - i < length vs" "vs ! (t - i) = Some w" "fold Apply entries x = Some w"
  shows "\<exists>entries'. finish_loop Sha256 (int t + 1) i vs ih False entries = (md_root ih vs, entries')
    \<and> fold Apply entries' x = md_root ih vs"
  using assms
proof (induction vs arbitrary: i ih)
  case (Cons v vs)
  show ?case
  proof (cases "i = t")
    case True
    then have v: "v = Some w" using Cons.prems by simp
    show ?thesis
    proof (cases ih)
      case None
      then show ?thesis using finish_above [of "int t + 1" "Suc i" entries x w vs] Cons.prems True v by simp
    next
      case (Some a)
      then show ?thesis
        using finish_above [of "int t + 1" "Suc i" "entries @ [\<lparr> Right = True, Hash = ih \<rparr>]" x "node w a" vs]
          Cons.prems True v by (simp add: Let_def)
    qed
  next
    case False
    then have "vs ! (t - Suc i) = Some w" "t - Suc i < length vs" "Suc i \<le> t"
      using Cons.prems by (auto simp: nth_Cons' Suc_diff_Suc)
    note IH = Cons.IH [OF this(3,2,1) Cons.prems(4)]
    show ?thesis
    proof (cases v)
      case None
      then show ?thesis using IH by simp
    next
      case (Some b)
      then show ?thesis
        using IH [of v] IH [of "Combine Sha256 v ih"] False Cons.prems(1)
        by (cases ih) (simp_all add: Let_def)
    qed
  qed
qed simp

text \<open>
  The interface of the builder: at an odd index whose low \<^term>\<open>h\<close> bits are all set, the provider
  returns the two halves of the subtree of height \<^term>\<open>h\<close> that ends there, otherwise an error.
\<close>
locale intermediates =
  fixes gi :: "'m \<Rightarrow> get_intermediate"
    and has :: "'m \<Rightarrow> bytes list \<Rightarrow> bool"
  assumes gi_ok: "has m xs \<Longrightarrow> e < length xs \<Longrightarrow> 1 \<le> h \<Longrightarrow> e mod 2 ^ h = 2 ^ h - 1 \<Longrightarrow> gi m (int e) (int h) =
      Ok (Some (level node (h - 1) xs ! (2 * (e div 2 ^ h))), Some (level node (h - 1) xs ! (2 * (e div 2 ^ h) + 1)))"
    and gi_err: "has m xs \<Longrightarrow> e < length xs \<Longrightarrow> 1 \<le> h \<Longrightarrow> odd e \<Longrightarrow> e mod 2 ^ h \<noteq> 2 ^ h - 1
      \<Longrightarrow> \<exists>msg. gi m (int e) (int h) = Err msg"
begin

text \<open>Combining at the last leaf of the right half of a subtree of height \<^term>\<open>h\<close>.\<close>
lemma step_combine:
  assumes m: "has m xs" and "1 \<le> h" "(q + 1) * 2 ^ h \<le> Suc e" "e < length xs"
  shows "\<exists>a. build_loop (gi m) Sha256 (int e) (int ((q + 1) * 2 ^ h) - 1) (int h) anchor stay entries =
    build_loop (gi m) Sha256 (int e) (int ((q + 1) * 2 ^ h) - 1) (int (Suc h)) a True (entries @
      [if stay then \<lparr> Right = False, Hash = Some (level node (h - 1) xs ! (2 * q)) \<rparr>
       else \<lparr> Right = True, Hash = Some (level node (h - 1) xs ! (2 * q + 1)) \<rparr>])"
proof -
  define i where "i = (q + 1) * 2 ^ h - 1"
  have pos: "1 \<le> (2 :: nat) ^ h" by simp
  have i: "int ((q + 1) * 2 ^ h) - 1 = int i" unfolding i_def by (rule int_pred) simp
  have i2: "Suc i = (q + 1) * 2 ^ h" by (simp add: i_def)
  have ie: "i \<le> e" "i < length xs" using i2 assms(3,4) by linarith+
  have e: "Suc i = 2 ^ h * q + 2 ^ h" "2 ^ h * Suc q = 2 ^ h * q + 2 ^ h" using i2 by (simp_all add: algebra_simps)
  then have d: "i div 2 ^ h = q" using pos by (intro div_nat_eqI) linarith+
  have md: "i mod 2 ^ h = 2 ^ h - 1" using e pos mult_div_mod_eq [of "2 ^ h" i, unfolded d] by linarith
  have "odd i" using i2 assms(2) by (metis dvd_mult dvd_power even_Suc less_le_trans zero_less_one)
  with ie gi_ok [OF m ie(2) assms(2) md] d show ?thesis
    unfolding i by (subst build_loop.simps) (auto simp: add.commute)
qed

text \<open>Moving to the next column: the left half is complete, the right half ends further on.\<close>
lemma step_advance:
  assumes m: "has m xs" and "1 \<le> h" "even j" "(j + 1) * 2 ^ (h - 1) \<le> Suc e" "e < length xs"
  shows "build_loop (gi m) Sha256 (int e) (int ((j + 1) * 2 ^ (h - 1)) - 1) (int h) anchor stay entries =
    build_loop (gi m) Sha256 (int e) (int ((j + 2) * 2 ^ (h - 1)) - 1) (int h) anchor False entries"
proof -
  define i where "i = (j + 1) * 2 ^ (h - 1) - 1"
  have i: "int ((j + 1) * 2 ^ (h - 1)) - 1 = int i" unfolding i_def by (rule int_pred) simp
  have i2: "Suc i = (j + 1) * 2 ^ (h - 1)" by (simp add: i_def)
  have ie: "i \<le> e" "i < length xs" using i2 assms(4,5) by linarith+
  have n: "int i + 2 ^ (h - 1) = int ((j + 2) * 2 ^ (h - 1)) - 1"
    using i by (simp add: algebra_simps)
  show ?thesis
  proof (cases "h = 1")
    case True
    then have "even i" using i2 assms(3) by simp
    with True ie show ?thesis unfolding i n [symmetric] by (subst build_loop.simps) simp
  next
    case False
    then obtain k where h: "h = Suc (Suc k)" using assms(2) by (metis One_nat_def Suc_le_D not0_implies_Suc)
    have "odd i" using i2 h by (metis dvd_mult dvd_power even_Suc zero_less_Suc diff_Suc_1)
    moreover have "i mod 2 ^ h \<noteq> 2 ^ h - 1"
    proof
      assume "i mod 2 ^ h = 2 ^ h - 1"
      then have "Suc i div 2 ^ (h - 1) = 2 * (i div 2 ^ h) + 2" using ones_div(2) assms(2) by blast
      then have "j + 1 = 2 * (i div 2 ^ h) + 2" unfolding i2 by simp
      then have "even (j + 1)" by simp
      with assms(3) show False by simp
    qed
    ultimately obtain msg where "gi m (int i) (int h) = Err msg"
      using gi_err [OF m ie(2) assms(2)] by blast
    moreover have "nat (int h - 1) = h - 1" using assms(2) by simp
    ultimately show ?thesis
      using \<open>odd i\<close> ie unfolding i n [symmetric] by (subst build_loop.simps) simp
  qed
qed

text \<open>
  The climb: the receipt is at the subtree of height \<open>k\<close> that contains the start, and the loop
  at the last leaf of that subtree. When the sibling is complete too, the loop combines the
  two and is at the parent.
\<close>
lemma climb_up:
  fixes s k e :: nat
  defines "j \<equiv> s div 2 ^ k"
  assumes m: "has m xs" and le: "(j + 1) * 2 ^ k \<le> Suc e" and e: "e < length xs"
    and w: "fold Apply entries x = Some (level node k xs ! j)"
    and sib: "odd j \<or> (j + 2) * 2 ^ k \<le> Suc e"
  shows "\<exists>a entries'. build_loop (gi m) Sha256 (int e) (int ((j + 1) * 2 ^ k) - 1) (int (Suc k)) anchor True entries
      = build_loop (gi m) Sha256 (int e) (int ((s div 2 ^ Suc k + 1) * 2 ^ Suc k) - 1) (int (Suc (Suc k))) a True entries'
    \<and> (s div 2 ^ Suc k + 1) * 2 ^ Suc k \<le> Suc e
    \<and> fold Apply entries' x = Some (level node (Suc k) xs ! (s div 2 ^ Suc k))"
proof -
  define q where "q = j div 2"
  have sq: "s div 2 ^ Suc k = q" by (simp add: q_def j_def mult.commute flip: div_mult2_eq)
  have end1: "(q + 1) * 2 ^ Suc k = (if even j then (j + 2) * 2 ^ k else (j + 1) * 2 ^ k)"
    by (auto simp: q_def algebra_simps elim!: evenE oddE)
  have le': "(q + 1) * 2 ^ Suc k \<le> Suc e" using sib le end1 by (auto split: if_splits)
  let ?hash = "if even j then \<lparr> Right = True, Hash = Some (level node k xs ! (2 * q + 1)) \<rparr>
    else \<lparr> Right = False, Hash = Some (level node k xs ! (2 * q)) \<rparr>"
  have "\<exists>a. build_loop (gi m) Sha256 (int e) (int ((j + 1) * 2 ^ k) - 1) (int (Suc k)) anchor True entries =
    build_loop (gi m) Sha256 (int e) (int ((q + 1) * 2 ^ Suc k) - 1) (int (Suc (Suc k))) a True (entries @ [?hash])"
  proof (cases "even j")
    case True
    then have e1: "(j + 2) * 2 ^ k = (q + 1) * 2 ^ Suc k" using end1 by simp
    have "build_loop (gi m) Sha256 (int e) (int ((j + 1) * 2 ^ k) - 1) (int (Suc k)) anchor True entries
      = build_loop (gi m) Sha256 (int e) (int ((q + 1) * 2 ^ Suc k) - 1) (int (Suc k)) anchor False entries"
      using step_advance [OF m, of "Suc k" j e anchor True entries] True le e unfolding e1 [symmetric] by simp
    with True show ?thesis using step_combine [OF m _ le' e, of anchor False entries] by simp
  next
    case False
    then have e1: "(j + 1) * 2 ^ k = (q + 1) * 2 ^ Suc k" using end1 by simp
    with False show ?thesis using step_combine [OF m _ le' e, of anchor True entries] unfolding e1 by simp
  qed
  moreover have "q < length xs div 2 ^ Suc k"
    using le' e by (simp add: less_eq_div_iff_mult_less_eq flip: Suc_le_eq)
  then have n: "level node (Suc k) xs ! q = node (level node k xs ! (2 * q)) (level node k xs ! (2 * q + 1))"
    by (rule level_nth_Suc)
  have "j = (if even j then 2 * q else 2 * q + 1)" by (simp add: q_def)
  then have "fold Apply (entries @ [?hash]) x = Some (level node (Suc k) xs ! q)"
    using w unfolding n by (cases "even j") simp_all
  ultimately show ?thesis using le' unfolding sq by blast
qed

text \<open>The loop ends at a subtree that is a pending root of the anchor state.\<close>
lemma climb:
  assumes m: "has m xs" and "(s div 2 ^ k + 1) * 2 ^ k \<le> Suc e" "e < length xs"
    and "fold Apply entries x = Some (level node k xs ! (s div 2 ^ k))"
  shows "\<exists>t a entries'. build_loop (gi m) Sha256 (int e) (int ((s div 2 ^ k + 1) * 2 ^ k) - 1) (int (Suc k)) anchor True entries
      = Some (Ok (int t + 1, a, entries'))
    \<and> odd (Suc e div 2 ^ t) \<and> s div 2 ^ t + 1 = Suc e div 2 ^ t
    \<and> fold Apply entries' x = Some (level node t xs ! (s div 2 ^ t))"
  using assms(2-)
proof (induction "Suc e - 2 ^ k" arbitrary: k anchor entries rule: less_induct)
  case less
  let ?j = "s div 2 ^ k"
  show ?case
  proof (cases "odd ?j \<or> (?j + 2) * 2 ^ k \<le> Suc e")
    case False
    then have "Suc e div 2 ^ k = ?j + 1"
      using less.prems(1) by (intro div_nat_eqI) (simp_all add: algebra_simps)
    moreover have "\<not> int ((?j + 2) * 2 ^ k) - 1 \<le> int e" using False by linarith
    then have "build_loop (gi m) Sha256 (int e) (int ((?j + 1) * 2 ^ k) - 1) (int (Suc k)) anchor True entries
      = Some (Ok (int k + 1, anchor, entries))"
      using step_advance [OF m, of "Suc k" ?j e anchor True entries] False less.prems(1,2)
      by (simp add: build_loop.simps del: of_nat_mult)
    ultimately show ?thesis
      using less.prems(3) False by (intro exI [of _ k] exI [of _ anchor] exI [of _ entries]) simp
  next
    case True
    from climb_up [OF m less.prems True] obtain a entries' where
      b: "build_loop (gi m) Sha256 (int e) (int ((?j + 1) * 2 ^ k) - 1) (int (Suc k)) anchor True entries
        = build_loop (gi m) Sha256 (int e) (int ((s div 2 ^ Suc k + 1) * 2 ^ Suc k) - 1) (int (Suc (Suc k))) a True entries'"
      and p: "(s div 2 ^ Suc k + 1) * 2 ^ Suc k \<le> Suc e"
        "fold Apply entries' x = Some (level node (Suc k) xs ! (s div 2 ^ Suc k))" by blast
    have "2 ^ Suc k \<le> Suc e" using p(1) by simp
    then have "Suc e - 2 ^ Suc k < Suc e - 2 ^ k" by (intro diff_less_mono2) simp_all
    from less.hyps [OF this p(1) less.prems(2) p(2), of a] show ?thesis unfolding b [symmetric] .
  qed
qed

text \<open>The receipt from any start to any later end is valid, and its anchor is the root at the end.\<close>
lemma build_valid:
  assumes m: "has m xs" and s: "s \<le> e" "e < length xs" and st: "holds (take (Suc e) xs) st"
    and r: "StartIndex r = int s" "EndIndex r = int e" "Start r = Some (xs ! s)" "Entries r = []"
  shows "\<exists>entries. BuildReceiptWith (gi m) Sha256 st r =
      Some (Ok (r \<lparr> Anchor := Some (mth node (take (Suc e) xs)), Entries := entries \<rparr>))
    \<and> fold Apply entries (Start r) = Some (mth node (take (Suc e) xs))"
proof -
  let ?ys = "take (Suc e) xs"
  have ys: "length ?ys = Suc e" using s by simp
  obtain t a entries where l: "build_loop (gi m) Sha256 (int e) (int s) 1 (Start r) True [] = Some (Ok (int t + 1, a, entries))"
    and o: "odd (Suc e div 2 ^ t)" and q: "s div 2 ^ t + 1 = Suc e div 2 ^ t"
    and f: "fold Apply entries (Start r) = Some (level node t xs ! (s div 2 ^ t))"
    using climb [OF m, of s 0 e "[]" "Start r" "Start r"] s r by auto
  have tl: "t < length (Pending st)"
  proof (rule ccontr)
    assume "\<not> t < length (Pending st)"
    then have "Suc e < 2 ^ t" using less_power_mono [OF holds_length [OF st], of t] ys by simp
    with o show False by simp
  qed
  have "last (level node t ?ys) = level node t xs ! (s div 2 ^ t)"
  proof -
    have len: "length (level node t ?ys) = s div 2 ^ t + 1" unfolding length_level ys q ..
    then have "last (level node t ?ys) = level node t ?ys ! (s div 2 ^ t)"
      by (metis add_diff_cancel_right' last_conv_nth length_0_conv add_is_0 one_neq_zero)
    then show ?thesis using q by (simp add: level_take_nth)
  qed
  then have p: "Pending st ! t = Some (level node t xs ! (s div 2 ^ t))"
    using holds_pending [OF st tl] o ys by simp
  obtain entries' where fin: "finish_loop Sha256 (int t + 1) 0 (Pending st) None False entries = (md_root None (Pending st), entries')"
    and f': "fold Apply entries' (Start r) = md_root None (Pending st)"
    using finish_below [of 0 t "Pending st" "level node t xs ! (s div 2 ^ t)" entries "Start r" None] tl p f by auto
  have md: "md_root None (Pending st) = Some (mth node ?ys)"
    using GetMDRoot_holds [OF st] st ys by (auto simp: GetMDRoot_def holds_def split: if_splits)
  show ?thesis
  proof (cases "e = 0")
    case True
    then have "s = 0" "take (Suc 0) xs = [xs ! 0]" using s by (auto simp: take_Suc_conv_app_nth)
    moreover have "build_loop (gi m) Sha256 0 0 1 (Start r) True [] = Some (Ok (1, Start r, []))"
      by (simp add: build_loop.simps)
    ultimately show ?thesis
      using True r by (intro exI [of _ "[]"]) (simp add: BuildReceiptWith_def)
  next
    case False
    then show ?thesis
      using r l fin f' md by (intro exI [of _ entries']) (simp add: BuildReceiptWith_def)
  qed
qed

end

section \<open>Receipts of a chain\<close>

interpretation chain: intermediates Chain_GetIntermediate "\<lambda>m xs. \<exists>p. chain_holds p xs m"
  using Chain_GetIntermediate_holds by unfold_locales auto

lemma holds_Trim: "holds xs m \<Longrightarrow> holds xs (Trim m)"
  by (auto simp: holds_def Trim_def trim_pending_spine intro: exI [of _ 0])

lemma BuildReceipt_valid:
  assumes m: "chain_holds p xs m" and s: "s \<le> e" "e < length xs"
    and r: "StartIndex r = int s" "EndIndex r = int e" "Start r = Some (xs ! s)" "Entries r = []"
  shows "\<exists>entries. BuildReceipt m r =
      Some (Ok (r \<lparr> Anchor := Some (mth node (take (Suc e) xs)), Entries := entries \<rparr>))
    \<and> fold Apply entries (Start r) = Some (mth node (take (Suc e) xs))"
proof -
  obtain st where st: "GetAnyState m (int e) = Ok st" "holds (take (Suc e) xs) st"
    using GetAnyState_holds [OF m s(2)] by (auto simp: state_of_def)
  then show ?thesis
    using chain.build_valid [OF _ s holds_Trim [OF st(2)] r] m r(2) by (auto simp: BuildReceipt_def)
qed

lemma GetReceipt_valid:
  assumes m: "chain_holds p xs m"
    and i: "first_index (MapKeyBytes (xs ! s)) xs = Some (int s)" "first_index (MapKeyBytes (xs ! e)) xs = Some (int e)"
    and s: "s \<le> e" "e < length xs"
  shows "\<exists>r. GetReceipt m (Some (xs ! s)) (Some (xs ! e)) = Some (Ok r) \<and> Validate r
    \<and> Start r = Some (xs ! s) \<and> StartIndex r = int s \<and> End r = Some (xs ! e) \<and> EndIndex r = int e
    \<and> Anchor r = Some (mth node (take (Suc e) xs))"
proof -
  let ?r = "new_Receipt \<lparr> Start := Some (xs ! s), End := Some (xs ! e), StartIndex := int s, EndIndex := int e \<rparr>"
  have ix: "ElementIndex m (MapKeyBytes (xs ! s)) = Some (int s)" "ElementIndex m (MapKeyBytes (xs ! e)) = Some (int e)"
    using m i by (simp_all add: chain_holds_def)
  have n: "Count (Head m) = int (length xs)" using m by (simp add: chain_holds_def state_of_def holds_def)
  obtain entries where b: "BuildReceipt m ?r = Some (Ok (?r \<lparr> Anchor := Some (mth node (take (Suc e) xs)), Entries := entries \<rparr>))"
    and f: "fold Apply entries (Start ?r) = Some (mth node (take (Suc e) xs))"
    using BuildReceipt_valid [OF m s, of ?r] by (auto simp: new_Receipt_def)
  show ?thesis
  proof (cases "e = 0")
    case True
    then have "take (Suc 0) xs = [xs ! 0]" using s by (auto simp: take_Suc_conv_app_nth)
    with True show ?thesis using s ix n
      by (simp add: GetReceipt_def GetElementIndex_def Let_def Validate_def hash_Equal_def new_Receipt_def)
  next
    case False
    with b f s ix n show ?thesis
      by (simp add: GetReceipt_def GetElementIndex_def Let_def Validate_def hash_Equal_def new_Receipt_def)
  qed
qed

section \<open>Combining receipts\<close>

lemma Apply_contents: "contents h = contents g \<Longrightarrow> contents (Apply n h) = contents (Apply n g)"
  by (simp add: Apply_def Combine_def)

lemma fold_Apply_contents:
  "contents h = contents g \<Longrightarrow> contents (fold Apply es h) = contents (fold Apply es g)"
proof (induction es arbitrary: h g)
  case (Cons e es)
  from Cons.IH [OF Apply_contents [OF Cons.prems, of e]] show ?case by simp
qed simp

lemma Validate_iff: "Validate r \<longleftrightarrow> contents (fold Apply (Entries r) (Start r)) = contents (Anchor r)"
  by (simp add: Validate_def Let_def hash_Equal_def)

lemma Receipt_Combine_valid [keeps]:
  assumes "Validate r" "Validate rm" "Receipt_Combine r rm = Ok nr"
  shows "Validate nr \<and> Start nr = Start r \<and> Anchor nr = Anchor rm"
proof -
  have "contents (fold Apply (Entries r) (Start r)) = contents (Start rm)"
    using assms by (simp add: Validate_iff Receipt_Combine_def hash_Equal_def split: if_splits)
  then show ?thesis
    using assms fold_Apply_contents [of "fold Apply (Entries r) (Start r)" "Start rm" "Entries rm"]
    by (auto simp: Validate_iff Receipt_Combine_def split: if_splits)
qed

text \<open>Receipts link up when the anchor of each is the start of the next.\<close>
fun linked :: "Receipt list \<Rightarrow> bool" where
  "linked (r # s # rs) \<longleftrightarrow> contents (Anchor r) = contents (Start s) \<and> linked (s # rs)"
| "linked rs \<longleftrightarrow> True"

lemma linked_Cons: "linked (r # ss) \<Longrightarrow> Anchor r' = Anchor r \<Longrightarrow> linked (r' # ss)"
  by (cases ss) auto

lemma combine_loop_valid:
  assumes "Validate r" "\<forall>s \<in> set ss. Validate s" "linked (r # ss)"
  shows "\<exists>nr. combine_loop r ss = Ok nr \<and> Validate nr \<and> Start nr = Start r \<and> Anchor nr = Anchor (last (r # ss))"
  using assms
proof (induction ss arbitrary: r)
  case (Cons s ss)
  define r' where "r' = r \<lparr> Anchor := Anchor s, Entries := Entries r @ Entries s \<rparr>"
  have r': "Receipt_Combine r s = Ok r'"
    using Cons.prems(3) by (simp add: Receipt_Combine_def hash_Equal_def r'_def)
  have v: "Validate r' \<and> Start r' = Start r \<and> Anchor r' = Anchor s"
    using Receipt_Combine_valid [OF Cons.prems(1) _ r'] Cons.prems(2) by simp
  moreover have "linked (r' # ss)" using Cons.prems(3) v by (intro linked_Cons [of s ss r']) simp_all
  ultimately obtain nr where "combine_loop r' ss = Ok nr" "Validate nr" "Start nr = Start r"
    "Anchor nr = Anchor (last (r' # ss))"
    using Cons.IH [of r'] Cons.prems(2) by auto
  then show ?case using r' v by (auto split: if_splits)
qed simp

lemma combine_loop_linked: "combine_loop r ss = Ok nr \<Longrightarrow> linked (r # ss)"
proof (induction ss arbitrary: r)
  case (Cons s ss)
  obtain r' where r': "Receipt_Combine r s = Ok r'" "combine_loop r' ss = Ok nr"
    using Cons.prems by (auto split: result.splits)
  then have "linked (r' # ss)" using Cons.IH by blast
  then show ?case using r'(1) linked_Cons [of r' ss s]
    by (auto simp: Receipt_Combine_def hash_Equal_def split: if_splits)
qed simp

lemma combine_loop_no_panic: "combine_loop r ss \<noteq> Panic p"
proof (induction ss arbitrary: r)
  case (Cons s ss)
  then show ?case by (cases "hash_Equal (Anchor r) (Start s)") (auto simp: Receipt_Combine_def)
qed simp

section \<open>Containment\<close>

lemma contains_find_hit: "hash_Equal h g \<Longrightarrow> contains_find es h g = Some (es, h)"
  by (subst contains_find.simps) simp

lemma contains_find_miss:
  "\<not> hash_Equal h g \<Longrightarrow> contains_find [] h g = None"
  "\<not> hash_Equal h g \<Longrightarrow> contains_find (e # es) h g = contains_find es (Apply e h) g"
  by (subst contains_find.simps, simp)+

lemma contains_find_Some:
  "contains_find es h g = Some (fs, h') \<Longrightarrow>
    \<exists>ds. es = ds @ fs \<and> h' = fold Apply ds h \<and> contents h' = contents g"
proof (induction es arbitrary: h)
  case Nil
  then show ?case
    by (cases "hash_Equal h g") (auto simp: contains_find_hit contains_find_miss hash_Equal_def)
next
  case (Cons e es)
  show ?case
  proof (cases "hash_Equal h g")
    case True
    with Cons.prems have "fs = e # es" "h' = h" by (simp_all add: contains_find_hit)
    with True show ?thesis by (intro exI [of _ "[]"]) (simp add: hash_Equal_def)
  next
    case False
    then obtain ds where "es = ds @ fs" "h' = fold Apply ds (Apply e h)" "contents h' = contents g"
      using Cons by (auto simp: contains_find_miss)
    then show ?thesis by (intro exI [of _ "e # ds"]) simp
  qed
qed

lemma contains_match_prefix:
  "contains_match es h fs g \<Longrightarrow> contents h = contents g \<Longrightarrow>
    \<exists>ds rest. es = ds @ rest \<and> length ds = length fs \<and> contents (fold Apply ds h) = contents (fold Apply fs g)"
proof (induction es h fs g rule: contains_match.induct)
  case (3 e es h f fs g)
  have q: "hash_Equal (Apply e h) (Apply f g)" "contains_match es (Apply e h) fs (Apply f g)"
    using 3(2) by (auto simp: Let_def split: if_splits)
  then obtain ds rest where "es = ds @ rest" "length ds = length fs"
    "contents (fold Apply ds (Apply e h)) = contents (fold Apply fs (Apply f g))"
    using 3(1) [OF refl refl] by (auto simp: hash_Equal_def)
  then show ?case by (intro exI [of _ "e # ds"] exI [of _ rest]) simp
qed auto

lemma contains_find_append:
  "contains_find es h g = Some (fs, h') \<Longrightarrow> contains_find (es @ rest) h g = Some (fs @ rest, h')"
proof (induction es arbitrary: h)
  case Nil
  then have "hash_Equal h g" by (cases "hash_Equal h g") (auto simp: contains_find_miss)
  with Nil show ?case by (simp add: contains_find_hit)
next
  case (Cons e es)
  then show ?case
    by (cases "hash_Equal h g") (simp_all add: contains_find_hit contains_find_miss)
qed

lemma contains_match_extend: "contains_match es h fs g \<Longrightarrow> contains_match (es @ rest) h fs g"
proof (induction es h fs g rule: contains_match.induct)
  case (3 e es h f fs g)
  then show ?case by (simp add: Let_def split: if_splits)
qed auto

text \<open>A contained receipt ends at a hash on the path of the containing one.\<close>
lemma Contains_path:
  assumes "Contains r other"
  shows "\<exists>ds rest. Entries r = ds @ rest
    \<and> contents (fold Apply ds (Start r)) = contents (fold Apply (Entries other) (Start other))"
proof -
  obtain es h where f: "contains_find (Entries r) (Start r) (Start other) = Some (es, h)"
    and m: "contains_match es h (Entries other) (Start other)"
    using assms by (auto simp: Contains_def split: option.splits)
  obtain ds where d: "Entries r = ds @ es" "h = fold Apply ds (Start r)" "contents h = contents (Start other)"
    using contains_find_Some [OF f] by auto
  obtain ds' rest where "es = ds' @ rest" "contents (fold Apply ds' h) = contents (fold Apply (Entries other) (Start other))"
    using contains_match_prefix [OF m d(3)] by auto
  then show ?thesis using d by (intro exI [of _ "ds @ ds'"] exI [of _ rest]) simp
qed

lemma contains_match_append: "contains_match (es @ fs) h es h"
  by (induction es arbitrary: h) (auto simp: Let_def hash_Equal_def)

lemma Contains_Combine:
  assumes "Receipt_Combine r rm = Ok nr"
  shows "Contains nr r"
proof -
  have "Start nr = Start r" "Entries nr = Entries r @ Entries rm"
    using assms by (auto simp: Receipt_Combine_def split: if_splits)
  then show ?thesis
    by (simp add: Contains_def contains_find_hit hash_Equal_def contains_match_append)
qed

section \<open>Properties\<close>

text \<open>
  C2. For any two elements of a chain of distinct hashes, the first not after the second, a receipt
  is produced: the loop that builds it ends without error, the receipt validates, it starts at the
  first element, and its anchor is the Merkle root of the chain at the second element.
\<close>
theorem GetReceipt_proves:
  assumes "1 \<le> p" "distinct xs" "\<forall>x \<in> set xs. length x = 32" "s \<le> e" "e < length xs"
  shows "\<exists>r. GetReceipt (chain_of p xs) (Some (xs ! s)) (Some (xs ! e)) = Some (Ok r) \<and> Validate r
    \<and> Start r = Some (xs ! s) \<and> StartIndex r = int s \<and> End r = Some (xs ! e) \<and> EndIndex r = int e
    \<and> Anchor r = GetMDRoot (add_all (take (Suc e) xs) new_MerkleState)"
proof -
  have "GetMDRoot (add_all (take (Suc e) xs) new_MerkleState) = Some (mth node (take (Suc e) xs))"
    using GetMDRoot_holds [OF holds_add_all [OF holds_new]] assms(5) by auto
  then show ?thesis
    using GetReceipt_valid [OF chain_holds_chain_of [OF assms(1)] _ _ assms(4,5)] assms
    by (simp add: first_index_nth)
qed

theorem GetReceipt_proves_witness:
  "\<exists>r. GetReceipt (chain_of 1 [replicate 32 1, replicate 32 2, replicate 32 3])
      (Some (replicate 32 2)) (Some (replicate 32 3)) = Some (Ok r) \<and> Validate r"
  using GetReceipt_proves [of 1 "[replicate 32 1, replicate 32 2, replicate 32 3]" 1 2]
  by (auto simp: list_eq_iff_nth_eq [of "replicate 32 _"])

text \<open>
  A receipt is refused, with an error and not a panic, when an end of it is not in the chain or
  the start comes after the end.
\<close>
theorem GetReceipt_refuses:
  assumes "1 \<le> p" "distinct xs" "\<forall>x \<in> set xs. length x = 32" "length x = 32" "length y = 32"
    "x \<notin> set xs \<or> y \<notin> set xs \<or> (\<exists>i j. i < j \<and> j < length xs \<and> xs ! j = x \<and> xs ! i = y)"
  shows "\<exists>err. GetReceipt (chain_of p xs) (Some x) (Some y) = Some (Err err)"
proof -
  have ix: "ElementIndex (chain_of p xs) = (\<lambda>k. first_index k xs)"
    using chain_holds_chain_of [OF assms(1), of xs] by (auto simp: chain_holds_def)
  consider "first_index (MapKeyBytes x) xs = None" | "first_index (MapKeyBytes y) xs = None"
    | i j where "i < j" "first_index (MapKeyBytes x) xs = Some (int j)" "first_index (MapKeyBytes y) xs = Some (int i)"
    using assms(6) first_index_None [OF assms(3,4)] first_index_None [OF assms(3,5)]
      first_index_nth [OF assms(2,3)] by (metis order.strict_trans)
  then show ?thesis
    by cases (auto simp: GetReceipt_def GetElementIndex_def ix Let_def split: option.splits)
qed

theorem GetReceipt_refuses_witness:
  "\<exists>err. GetReceipt (chain_of 1 [replicate 32 1]) (Some (replicate 32 2)) (Some (replicate 32 1)) = Some (Err err)"
  by (rule GetReceipt_refuses) (auto simp: list_eq_iff_nth_eq [of "replicate 32 _"])

text \<open>
  C20. Valid receipts combine to a receipt exactly when each one's anchor is the start of the next;
  the result is valid, from the start of the first to the anchor of the last.
\<close>
theorem CombineReceipts_valid:
  assumes "\<forall>r \<in> set (r # rs). Validate r"
  shows "case CombineReceipts (r # rs) of
      Ok nr \<Rightarrow> linked (r # rs) \<and> Validate nr \<and> Start nr = Start r \<and> Anchor nr = Anchor (last (r # rs))
    | Err _ \<Rightarrow> \<not> linked (r # rs) | Panic _ \<Rightarrow> False"
proof (cases "linked (r # rs)")
  case True
  obtain nr where "combine_loop r rs = Ok nr" "Validate nr" "Start nr = Start r" "Anchor nr = Anchor (last (r # rs))"
    using combine_loop_valid [OF _ _ True] assms by auto
  then show ?thesis using True by (simp add: CombineReceipts_def)
next
  case False
  then have "combine_loop r rs \<noteq> Ok nr" for nr using combine_loop_linked by blast
  then show ?thesis using False combine_loop_no_panic [of r rs]
    by (simp add: CombineReceipts_def split: result.splits)
qed

text \<open>The receipt of an element that is the root itself, and one of two elements.\<close>
definition receipt_leaf :: "bytes \<Rightarrow> Receipt" where
  "receipt_leaf h = new_Receipt \<lparr> Start := Some h, Anchor := Some h \<rparr>"

theorem CombineReceipts_valid_witness:
  "case CombineReceipts [receipt_leaf [1], receipt_leaf [1]] of
      Ok nr \<Rightarrow> Validate nr \<and> Start nr = Some [1] \<and> Anchor nr = Some [1] | Err _ \<Rightarrow> False | Panic _ \<Rightarrow> False"
proof -
  have "Validate (receipt_leaf [1])" by (simp add: receipt_leaf_def new_Receipt_def Validate_iff)
  then show ?thesis
    using CombineReceipts_valid [of "receipt_leaf [1]" "[receipt_leaf [1]]"]
    by (auto simp: receipt_leaf_def split: result.splits)
qed

text \<open>
  Extending a receipt by combining it keeps what it contains: a valid receipt contained before
  is contained after, and its anchor lies on the path of the extended receipt.
\<close>
theorem Contains_combined:
  assumes "Contains r other" "Validate other" "Receipt_Combine r rm = Ok nr"
  shows "Contains nr other \<and> (\<exists>ds rest. Entries nr = ds @ rest
    \<and> contents (fold Apply ds (Start nr)) = contents (Anchor other))"
proof -
  have "Start nr = Start r" "Entries nr = Entries r @ Entries rm"
    using assms(3) by (auto simp: Receipt_Combine_def split: if_splits)
  then have "Contains nr other"
    using assms(1) contains_find_append [of "Entries r" "Start r" "Start other" _ _ "Entries rm"]
      contains_match_extend by (fastforce simp: Contains_def split: option.splits)
  then show ?thesis using Contains_path [of nr other] assms(2) by (simp add: Validate_iff)
qed

theorem Contains_combined_witness:
  "\<exists>nr. Receipt_Combine (receipt_leaf [1]) (receipt_leaf [1]) = Ok nr \<and> Contains nr (receipt_leaf [1])"
proof -
  let ?l = "receipt_leaf [1]"
  obtain nr where nr: "Receipt_Combine ?l ?l = Ok nr"
    by (simp add: receipt_leaf_def Receipt_Combine_def hash_Equal_def)
  moreover have "Contains ?l ?l" "Validate ?l"
    by (simp_all add: receipt_leaf_def new_Receipt_def Validate_iff Contains_def contains_find_hit hash_Equal_def)
  ultimately show ?thesis using Contains_combined by blast
qed

end
