(* ===== verification/Receipt_List.thy ===== *)
theory Receipt_List
  imports Receipt
begin

text \<open>
  \<^verbatim>\<open>src/smt/managed/receiptlist.go\<close>: a proof that a run of elements is in the chain, in order.
\<close>

record ReceiptList =
  MerkleState :: "MerkleState option"
  Elements :: "hash list"
  ListReceipt :: "Receipt option"
  ContinuedReceipt :: "Receipt option"

text \<open>The loop adding the elements to the state; an element that is not a hash ends it.\<close>
fun add_elements :: "hash list \<Rightarrow> MerkleState \<Rightarrow> MerkleState option" where
  "add_elements [] MS = Some MS"
| "add_elements (h # hs) MS =
     (if h = None \<or> length (contents h) \<noteq> 32 then None
      else add_elements hs (AddToMerkleTree (Some (contents h)) MS))"

definition ReceiptList_Validate :: "ReceiptList \<Rightarrow> bool" where
  "ReceiptList_Validate r = (case (MerkleState r, ListReceipt r) of
     (Some ms, Some receipt) \<Rightarrow>
       if Elements r = [] then False
       else (case add_elements (Elements r) ms of
         None \<Rightarrow> False
       | Some MS \<Rightarrow>
         let anchor = GetMDRoot MS in
         if length (contents anchor) = 0 then False
         else if \<not> hash_Equal (last (Elements r)) (Start receipt) then False
         else if \<not> hash_Equal (Anchor receipt) anchor then False
         else if \<not> Validate receipt then False
         else (case ContinuedReceipt r of
           None \<Rightarrow> True
         | Some c \<Rightarrow> if \<not> hash_Equal anchor (Start c) then False else if \<not> Validate c then False else True))
   | _ \<Rightarrow> False)"

definition Included :: "ReceiptList \<Rightarrow> bytes \<Rightarrow> bool" where
  "Included r entry = list_ex (\<lambda>e. contents e = entry) (Elements r)"

definition NewReceiptList :: ReceiptList where
  "NewReceiptList = \<lparr> MerkleState = Some new_MerkleState, Elements = [], ListReceipt = None, ContinuedReceipt = None \<rparr>"

fun get_elements :: "Chain \<Rightarrow> int \<Rightarrow> nat \<Rightarrow> hash list result" where
  "get_elements manager i 0 = Ok []"
| "get_elements manager i (Suc n) =
     bind_result (Chain_Get manager i) (\<lambda>h. map_ok ((#) h) (get_elements manager (i + 1) n))"

definition GetReceiptList :: "Chain \<Rightarrow> int \<Rightarrow> int \<Rightarrow> ReceiptList result option" where
  "GetReceiptList manager start end = (
     if start > end then Some (Err (Plain ''start %d and end %d is invalid for ReceiptList''))
     else if Count (Head manager) \<le> end then Some (Err (Plain ''end %d is out of range for SMT length %d''))
     else case get_elements manager start (nat (end - start + 1)) of
       Err e \<Rightarrow> Some (Err e) | Panic p \<Rightarrow> Some (Panic p)
     | Ok elements \<Rightarrow>
       (case GetAnyState manager (start - 1) of
          Err e \<Rightarrow> Some (Err e) | Panic p \<Rightarrow> Some (Panic p)
        | Ok ms \<Rightarrow>
          let lastElement = Some (contents (last elements)) in
          (case GetReceipt manager lastElement lastElement of
             None \<Rightarrow> None
           | Some (Err e) \<Rightarrow> Some (Err e)
           | Some (Panic p) \<Rightarrow> Some (Panic p)
           | Some (Ok r) \<Rightarrow> Some (Ok (NewReceiptList \<lparr> MerkleState := Some ms, Elements := elements, ListReceipt := Some r \<rparr>)))))"

lemma get_elements_holds:
  assumes m: "chain_holds p xs m"
  shows "s + n \<le> length xs \<Longrightarrow> get_elements m (int s) n = Ok (map Some (take n (drop s xs)))"
proof (induction n arbitrary: s)
  case (Suc n)
  have "get_elements m (int (Suc s)) n = Ok (map Some (take n (drop (Suc s) xs)))"
    using Suc.prems by (intro Suc.IH) simp
  moreover have "Chain_Get m (int s) = Ok (Some (xs ! s))"
    using m Suc.prems by (simp add: chain_holds_def Chain_Get_def)
  ultimately show ?case
    using Suc.prems by (simp add: add.commute Cons_nth_drop_Suc [symmetric])
qed simp

lemma add_elements_all: "\<forall>x \<in> set ys. length x = 32 \<Longrightarrow> add_elements (map Some ys) ms = Some (add_all ys ms)"
  by (induction ys arbitrary: ms) auto

text \<open>
  The list from \<^term>\<open>s\<close> to \<^term>\<open>e\<close> is valid exactly when the receipt, which is looked up by
  the hash of the last element, is anchored at the root of the end.
\<close>
lemma GetReceiptList_holds:
  assumes m: "chain_holds p xs m" and s: "s \<le> e" "e < length xs"
    and h: "\<forall>x \<in> set xs. length x = 32" and i: "first_index (MapKeyBytes (xs ! e)) xs = Some (int i)" "xs ! i = xs ! e" "i < length xs"
  shows "\<exists>rl. GetReceiptList m (int s) (int e) = Some (Ok rl)
    \<and> Elements rl = map Some (drop s (take (Suc e) xs))
    \<and> (ReceiptList_Validate rl \<longleftrightarrow> mth node (take (Suc i) xs) = mth node (take (Suc e) xs))"
proof -
  let ?ys = "drop s (take (Suc e) xs)"
  have n: "Count (Head m) = int (length xs)" using m by (simp add: chain_holds_def state_of_def holds_def)
  have "nat (int e - int s + 1) = Suc e - s" using s by simp
  then have el: "get_elements m (int s) (nat (int e - int s + 1)) = Ok (map Some ?ys)"
    using get_elements_holds [OF m, of s "Suc e - s"] s by (simp add: drop_take)
  have ne: "?ys \<noteq> []" using s by simp
  have la: "last ?ys = xs ! e" using s by (simp add: last_drop last_conv_nth)
  obtain ms where ms: "GetAnyState m (int s - 1) = Ok ms" "holds (take s xs) ms"
    using GetAnyState_before [OF m, of s] s by auto
  obtain r where r: "GetReceipt m (Some (xs ! e)) (Some (xs ! e)) = Some (Ok r)" "Validate r" "Start r = Some (xs ! e)"
    "Anchor r = Some (mth node (take (Suc i) xs))"
    using GetReceipt_valid [OF m, of i i] i by auto
  let ?rl = "NewReceiptList \<lparr> MerkleState := Some ms, Elements := map Some ?ys, ListReceipt := Some r \<rparr>"
  have g: "GetReceiptList m (int s) (int e) = Some (Ok ?rl)"
    using s n el ms(1) r(1) ne la by (simp add: GetReceiptList_def last_map)
  have "take s xs @ ?ys = take (Suc e) xs" using drop_take_split [of 0 s "Suc e" xs] s by simp
  then have "holds (take (Suc e) xs) (add_all ?ys ms)" using holds_add_all [OF ms(2), of ?ys] by simp
  then have root: "GetMDRoot (add_all ?ys ms) = Some (mth node (take (Suc e) xs))"
    using GetMDRoot_holds s by auto
  have "\<forall>x \<in> set ?ys. length x = 32" using h by (meson in_set_dropD in_set_takeD)
  note ae = add_elements_all [OF this, of ms]
  have "length (mth node (take (Suc e) xs)) = 32"
    using h s by (intro mth_closed [where P = "\<lambda>x. length x = 32"]) (auto dest: in_set_takeD)
  then have "mth node (take (Suc e) xs) \<noteq> []" by auto
  then have "ReceiptList_Validate ?rl \<longleftrightarrow> mth node (take (Suc i) xs) = mth node (take (Suc e) xs)"
    using ae root r ne la by (simp add: ReceiptList_Validate_def NewReceiptList_def hash_Equal_def last_map Let_def)
  with g show ?thesis by (intro exI [of _ ?rl]) (simp add: NewReceiptList_def)
qed

section \<open>Properties\<close>

text \<open>
  C22. The receipt list of a range of a chain of distinct hashes is produced, holds exactly the
  hashes of the range, and validates.
\<close>
theorem GetReceiptList_proves:
  assumes "1 \<le> p" "distinct xs" "\<forall>x \<in> set xs. length x = 32" "s \<le> e" "e < length xs"
  shows "\<exists>rl. GetReceiptList (chain_of p xs) (int s) (int e) = Some (Ok rl)
    \<and> Elements rl = map Some (drop s (take (Suc e) xs)) \<and> ReceiptList_Validate rl"
  using GetReceiptList_holds [OF chain_holds_chain_of [OF assms(1)] assms(4,5,3) first_index_nth [OF assms(2,3,5)] refl assms(5)]
  by blast

theorem GetReceiptList_proves_witness:
  "\<exists>rl. GetReceiptList (chain_of 1 [replicate 32 1, replicate 32 2, replicate 32 3]) 1 2 = Some (Ok rl)
    \<and> Elements rl = [Some (replicate 32 2), Some (replicate 32 3)] \<and> ReceiptList_Validate rl"
  using GetReceiptList_proves [of 1 "[replicate 32 1, replicate 32 2, replicate 32 3]" 1 2]
  by (auto simp: list_eq_iff_nth_eq [of "replicate 32 _"] eval_nat_numeral)

text \<open>
  C25. When the last hash of the range occurs earlier in the chain, the receipt is made for the
  earlier occurrence: the list is still returned without error, but it validates only if the root
  at that occurrence happens to be the root at the end of the range.
\<close>
theorem GetReceiptList_duplicate:
  assumes "1 \<le> p" "\<forall>x \<in> set xs. length x = 32" "s \<le> e" "e < length xs" "i < e" "xs ! i = xs ! e"
    "\<forall>j < i. xs ! j \<noteq> xs ! e"
  shows "\<exists>rl. GetReceiptList (chain_of p xs) (int s) (int e) = Some (Ok rl)
    \<and> (ReceiptList_Validate rl \<longleftrightarrow> mth node (take (Suc i) xs) = mth node (take (Suc e) xs))"
proof -
  have "first_index (MapKeyBytes (xs ! e)) xs = Some (int i)"
    using assms by (intro first_index_Some) auto
  then show ?thesis
    using GetReceiptList_holds [OF chain_holds_chain_of [OF assms(1)] assms(3,4,2) _ assms(6)] assms(4,5) by auto
qed

theorem GetReceiptList_duplicate_witness:
  "\<exists>rl. GetReceiptList (chain_of 1 [replicate 32 1, replicate 32 1]) 0 1 = Some (Ok rl)
    \<and> (ReceiptList_Validate rl \<longleftrightarrow> mth node [replicate 32 1] = mth node [replicate 32 1, replicate 32 1])"
  using GetReceiptList_duplicate [of 1 "[replicate 32 1, replicate 32 1]" 0 1 0] by simp

end
