(* ===== verification/Hasher.thy ===== *)
theory Hasher
  imports Receipt
begin

text \<open>
  \<^verbatim>\<open>src/internal/encoding/hash/hasher.go\<close>: the hash of a structured value as the root of a Merkle
  tree over the hashes of its parts, and receipts for a part. The cascade is shown to be the
  pending list of a Merkle state cut at a height, and its intermediate hashes to satisfy the
  interface of the receipt builder.
\<close>

section \<open>The hasher\<close>

type_synonym hasher = "hash list"

definition hasher_append :: "bytes \<Rightarrow> hasher \<Rightarrow> hasher" where
  "hasher_append v h = h @ [Some (sha256 v)]"

definition Hasher_AddHash :: "bytes \<Rightarrow> hasher \<Rightarrow> hasher" where
  "Hasher_AddHash v h = h @ [Some v]"

definition AddInt :: "int \<Rightarrow> hasher \<Rightarrow> hasher" where
  "AddInt v h = hasher_append (PutVarint v) h"

definition AddUint :: "64 word \<Rightarrow> hasher \<Rightarrow> hasher" where
  "AddUint v h = hasher_append (PutUvarint v) h"

definition AddBool :: "bool \<Rightarrow> hasher \<Rightarrow> hasher" where
  "AddBool v h = AddUint (if v then 1 else 0) h"

definition AddBytes :: "bytes \<Rightarrow> hasher \<Rightarrow> hasher" where
  "AddBytes v h = hasher_append v h"

definition AddString :: "bytes \<Rightarrow> hasher \<Rightarrow> hasher" where
  "AddString v h = hasher_append v h"

definition AddBigInt :: "int \<Rightarrow> hasher \<Rightarrow> hasher" where
  "AddBigInt v h = hasher_append (nat_be (nat \<bar>v\<bar>)) h"

definition AddValue :: "hash \<Rightarrow> hasher \<Rightarrow> hasher" where
  "AddValue v h = h @ [v]"

definition AddEnum :: "64 word \<Rightarrow> hasher \<Rightarrow> hasher" where
  "AddEnum v h = AddUint v h"

definition MerkleHash :: "hasher \<Rightarrow> hash" where
  "MerkleHash h = (if length h = 0 then Some (replicate 32 0)
     else GetMDRoot (fold AddToMerkleTree h new_MerkleState))"

definition hash_Combine :: "hash \<Rightarrow> hash \<Rightarrow> hash" where
  "hash_Combine l r = Some (sha256 (contents l @ contents r))"

text \<open>The inner loop of \<^verbatim>\<open>MerkleCascade\<close>, on the part of the cascade from height \<^term>\<open>i\<close> on.\<close>
fun cascade_from :: "nat \<Rightarrow> hash list \<Rightarrow> hash \<Rightarrow> int \<Rightarrow> hash list" where
  "cascade_from i [] h maxHeight = (if maxHeight < 0 \<or> int i < maxHeight then [h] else [])"
| "cascade_from i (v # cascade) h maxHeight =
     (if maxHeight < 0 \<or> int i < maxHeight then
        if v = None then h # cascade
        else None # cascade_from (i + 1) cascade (hash_Combine v h) maxHeight
      else v # cascade)"

definition MerkleCascade :: "hash list \<Rightarrow> hash list \<Rightarrow> int \<Rightarrow> hash list" where
  "MerkleCascade cascade hashList maxHeight = fold (\<lambda>h c. cascade_from 0 c h maxHeight) hashList cascade"

text \<open>\<^verbatim>\<open>copy\<close> into a new buffer of 32 bytes.\<close>
definition copy32 :: "hash \<Rightarrow> bytes" where
  "copy32 h = take 32 (contents h @ replicate 32 0)"

fun cascade_right :: "hash list \<Rightarrow> hash \<Rightarrow> hash result" where
  "cascade_right [] right = Ok right"
| "cascade_right (v # vs) right =
     (if v = None then Err (Plain ''should not encounter a nil at height %d'')
      else cascade_right vs (hash_Combine v right))"

definition getIntermediate :: "hasher \<Rightarrow> int \<Rightarrow> int \<Rightarrow> (hash \<times> hash) result" where
  "getIntermediate h element height = (
     if element < 0 \<or> element mod 2 \<noteq> 1 then Err (Plain ''element is not odd'')
     else bind_result (slice_to (nat element) h) (\<lambda>hs.
       let cascade = MerkleCascade [] hs height in
       if height > int (length cascade) then Err (Plain ''no values found at height %d'')
       else if height < 1 then Panic ''index out of range''
       else if cascade ! nat (height - 1) = None then Err (Plain ''nil at height %d'')
       else if element \<ge> int (length h) then Panic ''index out of range''
       else
         let right = Some (copy32 (h ! nat element)) in
         bind_result (cascade_right (take (nat (height - 1)) cascade) right) (\<lambda>right.
         let left = Some (copy32 (cascade ! nat (height - 1))) in Ok (left, right))))"

text \<open>Nil (\<^term>\<open>None\<close> inside) when an index is out of bounds.\<close>
definition Hasher_Receipt :: "hasher \<Rightarrow> int \<Rightarrow> int \<Rightarrow> Receipt option result option" where
  "Hasher_Receipt h start anchor = (
     if start < 0 \<or> start \<ge> int (length h) \<or> anchor < 0 \<or> anchor \<ge> int (length h) then Some (Ok None)
     else if length h = 1 then
       Some (Ok (Some (new_Receipt \<lparr> Start := h ! 0, End := h ! 0, Anchor := h ! 0 \<rparr>)))
     else
       let anchorState = fold AddToMerkleTree (take (nat anchor + 1) h) new_MerkleState;
           anchorState = PadPending anchorState;
           r = new_Receipt \<lparr> StartIndex := start, EndIndex := anchor, Start := h ! nat start, Anchor := h ! nat start \<rparr>
       in case BuildReceiptWith (getIntermediate h) Sha256 anchorState r of
            None \<Rightarrow> None
          | Some (Ok r) \<Rightarrow> Some (Ok (Some r))
          | Some (Err e) \<Rightarrow> Some (Panic ''err'')
          | Some (Panic p) \<Rightarrow> Some (Panic p))"

section \<open>The cascade is the pending list\<close>

lemma hash_Combine_node [simp]: "hash_Combine (Some l) (Some r) = Some (node l r)"
  by (simp add: hash_Combine_def node_def)

lemma cascade_from_spine:
  assumes "i \<le> H"
  shows "cascade_from i (take (H - i) (spine node xs)) (Some x) (int H) = take (H - i) (spine node (xs @ [x]))"
  using assms
proof (induction xs arbitrary: i x rule: length_induct_half)
  case Nil
  then show ?case by (cases "H - i") (auto simp: spine_step)
next
  case (step xs)
  show ?case
  proof (cases "i = H")
    case False
    then obtain k where k: "H - i = Suc k" "H - Suc i = k" "Suc i \<le> H" using step(3) by (cases "H - i") auto
    show ?thesis
    proof (cases "even (length xs)")
      case True
      then have "pairs node (xs @ [x]) = pairs node xs" by (simp add: pairs_append)
      then show ?thesis using True k step(1) by (simp add: spine_step)
    next
      case odd: False
      obtain ys l where xs: "xs = ys @ [l]" using step(1) by (metis append_butlast_last_id)
      with odd have p: "pairs node (xs @ [x]) = pairs node xs @ [node l x]" by (simp add: pairs_append)
      have "last xs = l" by (simp add: xs)
      then show ?thesis
        using odd k step(1) step(2) [of "pairs node xs" "Suc i" "node l x"] by (simp add: spine_step p)
    qed
  next
    case True
    then show ?thesis by (cases "spine node xs") auto
  qed
qed

text \<open>Up to a height, the cascade of a list is the spine of the reference tree.\<close>
lemma MerkleCascade_spine:
  "MerkleCascade [] (map Some xs) (int H) = take H (spine node xs)"
proof (induction xs rule: rev_induct)
  case (snoc x xs)
  then show ?case using cascade_from_spine [of 0 H xs x] by (simp add: MerkleCascade_def)
qed (simp add: MerkleCascade_def)

lemma cascade_from_unlimited:
  "cascade_from i (spine node xs) (Some x) maxHeight = spine node (xs @ [x])" if "maxHeight < 0"
proof (induction xs arbitrary: i x rule: length_induct_half)
  case Nil
  then show ?case using that by (simp add: spine_step)
next
  case (step xs)
  show ?case
  proof (cases "even (length xs)")
    case True
    then have "pairs node (xs @ [x]) = pairs node xs" by (simp add: pairs_append)
    then show ?thesis using True that step(1) by (simp add: spine_step)
  next
    case False
    obtain ys l where xs: "xs = ys @ [l]" using step(1) by (metis append_butlast_last_id)
    with False have p: "pairs node (xs @ [x]) = pairs node xs @ [node l x]" by (simp add: pairs_append)
    have "last xs = l" by (simp add: xs)
    then show ?thesis
      using False that step(1) step(2) [of "pairs node xs" "Suc i" "node l x"] by (simp add: spine_step p)
  qed
qed

lemma MerkleCascade_unlimited:
  assumes "maxHeight < 0"
  shows "MerkleCascade (spine node xs) (map Some ys) maxHeight = spine node (xs @ ys)"
proof (induction ys rule: rev_induct)
  case (snoc y ys)
  then show ?case using cascade_from_unlimited [OF assms, of 0 "xs @ ys" y] by (simp add: MerkleCascade_def)
qed (simp add: MerkleCascade_def)

section \<open>Receipts of a hasher\<close>

lemma copy32_id [simp]: "length x = 32 \<Longrightarrow> copy32 (Some x) = x"
  by (simp add: copy32_def)

text \<open>The two ways of finding an intermediate hash agree.\<close>
lemma intermediate_loop_cascade:
  assumes "i < h" "h - i \<le> length vs"
  shows "intermediate_loop i vs (Some x) (int h) = (case cascade_right (take (h - 1 - i) vs) (Some x) of
     Ok right \<Rightarrow> if vs ! (h - 1 - i) = None then Err (Plain ''should not encounter a nil at height %d'')
       else Ok (vs ! (h - 1 - i), right)
   | Err e \<Rightarrow> Err e | Panic p \<Rightarrow> Panic p)"
  using assms
proof (induction vs arbitrary: i x)
  case (Cons v vs)
  show ?case
  proof (cases "Suc i = h")
    case True
    then have "int i + 1 = int h" "h - 1 - i = 0" by auto
    then show ?thesis by simp
  next
    case False
    then have k: "int i + 1 \<noteq> int h" "h - 1 - i = Suc (h - 1 - Suc i)" "Suc i < h" using Cons.prems by auto
    show ?thesis
    proof (cases v)
      case None
      then show ?thesis using k by simp
    next
      case (Some a)
      have n: "(v # vs) ! (h - 1 - i) = vs ! (h - 1 - Suc i)" "take (h - 1 - i) (v # vs) = v # take (h - 1 - Suc i) vs"
        unfolding k(2) by simp_all
      have "h - Suc i \<le> length vs" using Cons.prems by simp
      then show ?thesis unfolding n using Some k(1) Cons.IH [OF k(3), of "node a x"] by simp
    qed
  qed
qed simp

lemma cascade_right_not_panic: "cascade_right vs x \<noteq> Panic p"
  by (induction vs arbitrary: x) auto

lemma intermediate_loop_short:
  "i + length vs < h \<Longrightarrow> \<exists>e. intermediate_loop i (vs @ [None]) x (int h) = Err e"
  by (induction vs arbitrary: i x) auto

lemma spine_entry_32:
  assumes "\<forall>x \<in> set xs. length x = 32" "k < length (spine node xs)" "spine node xs ! k = Some b"
  shows "length b = 32"
proof -
  have o: "odd (length xs div 2 ^ k)" and b: "b = last (level node k xs)"
    using assms(2,3) by (simp_all add: spine_nth split: if_splits)
  have "level node k xs \<noteq> []" using o by (metis even_zero length_level list.size(3))
  then have "b \<in> set (level node k xs)" using b by simp
  with assms(1) show ?thesis using level_closed [of "\<lambda>x. length x = 32" node xs b k] by simp
qed

lemma getIntermediate_spine:
  assumes xs: "\<forall>x \<in> set xs. length x = 32" and e: "e < length xs" "odd e" and h: "1 \<le> h"
  shows "\<exists>msg. getIntermediate (map Some xs) (int e) (int h) =
    (case intermediate_loop 0 (spine node (take e xs) @ [None]) (Some (xs ! e)) (int h) of
       Ok lr \<Rightarrow> Ok lr | _ \<Rightarrow> Err msg)"
proof -
  let ?vs = "spine node (take e xs)"
  have k: "nat (int h - 1) = h - 1" by simp
  have odd: "int e mod 2 = 1" using e(2) by (metis even_of_nat odd_iff_mod_2_eq_one)
  have tk: "take e (map Some xs) = map Some (take e xs)" by (simp add: take_map)
  have x: "copy32 (map Some xs ! e) = xs ! e" using xs e(1) by simp
  have g: "getIntermediate (map Some xs) (int e) (int h) = (
     if h > length ?vs then Err (Plain ''no values found at height %d'')
     else if ?vs ! (h - 1) = None then Err (Plain ''nil at height %d'')
     else bind_result (cascade_right (take (h - 1) ?vs) (Some (xs ! e))) (\<lambda>right.
       Ok (Some (copy32 (?vs ! (h - 1))), right)))"
    using odd h e(1) x
    by (simp add: getIntermediate_def slice_to_def tk MerkleCascade_spine Let_def k min_def)
  show ?thesis
  proof (cases "h \<le> length ?vs")
    case True
    then have hl: "h - 1 < length ?vs" using h by linarith
    then have t: "take (h - 1) (?vs @ [None]) = take (h - 1) ?vs" "(?vs @ [None]) ! (h - 1) = ?vs ! (h - 1)"
      by (simp_all add: nth_append)
    have "length b = 32" if "?vs ! (h - 1) = Some b" for b
      using spine_entry_32 [OF _ hl that] xs by (meson in_set_takeD)
    then have c: "?vs ! (h - 1) = None \<or> Some (copy32 (?vs ! (h - 1))) = ?vs ! (h - 1)"
      by (cases "?vs ! (h - 1)") auto
    have i: "intermediate_loop 0 (?vs @ [None]) (Some (xs ! e)) (int h) =
      (case cascade_right (take (h - 1) ?vs) (Some (xs ! e)) of
         Ok right \<Rightarrow> if ?vs ! (h - 1) = None then Err (Plain ''should not encounter a nil at height %d'')
           else Ok (?vs ! (h - 1), right)
       | Err e \<Rightarrow> Err e | Panic p \<Rightarrow> Panic p)"
      using intermediate_loop_cascade [of 0 h "?vs @ [None]" "xs ! e"] True h unfolding diff_zero t by simp
    show ?thesis
      using True c cascade_right_not_panic [of "take (h - 1) ?vs" "Some (xs ! e)"]
      unfolding g i by (cases "cascade_right (take (h - 1) ?vs) (Some (xs ! e))") auto
  next
    case False
    then show ?thesis
      using intermediate_loop_short [of 0 ?vs h "Some (xs ! e)"] unfolding g by auto
  qed
qed

text \<open>The hasher provides the intermediate hashes of its list, as the chain does.\<close>
interpretation hasher: intermediates getIntermediate
  "\<lambda>h xs. h = map Some xs \<and> (\<forall>x \<in> set xs. length x = 32)"
proof
  fix h :: hasher and xs :: "bytes list" and e k :: nat
  assume a: "h = map Some xs \<and> (\<forall>x \<in> set xs. length x = 32)" "e < length xs" "1 \<le> k"
  note i = intermediate_spine_nth [OF a(2,3)]
  {
    assume m: "e mod 2 ^ k = 2 ^ k - 1"
    then have "odd e" using a(3) ones_odd by blast
    then show "getIntermediate h (int e) (int k) =
      Ok (Some (level node (k - 1) xs ! (2 * (e div 2 ^ k))), Some (level node (k - 1) xs ! (2 * (e div 2 ^ k) + 1)))"
      using getIntermediate_spine [of xs e k] a i [of 0] m by auto
  next
    assume "odd e" "e mod 2 ^ k \<noteq> 2 ^ k - 1"
    then show "\<exists>msg. getIntermediate h (int e) (int k) = Err msg"
      using getIntermediate_spine [of xs e k] a i [of 0] by auto
  }
qed

lemma fold_AddToMerkleTree_Some: "fold AddToMerkleTree (map Some xs) m = add_all xs m"
  by (induction xs arbitrary: m) auto

lemma MerkleHash_mth: "xs \<noteq> [] \<Longrightarrow> MerkleHash (map Some xs) = Some (mth node xs)"
  using GetMDRoot_holds [OF holds_add_all [OF holds_new, of xs]]
  by (simp add: MerkleHash_def fold_AddToMerkleTree_Some)

lemma holds_PadPending: "holds xs m \<Longrightarrow> holds xs (PadPending m)"
  using PadPending_holds [of m xs] by (auto simp: holds_def simp del: replicate.simps)

lemma Hasher_Receipt_valid:
  assumes xs: "\<forall>x \<in> set xs. length x = 32" and s: "s \<le> e" "e < length xs"
  shows "\<exists>r. Hasher_Receipt (map Some xs) (int s) (int e) = Some (Ok (Some r)) \<and> Validate r
    \<and> Start r = Some (xs ! s) \<and> Anchor r = MerkleHash (map Some (take (Suc e) xs))"
proof -
  have ne: "take (Suc e) xs \<noteq> []" using s by auto
  show ?thesis
  proof (cases "length xs = 1")
    case True
    then obtain x where "xs = [x]" by (auto simp: length_Suc_conv)
    with s show ?thesis
      by (simp add: Hasher_Receipt_def new_Receipt_def Validate_def hash_Equal_def MerkleHash_mth [of "[x]", simplified])
  next
    case False
    let ?st = "PadPending (add_all (take (Suc e) xs) new_MerkleState)"
    let ?r = "new_Receipt \<lparr> StartIndex := int s, EndIndex := int e, Start := Some (xs ! s), Anchor := Some (xs ! s) \<rparr>"
    have st: "holds (take (Suc e) xs) ?st"
      using holds_add_all [OF holds_new, of "take (Suc e) xs"] holds_PadPending by simp
    obtain entries where b: "BuildReceiptWith (getIntermediate (map Some xs)) Sha256 ?st ?r =
        Some (Ok (?r \<lparr> Anchor := Some (mth node (take (Suc e) xs)), Entries := entries \<rparr>))"
      and f: "fold Apply entries (Some (xs ! s)) = Some (mth node (take (Suc e) xs))"
      using hasher.build_valid [OF _ s st, of "map Some xs" ?r] xs by (auto simp: new_Receipt_def)
    have t: "fold AddToMerkleTree (take (Suc e) (map Some xs)) new_MerkleState = add_all (take (Suc e) xs) new_MerkleState"
      by (simp add: take_map fold_AddToMerkleTree_Some)
    have "Hasher_Receipt (map Some xs) (int s) (int e) =
      Some (Ok (Some (?r \<lparr> Anchor := Some (mth node (take (Suc e) xs)), Entries := entries \<rparr>)))"
      using False s b by (simp add: Hasher_Receipt_def Let_def t)
    then show ?thesis
      using f MerkleHash_mth [OF ne] by (simp add: Validate_def hash_Equal_def new_Receipt_def)
  qed
qed

section \<open>Properties\<close>

text \<open>
  C23. The hash of a hasher is the Merkle tree hash of its values; the cascade with no height limit
  computes the pending list of the Merkle state the values are added to, and adding the values in
  two batches gives the same cascade as adding them at once.
\<close>
theorem MerkleHash_cascade:
  assumes "maxHeight < 0" "xs @ ys \<noteq> []"
  shows "MerkleHash (map Some (xs @ ys)) = Some (mth node (xs @ ys)) \<and>
    MerkleCascade [] (map Some (xs @ ys)) maxHeight = trim_pending (Pending (add_all (xs @ ys) new_MerkleState)) \<and>
    MerkleCascade (MerkleCascade [] (map Some xs) maxHeight) (map Some ys) maxHeight
      = MerkleCascade [] (map Some (xs @ ys)) maxHeight"
proof -
  have c: "MerkleCascade [] (map Some zs) maxHeight = spine node zs" for zs
    using MerkleCascade_unlimited [OF assms(1), of "[]" zs] by simp
  have "trim_pending (Pending (add_all (xs @ ys) new_MerkleState)) = spine node (xs @ ys)"
    using holds_add_all [OF holds_new, of "xs @ ys"] by (auto simp: holds_def trim_pending_spine)
  then show ?thesis
    using MerkleHash_mth [OF assms(2)] MerkleCascade_unlimited [OF assms(1), of xs ys] unfolding c by simp
qed

theorem MerkleHash_cascade_witness:
  "MerkleCascade (MerkleCascade [] [Some [1]] (-1)) [Some [2]] (-1) = MerkleCascade [] [Some [1], Some [2]] (-1)"
  using MerkleHash_cascade [of "-1" "[[1]]" "[[2]]"] by simp

text \<open>
  C16. The receipt of one value of a hasher against the hash of the values up to another one is
  produced and validates.
\<close>
theorem Hasher_Receipt_proves:
  assumes "\<forall>x \<in> set xs. length x = 32" "s \<le> e" "e < length xs"
  shows "\<exists>r. Hasher_Receipt (map Some xs) (int s) (int e) = Some (Ok (Some r)) \<and> Validate r
    \<and> Start r = Some (xs ! s) \<and> Anchor r = MerkleHash (map Some (take (Suc e) xs))"
  by (rule Hasher_Receipt_valid [OF assms])

theorem Hasher_Receipt_proves_witness:
  "\<exists>r. Hasher_Receipt [Some (replicate 32 1), Some (replicate 32 2)] 0 1 = Some (Ok (Some r)) \<and> Validate r"
  using Hasher_Receipt_proves [of "[replicate 32 1, replicate 32 2]" 0 1] by auto

end
