(* ===== verification/Sortutil.thy ===== *)
theory Sortutil
  imports Prelude
begin

text \<open>
  \<^verbatim>\<open>src/internal/sortutil/sort.go\<close>: binary search, insertion and removal on a sorted slice.
  The comparison the callers pass is abstracted by the locale \<open>keyed\<close>, in which insertion and
  search are shown to be those of a finite map kept as a list sorted by key. The components
  that keep a sorted slice interpret it.
\<close>

section \<open>The operations\<close>

text \<open>\<^verbatim>\<open>sort.Search\<close> of the standard library, from its loop state \<^term>\<open>i\<close>, \<^term>\<open>j\<close>.\<close>
function sort_search :: "(nat \<Rightarrow> bool) \<Rightarrow> nat \<Rightarrow> nat \<Rightarrow> nat" where
  "sort_search f i j = (if i < j then
     (let h = (i + j) div 2 in if \<not> f h then sort_search f (h + 1) j else sort_search f i h)
   else i)"
  by pat_completeness auto
termination
  by (relation "measure (\<lambda>(f, i, j). j - i)") auto

declare sort_search.simps [simp del]

definition Search :: "'a list \<Rightarrow> ('a \<Rightarrow> int) \<Rightarrow> nat \<times> bool" where
  "Search l cmp = (let i = sort_search (\<lambda>i. cmp (l ! i) \<ge> 0) 0 (length l)
     in if i \<ge> length l then (i, False) else (i, cmp (l ! i) = 0))"

text \<open>
  The result is the slice, the index of the entry whose address is returned, and whether the
  entry is new; a new entry holds the zero value of the type. The builtin \<^verbatim>\<open>copy\<close> moves the
  tail of the slice one place up.
\<close>
definition BinaryInsert :: "'a \<Rightarrow> 'a list \<Rightarrow> ('a \<Rightarrow> int) \<Rightarrow> 'a list \<times> nat \<times> bool" where
  "BinaryInsert zero l cmp = (let (i, found) = Search l cmp in
     if found then (l, i, False)
     else let l' = l @ [zero] in
       if i \<ge> length l' then (l', i, True)
       else let l'' = take (i + 1) l' @ take (length l' - (i + 1)) (drop i l')
         in (l''[i := zero], i, True))"

definition RemoveAt :: "'a list \<Rightarrow> nat \<Rightarrow> 'a list result" where
  "RemoveAt l i = (if i + 1 \<le> length l
     then (let l' = take i l @ drop (i + 1) l @ drop (length l - 1) l in Ok (take (length l - 1) l'))
     else Panic ''slice bounds out of range'')"

section \<open>Binary search\<close>

lemma sort_search_spec:
  assumes "\<And>a b. a \<le> b \<Longrightarrow> b < n \<Longrightarrow> f a \<Longrightarrow> f b"
    and "i \<le> j" "j \<le> n" "\<And>a. a < i \<Longrightarrow> \<not> f a" "\<And>a. j \<le> a \<Longrightarrow> a < n \<Longrightarrow> f a"
  shows "sort_search f i j \<le> j \<and> (\<forall>a < sort_search f i j. \<not> f a)
    \<and> (\<forall>a. sort_search f i j \<le> a \<longrightarrow> a < n \<longrightarrow> f a)"
  using assms
proof (induction f i j rule: sort_search.induct)
  case (1 f i j)
  show ?case
  proof (cases "i < j")
    case True
    let ?h = "(i + j) div 2"
    have h: "i \<le> ?h" "?h < j" using True by auto
    show ?thesis
    proof (cases "f ?h")
      case True
      have "sort_search f i ?h \<le> ?h \<and> (\<forall>a < sort_search f i ?h. \<not> f a)
        \<and> (\<forall>a. sort_search f i ?h \<le> a \<longrightarrow> a < n \<longrightarrow> f a)"
        using h True "1.prems" by (intro "1.IH"(2)) auto
      with True h show ?thesis
        using \<open>i < j\<close> by (subst (1 2 3) sort_search.simps) (auto simp: Let_def)
    next
      case False
      have "\<not> f a" if "a < ?h + 1" for a
        using that False h "1.prems"(1) [of a ?h] "1.prems"(3) by force
      then have "sort_search f (?h + 1) j \<le> j \<and> (\<forall>a < sort_search f (?h + 1) j. \<not> f a)
        \<and> (\<forall>a. sort_search f (?h + 1) j \<le> a \<longrightarrow> a < n \<longrightarrow> f a)"
        using h False "1.prems" by (intro "1.IH"(1)) auto
      with False show ?thesis
        using \<open>i < j\<close> by (subst (1 2 3) sort_search.simps) (auto simp: Let_def)
    qed
  next
    case False
    then show ?thesis using "1.prems" by (subst (1 2 3) sort_search.simps) auto
  qed
qed

text \<open>A search whose comparison goes from negative to not negative along the slice.\<close>
lemma Search_mono:
  assumes "\<forall>a b. a \<le> b \<longrightarrow> b < length l \<longrightarrow> 0 \<le> cmp (l ! a) \<longrightarrow> 0 \<le> cmp (l ! b)" "Search l cmp = (i, found)"
  shows "i \<le> length l" "a < i \<Longrightarrow> cmp (l ! a) < 0" "i \<le> a \<Longrightarrow> a < length l \<Longrightarrow> 0 \<le> cmp (l ! a)"
    "\<forall>e \<in> set (take i l). cmp e < 0" "\<forall>e \<in> set (drop i l). 0 \<le> cmp e"
    "found \<longleftrightarrow> i < length l \<and> cmp (l ! i) = 0"
proof -
  have i: "i = sort_search (\<lambda>i. cmp (l ! i) \<ge> 0) 0 (length l)"
    and f: "found \<longleftrightarrow> i < length l \<and> cmp (l ! i) = 0"
    using assms(2) by (auto simp: Search_def Let_def split: if_splits)
  have s: "i \<le> length l \<and> (\<forall>a < i. \<not> 0 \<le> cmp (l ! a)) \<and> (\<forall>a. i \<le> a \<longrightarrow> a < length l \<longrightarrow> 0 \<le> cmp (l ! a))"
    unfolding i using assms(1) by (intro sort_search_spec) auto
  then show "i \<le> length l" by (rule conjunct1)
  from s show lo: "a < i \<Longrightarrow> cmp (l ! a) < 0" and hi: "i \<le> a \<Longrightarrow> a < length l \<Longrightarrow> 0 \<le> cmp (l ! a)" for a
    by (simp_all add: not_le)
  show "\<forall>e \<in> set (take i l). cmp e < 0" using lo by (force simp: in_set_conv_nth)
  show "\<forall>e \<in> set (drop i l). 0 \<le> cmp e" using hi by (force simp: in_set_conv_nth)
  show "found \<longleftrightarrow> i < length l \<and> cmp (l ! i) = 0" by (rule f)
qed

lemma BinaryInsert_found:
  "Search l cmp = (i, True) \<Longrightarrow> BinaryInsert zero l cmp = (l, i, False)"
  by (simp add: BinaryInsert_def)

lemma BinaryInsert_new:
  assumes "Search l cmp = (i, False)" "i \<le> length l"
  shows "BinaryInsert zero l cmp = (take i l @ zero # drop i l, i, True)"
proof -
  have "take (i + 1) (l @ [zero]) @ take (length l - i) (drop i (l @ [zero]))
      = take (i + 1) (l @ [zero]) @ drop i l"
    using assms(2) by simp
  moreover have "take (i + 1) (l @ [zero]) = take i l @ [(l @ [zero]) ! i]"
    using take_Suc_conv_app_nth [of i "l @ [zero]"] assms(2) by simp
  ultimately show ?thesis
    using assms by (simp add: BinaryInsert_def Let_def list_update_append)
qed

lemma RemoveAt_spec:
  "i < length l \<Longrightarrow> RemoveAt l i = Ok (take i l @ drop (Suc i) l)"
  by (simp add: RemoveAt_def Let_def)

section \<open>Slices sorted by a key\<close>

locale keyed =
  fixes key :: "'a \<Rightarrow> 'k::linorder"
    and cmp :: "'k \<Rightarrow> 'a \<Rightarrow> int"
  assumes cmp_neg: "cmp k e < 0 \<longleftrightarrow> key e < k"
    and cmp_zero: "cmp k e = 0 \<longleftrightarrow> key e = k"
begin

text \<open>The entries are in strictly increasing order of their keys.\<close>
definition ordered :: "'a list \<Rightarrow> bool" where
  "ordered l \<longleftrightarrow> sorted_wrt (<) (map key l)"

definition lookup :: "'a list \<Rightarrow> 'k \<Rightarrow> 'a option" where
  "lookup l k = find (\<lambda>e. key e = k) l"

lemma cmp_nonneg: "0 \<le> cmp k e \<longleftrightarrow> k \<le> key e"
  using cmp_neg [of k e] by auto

lemma ordered_Nil [simp]: "ordered []"
  by (simp add: ordered_def)

lemma ordered_append:
  "ordered (xs @ ys) \<longleftrightarrow> ordered xs \<and> ordered ys \<and> (\<forall>x \<in> set xs. \<forall>y \<in> set ys. key x < key y)"
  by (simp add: ordered_def sorted_wrt_append)

lemma ordered_Cons:
  "ordered (x # ys) \<longleftrightarrow> ordered ys \<and> (\<forall>y \<in> set ys. key x < key y)"
  by (auto simp: ordered_def)

lemma ordered_less: "ordered l \<Longrightarrow> a < b \<Longrightarrow> b < length l \<Longrightarrow> key (l ! a) < key (l ! b)"
  by (auto simp: ordered_def sorted_wrt_iff_nth_less)

lemma ordered_distinct: "ordered l \<Longrightarrow> distinct (map key l)"
  by (auto simp: ordered_def strict_sorted_iff)

text \<open>The search splits the slice into the smaller keys and the others.\<close>
lemma Search_split:
  assumes "ordered l" "Search l (cmp k) = (i, found)"
  shows "i \<le> length l" "\<forall>e \<in> set (take i l). key e < k" "\<forall>e \<in> set (drop i l). k \<le> key e"
    "found \<longleftrightarrow> i < length l \<and> key (l ! i) = k"
proof -
  have "0 \<le> cmp k (l ! b)" if "a \<le> b" "b < length l" "0 \<le> cmp k (l ! a)" for a b
    using that ordered_less [OF assms(1), of a b]
    by (cases "a = b") (auto simp: cmp_nonneg)
  then have mono: "\<forall>a b. a \<le> b \<longrightarrow> b < length l \<longrightarrow> 0 \<le> cmp k (l ! a) \<longrightarrow> 0 \<le> cmp k (l ! b)" by blast
  note s = Search_mono [OF mono assms(2)]
  show "i \<le> length l" by (rule s(1))
  show "\<forall>e \<in> set (take i l). key e < k" using s(4) by (simp add: cmp_neg)
  show "\<forall>e \<in> set (drop i l). k \<le> key e" using s(5) by (simp add: cmp_nonneg)
  show "found \<longleftrightarrow> i < length l \<and> key (l ! i) = k" using s(6) by (simp add: cmp_zero)
qed

text \<open>The search of a key that several entries may have.\<close>
lemma Search_weak:
  assumes "sorted (map key l)"
  shows "snd (Search l (cmp k)) \<longleftrightarrow> k \<in> key ` set l"
proof -
  obtain i found where s: "Search l (cmp k) = (i, found)" by fastforce
  have mono: "key (l ! a) \<le> key (l ! b)" if "a \<le> b" "b < length l" for a b
    using sorted_nth_mono [OF assms that(1)] that by simp
  have "0 \<le> cmp k (l ! b)" if "a \<le> b" "b < length l" "0 \<le> cmp k (l ! a)" for a b
    using mono [OF that(1,2)] that(3) by (simp add: cmp_nonneg)
  then have "\<forall>a b. a \<le> b \<longrightarrow> b < length l \<longrightarrow> 0 \<le> cmp k (l ! a) \<longrightarrow> 0 \<le> cmp k (l ! b)" by blast
  note sm = Search_mono [OF this s]
  have lo: "a < i \<Longrightarrow> key (l ! a) < k" and hi: "i \<le> a \<Longrightarrow> a < length l \<Longrightarrow> k \<le> key (l ! a)" for a
    using sm(2,3) by (simp_all add: cmp_neg cmp_nonneg)
  have "i < length l \<and> key (l ! i) = k" if a: "a < length l" "key (l ! a) = k" for a
  proof -
    have "i \<le> a" using lo [of a] a(2) by (cases "a < i") simp_all
    then show ?thesis using a mono [of i a] hi [of i] by simp
  qed
  then have "k \<in> key ` set l \<longleftrightarrow> i < length l \<and> key (l ! i) = k"
    unfolding set_conv_nth by auto
  then show ?thesis using sm(6) by (simp add: s cmp_zero)
qed

lemma Search_found_iff:
  assumes "ordered l" "Search l (cmp k) = (i, found)"
  shows "found \<longleftrightarrow> k \<in> key ` set l"
proof
  show "found \<Longrightarrow> k \<in> key ` set l"
    using Search_split(4) [OF assms] by (metis imageI nth_mem)
next
  assume "k \<in> key ` set l"
  then obtain e where e: "e \<in> set l" "key e = k" by auto
  have "e \<in> set (take i l) \<or> e \<in> set (drop i l)"
    using e(1) by (metis append_take_drop_id in_set_conv_decomp set_append Un_iff)
  then have d: "e \<in> set (drop i l)"
    using Search_split(2) [OF assms] e(2) by auto
  then have il: "i < length l" by (cases "i < length l") auto
  then have "drop i l = l ! i # drop (Suc i) l" by (simp add: Cons_nth_drop_Suc)
  moreover have "ordered (drop i l)"
    using assms(1) ordered_append [of "take i l" "drop i l"] by simp
  ultimately have "key (l ! i) \<le> key e"
    using d by (auto simp: ordered_Cons)
  moreover have "k \<le> key (l ! i)"
    using Search_split(3) [OF assms] il \<open>drop i l = _\<close> by simp
  ultimately show found
    using e(2) il Search_split(4) [OF assms] by auto
qed

lemma lookup_append: "lookup (xs @ ys) k = (case lookup xs k of None \<Rightarrow> lookup ys k | Some x \<Rightarrow> Some x)"
  by (induction xs) (auto simp: lookup_def)

lemma lookup_None_iff: "lookup l k = None \<longleftrightarrow> k \<notin> key ` set l"
  by (auto simp: lookup_def find_None_iff)

lemma lookup_Cons [simp]: "lookup (x # xs) k = (if key x = k then Some x else lookup xs k)"
  by (simp add: lookup_def)

lemma lookup_Nil [simp]: "lookup [] k = None"
  by (simp add: lookup_def)

lemma lookup_Some: "ordered l \<Longrightarrow> lookup l k = Some e \<longleftrightarrow> e \<in> set l \<and> key e = k"
  by (induction l) (auto simp: ordered_Cons)

lemma lookup_Search:
  assumes "ordered l" "Search l (cmp k) = (i, found)"
  shows "lookup l k = (if found then Some (l ! i) else None)"
  using Search_found_iff [OF assms] Search_split(4) [OF assms] lookup_Some [OF assms(1)]
  by (auto simp: lookup_None_iff)

text \<open>The slice around the searched key: the smaller keys, the entry if there is one, the larger keys.\<close>
lemma Search_decomp:
  assumes "ordered l" "Search l (cmp k) = (i, found)"
  obtains xs m ys where "l = xs @ m @ ys" "i = length xs" "length m = of_bool found"
    "\<forall>e \<in> set m. key e = k" "\<forall>e \<in> set xs. key e < k" "\<forall>e \<in> set ys. k < key e"
    "ordered xs" "ordered ys"
proof -
  note sp = Search_split [OF assms] and fi = Search_found_iff [OF assms]
  define m where "m = (if found then [l ! i] else [])"
  define ys where "ys = drop (i + length m) l"
  have l: "l = take i l @ m @ ys"
    using sp by (auto simp: m_def ys_def Cons_nth_drop_Suc)
  have km: "\<forall>e \<in> set m. key e = k" using sp(4) by (auto simp: m_def)
  have o: "ordered (take i l)" "ordered (m @ ys)"
    using assms(1) ordered_append [of "take i l" "drop i l"] sp
    by (auto simp: m_def ys_def Cons_nth_drop_Suc split: if_splits)
  have "k < key e" if e: "e \<in> set ys" for e
  proof (cases found)
    case True
    then show ?thesis using o(2) e km by (auto simp: m_def ordered_Cons)
  next
    case False
    then have "key e \<noteq> k" using fi e by (auto simp: ys_def dest: in_set_dropD)
    moreover have "k \<le> key e" using sp(3) e False by (auto simp: ys_def m_def)
    ultimately show ?thesis by simp
  qed
  moreover have "ordered ys" using o(2) by (simp add: ordered_append)
  ultimately show ?thesis
    using o(1) sp(1,2) km by (intro that [OF l]) (auto simp: m_def)
qed

text \<open>
  Writing the entry whose address \<^const>\<open>BinaryInsert\<close> returns: the slice stays ordered, and the
  lookup is that of the updated map.
\<close>
lemma BinaryInsert_put:
  assumes "ordered l" "BinaryInsert zero l (cmp k) = (l', i, added)" "key x = k"
  shows "ordered (l'[i := x])" "lookup (l'[i := x]) = (lookup l)(k \<mapsto> x)"
    "set (l'[i := x]) = insert x {e \<in> set l. key e \<noteq> k}" "added \<longleftrightarrow> k \<notin> key ` set l" "i < length l'"
proof -
  obtain n found where s: "Search l (cmp k) = (n, found)" by fastforce
  from Search_decomp [OF assms(1) s] obtain xs m ys where
    d: "l = xs @ m @ ys" "n = length xs" "length m = of_bool found"
      "\<forall>e \<in> set m. key e = k" "\<forall>e \<in> set xs. key e < k" "\<forall>e \<in> set ys. k < key e"
      "ordered xs" "ordered ys" .
  have "l'[i := x] = xs @ x # ys \<and> i < length l' \<and> (added \<longleftrightarrow> \<not> found)"
  proof (cases found)
    case True
    with d(3) obtain e where "m = [e]" by (auto simp: length_Suc_conv)
    with True show ?thesis
      using assms(2) BinaryInsert_found [of l "cmp k" n zero] s d(1,2) by auto
  next
    case False
    then have "m = []" using d(3) by simp
    with False show ?thesis
      using assms(2) BinaryInsert_new [of l "cmp k" n zero] s d(1,2) by auto
  qed
  then have r: "l'[i := x] = xs @ x # ys" and i: "i < length l'" and a: "added \<longleftrightarrow> \<not> found"
    by simp_all
  show "ordered (l'[i := x])"
    using d(5-8) assms(3) by (fastforce simp: r ordered_append ordered_Cons)
  have "lookup xs k = None" "lookup ys k = None" using d(5,6) by (auto simp: lookup_None_iff)
  moreover have "lookup m k' = None" if "k' \<noteq> k" for k' using that d(4) by (auto simp: lookup_None_iff)
  ultimately show "lookup (l'[i := x]) = (lookup l)(k \<mapsto> x)"
    using assms(3) by (auto simp: r d(1) lookup_append split: option.splits)
  show "set (l'[i := x]) = insert x {e \<in> set l. key e \<noteq> k}"
    using d(4-6) by (auto simp: r d(1))
  show "added \<longleftrightarrow> k \<notin> key ` set l" using a Search_found_iff [OF assms(1) s] by simp
  show "i < length l'" by (rule i)
qed

lemma RemoveAt_Search:
  assumes "ordered l" "Search l (cmp k) = (i, True)"
  shows "\<exists>l'. RemoveAt l i = Ok l' \<and> ordered l' \<and> lookup l' = (lookup l)(k := None)
    \<and> set l' = {e \<in> set l. key e \<noteq> k}"
proof -
  from Search_decomp [OF assms] obtain xs m ys where
    d: "l = xs @ m @ ys" "i = length xs" "length m = 1"
      "\<forall>e \<in> set m. key e = k" "\<forall>e \<in> set xs. key e < k" "\<forall>e \<in> set ys. k < key e"
      "ordered xs" "ordered ys" by (metis of_bool_eq(2))
  from d(3) obtain e where m: "m = [e]" by (auto simp: length_Suc_conv)
  have "RemoveAt l i = Ok (xs @ ys)"
    using RemoveAt_spec [of i l] d(1,2) m by simp
  moreover have "ordered (xs @ ys)" using d(5-8) by (fastforce simp: ordered_append)
  moreover have "lookup xs k = None" "lookup ys k = None" using d(5,6) by (auto simp: lookup_None_iff)
  then have "lookup (xs @ ys) = (lookup l)(k := None)"
    using d(4) m by (auto simp: d(1) lookup_append split: option.splits)
  moreover have "set (xs @ ys) = {e \<in> set l. key e \<noteq> k}"
    using d(4-6) by (auto simp: d(1))
  ultimately show ?thesis by blast
qed

lemma remove_Search:
  assumes "ordered l" "Search l (cmp k) = (i, True)"
  shows "i < length l" "ordered (take i l @ drop (Suc i) l)"
    "lookup (take i l @ drop (Suc i) l) = (lookup l)(k := None)"
    "set (take i l @ drop (Suc i) l) = {e \<in> set l. key e \<noteq> k}"
proof -
  show i: "i < length l" using Search_split(4) [OF assms] by simp
  obtain l' where l': "RemoveAt l i = Ok l'" "ordered l'" "lookup l' = (lookup l)(k := None)" "set l' = {e \<in> set l. key e \<noteq> k}"
    using RemoveAt_Search [OF assms] by blast
  have "l' = take i l @ drop (Suc i) l" using l'(1) RemoveAt_spec [OF i] by simp
  then show "ordered (take i l @ drop (Suc i) l)" "lookup (take i l @ drop (Suc i) l) = (lookup l)(k := None)"
    "set (take i l @ drop (Suc i) l) = {e \<in> set l. key e \<noteq> k}"
    using l'(2-4) by simp_all
qed

end

text \<open>The three-way comparison by a key gives such a slice.\<close>
lemma keyed_cmp3: "keyed key (\<lambda>k e. cmp3 (key e) k)"
  by unfold_locales simp_all

end
