(* ===== verification/Url.thy ===== *)
theory Url
  imports Sha256 Sortutil
begin

text \<open>
  \<^verbatim>\<open>src/pkg/url\<close>: Accumulate URLs and transaction identifiers. A string is the list of its
  bytes. The case mapping and case folding of the standard library are those of ASCII. The memo
  fields only cache what the functions return and are left out. \<^verbatim>\<open>Parse\<close>, which is the parser
  of \<^verbatim>\<open>net/url\<close>, is not modelled.
\<close>

section \<open>Standard library\<close>

definition in_range :: "char \<Rightarrow> char \<Rightarrow> char \<Rightarrow> bool" where
  "in_range lo hi c \<longleftrightarrow> lo \<le> c \<and> c \<le> hi"

definition is_digit :: "char \<Rightarrow> bool" where
  "is_digit = in_range CHR ''0'' CHR ''9''"

definition is_upper :: "char \<Rightarrow> bool" where
  "is_upper = in_range CHR ''A'' CHR ''Z''"

definition is_letter :: "char \<Rightarrow> bool" where
  "is_letter c \<longleftrightarrow> is_upper c \<or> in_range CHR ''a'' CHR ''z'' c"

text \<open>\<^verbatim>\<open>strings.ToLower\<close>, \<^verbatim>\<open>EqualFold\<close>, \<^verbatim>\<open>Trim\<close>, \<^verbatim>\<open>TrimSuffix\<close> on ASCII.\<close>
definition lower_char :: "char \<Rightarrow> char" where
  "lower_char c = (if is_upper c then char_of (of_char c + 32 :: nat) else c)"

definition ToLower :: "string \<Rightarrow> string" where
  "ToLower s = map lower_char s"

definition EqualFold :: "string \<Rightarrow> string \<Rightarrow> bool" where
  "EqualFold s t \<longleftrightarrow> ToLower s = ToLower t"

abbreviation slash :: char where "slash \<equiv> CHR ''/''"

definition Trim_slash :: "string \<Rightarrow> string" where
  "Trim_slash s = rev (dropWhile (\<lambda>c. c = slash) (rev (dropWhile (\<lambda>c. c = slash) s)))"

definition TrimSuffix_slash :: "string \<Rightarrow> string" where
  "TrimSuffix_slash s = (if s \<noteq> [] \<and> last s = slash then butlast s else s)"

text \<open>\<^verbatim>\<open>s[:strings.LastIndex(s, "/")]\<close>, or \<^term>\<open>None\<close> when there is no slash.\<close>
definition before_last_slash :: "string \<Rightarrow> string option" where
  "before_last_slash s = (if slash \<in> set s
     then Some (butlast (rev (dropWhile (\<lambda>c. c \<noteq> slash) (rev s)))) else None)"

text \<open>\<^verbatim>\<open>encoding/hex\<close>.\<close>
definition hex_digits :: string where
  "hex_digits = ''0123456789abcdef''"

definition hex_EncodeToString :: "bytes \<Rightarrow> string" where
  "hex_EncodeToString b = concat (map (\<lambda>x. [hex_digits ! (unat x div 16), hex_digits ! (unat x mod 16)]) b)"

definition hex_value :: "char \<Rightarrow> nat option" where
  "hex_value c = (if is_digit c then Some (of_char c - 48)
     else if in_range CHR ''a'' CHR ''f'' c then Some (of_char c - 87)
     else if in_range CHR ''A'' CHR ''F'' c then Some (of_char c - 55) else None)"

fun hex_DecodeString :: "string \<Rightarrow> bytes option" where
  "hex_DecodeString [] = Some []"
| "hex_DecodeString [_] = None"
| "hex_DecodeString (a # b # s) = (case (hex_value a, hex_value b, hex_DecodeString s) of
     (Some x, Some y, Some r) \<Rightarrow> Some (word_of_nat (16 * x + y) # r) | _ \<Rightarrow> None)"

text \<open>\<^verbatim>\<open>net/url.PathEscape\<close>: which bytes are kept, and the escape of the others.\<close>
definition path_safe :: "char \<Rightarrow> bool" where
  "path_safe c \<longleftrightarrow> is_letter c \<or> is_digit c \<or> c \<in> set ''-_.~$&+:=@''"

definition upper_hex :: string where
  "upper_hex = ''0123456789ABCDEF''"

definition PathEscape :: "string \<Rightarrow> string" where
  "PathEscape s = concat (map (\<lambda>c. if path_safe c then [c]
     else [CHR ''%'', upper_hex ! (of_char c div 16), upper_hex ! (of_char c mod 16)]) s)"

text \<open>\<^verbatim>\<open>path.Join\<close> and \<^verbatim>\<open>path.Clean\<close>, on the elements between the slashes.\<close>
fun split_slash :: "string \<Rightarrow> string list" where
  "split_slash [] = [[]]"
| "split_slash (c # s) = (if c = slash then [] # split_slash s
     else (case split_slash s of [] \<Rightarrow> [[c]] | p # ps \<Rightarrow> (c # p) # ps))"

fun join_slash :: "string list \<Rightarrow> string" where
  "join_slash [] = []"
| "join_slash [p] = p"
| "join_slash (p # ps) = p @ slash # join_slash ps"

text \<open>The elements kept, the last one first.\<close>
definition clean_step :: "bool \<Rightarrow> string \<Rightarrow> string list \<Rightarrow> string list" where
  "clean_step rooted p out =
     (if p = [] \<or> p = ''.'' then out
      else if p = ''..'' then (case out of
          [] \<Rightarrow> if rooted then [] else [p]
        | q # qs \<Rightarrow> if q = ''..'' then p # out else qs)
      else p # out)"

definition path_Clean :: "string \<Rightarrow> string" where
  "path_Clean s = (if s = [] then ''.''
     else let rooted = (hd s = slash);
              out = rev (fold (clean_step rooted) (split_slash s) []);
              r = (if rooted then [slash] else []) @ join_slash out
          in if r = [] then ''.'' else r)"

definition path_Join :: "string list \<Rightarrow> string" where
  "path_Join es = (case dropWhile (\<lambda>e. e = []) es of [] \<Rightarrow> [] | fs \<Rightarrow> path_Clean (join_slash fs))"

section \<open>URLs\<close>

record URL =
  UserInfo :: string
  Authority :: string
  Path :: string
  Query :: string
  Fragment :: string

definition new_URL :: URL where
  "new_URL = \<lparr> UserInfo = [], Authority = [], Path = [], Query = [], Fragment = [] \<rparr>"

definition splitColon :: "string \<Rightarrow> string \<times> string" where
  "splitColon s = (takeWhile (\<lambda>c. c \<noteq> CHR '':'') s, tl (dropWhile (\<lambda>c. c \<noteq> CHR '':'') s))"

definition WithUserInfo :: "string \<Rightarrow> URL \<Rightarrow> URL" where
  "WithUserInfo s u = u \<lparr> UserInfo := s \<rparr>"

definition WithAuthority :: "string \<Rightarrow> URL \<Rightarrow> URL" where
  "WithAuthority s u = u \<lparr> Authority := s \<rparr>"

definition WithPath :: "string \<Rightarrow> URL \<Rightarrow> URL" where
  "WithPath s u = u \<lparr> Path := s \<rparr>"

definition WithQuery :: "string \<Rightarrow> URL \<Rightarrow> URL" where
  "WithQuery s u = u \<lparr> Query := s \<rparr>"

definition WithFragment :: "string \<Rightarrow> URL \<Rightarrow> URL" where
  "WithFragment s u = u \<lparr> Fragment := s \<rparr>"

definition normalizePath :: "string \<Rightarrow> string" where
  "normalizePath s = (let s = Trim_slash s in if s = [] then [] else slash # s)"

text \<open>The loop of \<^verbatim>\<open>format\<close> over the path, each turn of it one element.\<close>
function format_path :: "bool \<Rightarrow> string \<Rightarrow> string" where
  "format_path encode p = (if p = [] then [] else
     (let seg = takeWhile (\<lambda>c. c \<noteq> slash) (tl p); rest = dropWhile (\<lambda>c. c \<noteq> slash) (tl p)
      in slash # (if encode then PathEscape seg else seg) @ (if rest = [] then [] else format_path encode rest)))"
  by pat_completeness auto
termination
  by (relation "measure (\<lambda>(e, p). length p)") (auto simp: neq_Nil_conv less_Suc_eq_le length_dropWhile_le)

declare format_path.simps [simp del]

definition format :: "URL \<Rightarrow> slice \<Rightarrow> bool \<Rightarrow> string" where
  "format u txid encode = ''acc://'' @
     (case txid of Some h \<Rightarrow> hex_EncodeToString h @ ''@''
      | None \<Rightarrow> if UserInfo u \<noteq> [] then UserInfo u @ ''@'' else []) @
     Authority u @ format_path encode (normalizePath (Path u)) @
     (if Query u \<noteq> [] then CHR ''?'' # Query u else []) @
     (if Fragment u \<noteq> [] then CHR ''#'' # Fragment u else [])"

definition String :: "URL \<Rightarrow> string" where
  "String u = format u None True"

definition RawString :: "URL \<Rightarrow> string" where
  "RawString u = format u None False"

definition ShortString :: "URL \<Rightarrow> string" where
  "ShortString u = drop 6 (String u)"

definition URL_Compare :: "URL \<Rightarrow> URL \<Rightarrow> int" where
  "URL_Compare u v = cmp3 (ToLower (String u)) (ToLower (String v))"

definition URL_Equal :: "URL \<Rightarrow> URL \<Rightarrow> bool" where
  "URL_Equal u v \<longleftrightarrow> EqualFold (String u) (String v)"

definition PathEqual :: "URL \<Rightarrow> string \<Rightarrow> bool" where
  "PathEqual u v \<longleftrightarrow> EqualFold (Trim_slash (Path u)) (Trim_slash v)"

definition Hostname :: "URL \<Rightarrow> string" where
  "Hostname u = fst (splitColon (Authority u))"

definition Port :: "URL \<Rightarrow> string" where
  "Port u = snd (splitColon (Authority u))"

definition Username :: "URL \<Rightarrow> string" where
  "Username u = fst (splitColon (UserInfo u))"

definition Password :: "URL \<Rightarrow> string" where
  "Password u = snd (splitColon (UserInfo u))"

definition url_id :: "string \<Rightarrow> bytes" where
  "url_id s = sha256 (string_bytes (ToLower s))"

definition concatId :: "bytes list \<Rightarrow> bytes" where
  "concatId ids = sha256 (concat ids)"

definition RootIdentity :: "URL \<Rightarrow> URL" where
  "RootIdentity u = new_URL \<lparr> Authority := Authority u, UserInfo := UserInfo u \<rparr>"

definition IsRootIdentity :: "URL \<Rightarrow> bool" where
  "IsRootIdentity u \<longleftrightarrow> Path u = [] \<or> Path u = ''/''"

definition Parent :: "URL \<Rightarrow> URL \<times> bool" where
  "Parent u = (let v = new_URL \<lparr> UserInfo := UserInfo u, Authority := Authority u,
                 Path := TrimSuffix_slash (Path u) \<rparr>
     in if Path v = [] then (v, False)
        else case before_last_slash (Path v) of
            None \<Rightarrow> (v \<lparr> Path := [] \<rparr>, True)
          | Some p \<Rightarrow> (v \<lparr> Path := p \<rparr>, True))"

definition Identity :: "URL \<Rightarrow> URL" where
  "Identity u = fst (Parent u)"

definition ParentOf :: "URL \<Rightarrow> URL \<Rightarrow> bool" where
  "ParentOf u v \<longleftrightarrow> (let (w, ok) = Parent v in ok \<and> URL_Equal u w)"

lemma length_before_last_slash: "before_last_slash s = Some p \<Longrightarrow> length p < length s"
proof -
  assume "before_last_slash s = Some p"
  then have "p = butlast (rev (dropWhile (\<lambda>c. c \<noteq> slash) (rev s)))" "s \<noteq> []"
    by (auto simp: before_last_slash_def split: if_splits)
  moreover have "length (dropWhile (\<lambda>c. c \<noteq> slash) (rev s)) \<le> length (rev s)" by (rule length_dropWhile_le)
  ultimately show ?thesis by (cases s) (auto simp: le_imp_less_Suc)
qed

lemma Parent_shorter: "Parent u = (v, True) \<Longrightarrow> length (Path v) < length (Path u)"
  by (auto simp: Parent_def Let_def TrimSuffix_slash_def split: if_splits option.splits
      dest!: length_before_last_slash)

text \<open>The loop of \<^verbatim>\<open>PrefixOf\<close> up the ancestors of \<^term>\<open>v\<close>.\<close>
function prefix_loop :: "URL \<Rightarrow> URL \<Rightarrow> bool" where
  "prefix_loop u v = (case Parent v of (w, ok) \<Rightarrow>
     if \<not> ok then False else if URL_Equal u w then True else prefix_loop u w)"
  by pat_completeness auto
termination
  by (relation "measure (\<lambda>(u, v). length (Path v))") (auto simp: Parent_shorter)

declare prefix_loop.simps [simp del]

definition PrefixOf :: "URL \<Rightarrow> URL \<Rightarrow> bool" where
  "PrefixOf u v \<longleftrightarrow>
     (if \<not> EqualFold (Authority u) (Authority v) then False
      else if length (Path u) > length (Path v) then False
      else prefix_loop u v)"

definition LocalTo :: "URL \<Rightarrow> URL \<Rightarrow> bool" where
  "LocalTo u v \<longleftrightarrow> URL_Equal (RootIdentity u) (RootIdentity v)"

definition IdentityAccountID32 :: "URL \<Rightarrow> bytes" where
  "IdentityAccountID32 u = url_id (Hostname u)"

definition AccountID32 :: "URL \<Rightarrow> bytes" where
  "AccountID32 u = url_id (Hostname u @ normalizePath (Path u))"

definition Routing :: "URL \<Rightarrow> 64 word" where
  "Routing u = word_of_nat (foldl (\<lambda>n x. 256 * n + unat x) 0 (take 8 (IdentityAccountID32 u)))"

definition Hash32 :: "URL \<Rightarrow> bytes" where
  "Hash32 u = (let hash = AccountID32 u;
     hash = (if Query u \<noteq> [] then concatId [hash, url_id (Query u)] else hash)
     in if Fragment u \<noteq> [] then concatId [hash, url_id (Fragment u)] else hash)"

definition JoinPath :: "string list \<Rightarrow> URL \<Rightarrow> URL" where
  "JoinPath s u = (if s = [] then u else
     let p = (if Path u = [] then ''/'' else Path u) in u \<lparr> Path := path_Join (p # s) \<rparr>)"

section \<open>Transaction identifiers\<close>

record TxID =
  tx_url :: URL
  tx_hash :: bytes

abbreviation "ErrMissingHash \<equiv> Plain ''missing hash''"
abbreviation "ErrInvalidHash \<equiv> Plain ''invalid hash''"

definition AsTxID :: "URL \<Rightarrow> TxID result" where
  "AsTxID u = (if UserInfo u = [] then Err ErrMissingHash
     else case hex_DecodeString (UserInfo u) of
         None \<Rightarrow> Err ErrInvalidHash
       | Some hash \<Rightarrow> if length hash \<noteq> 32 then Err ErrInvalidHash
           else Ok \<lparr> tx_url = WithUserInfo [] u, tx_hash = hash \<rparr>)"

definition WithTxID :: "URL \<Rightarrow> bytes \<Rightarrow> TxID" where
  "WithTxID u hash = \<lparr> tx_url = u, tx_hash = hash \<rparr>"

definition AsUrl :: "TxID \<Rightarrow> URL" where
  "AsUrl x = (tx_url x) \<lparr> UserInfo := hex_EncodeToString (tx_hash x) \<rparr>"

definition TxID_Equal :: "TxID \<Rightarrow> TxID \<Rightarrow> bool" where
  "TxID_Equal x y \<longleftrightarrow> tx_hash x = tx_hash y \<and> URL_Equal (tx_url x) (tx_url y)"

definition TxID_Compare :: "TxID \<Rightarrow> TxID \<Rightarrow> int" where
  "TxID_Compare x y = (if tx_hash x \<noteq> tx_hash y then cmp3 (tx_hash x) (tx_hash y)
     else URL_Compare (tx_url x) (tx_url y))"

definition TxID_String :: "TxID \<Rightarrow> string" where
  "TxID_String x = format (tx_url x) (Some (tx_hash x)) True"

definition TxID_RawString :: "TxID \<Rightarrow> string" where
  "TxID_RawString x = format (tx_url x) (Some (tx_hash x)) False"

definition TxID_ShortString :: "TxID \<Rightarrow> string" where
  "TxID_ShortString x = drop 6 (TxID_String x)"

section \<open>Case and hexadecimal\<close>

lemma ToLower_append [simp]: "ToLower (s @ t) = ToLower s @ ToLower t"
  by (simp add: ToLower_def)

lemma ToLower_simps [simp]: "ToLower [] = []" "ToLower (c # s) = lower_char c # ToLower s"
  by (simp_all add: ToLower_def)

lemma lower_char_special:
  "of_char c < (65 :: nat) \<Longrightarrow> lower_char d = c \<longleftrightarrow> d = c"
proof
  assume c: "of_char c < (65 :: nat)" "lower_char d = c"
  show "d = c"
  proof (cases "is_upper d")
    case True
    then have "(65 :: nat) \<le> of_char d" "of_char d \<le> (90 :: nat)"
      by (simp_all add: is_upper_def in_range_def less_eq_char_def)
    then have "of_char (lower_char d) = (of_char d + 32 :: nat)" using True by (simp add: lower_char_def)
    with c show ?thesis using \<open>(65 :: nat) \<le> of_char d\<close> by simp
  qed (use c in \<open>auto simp: lower_char_def\<close>)
next
  assume "of_char c < (65 :: nat)" "d = c"
  then show "lower_char d = c" by (simp add: lower_char_def is_upper_def in_range_def less_eq_char_def)
qed

lemma takeWhile_ToLower:
  "of_char c < (65 :: nat) \<Longrightarrow> takeWhile (\<lambda>d. d \<noteq> c) (ToLower s) = ToLower (takeWhile (\<lambda>d. d \<noteq> c) s)"
  by (simp add: ToLower_def takeWhile_map comp_def lower_char_special)

lemma in_ToLower: "of_char c < (65 :: nat) \<Longrightarrow> c \<in> set (ToLower s) \<longleftrightarrow> c \<in> set s"
  using lower_char_special by (force simp: ToLower_def)

lemma ToLower_Hostname: "ToLower (Authority u) = ToLower (Authority v) \<Longrightarrow> ToLower (Hostname u) = ToLower (Hostname v)"
  using takeWhile_ToLower [of "CHR '':''" "Authority u"] takeWhile_ToLower [of "CHR '':''" "Authority v"]
  by (simp add: Hostname_def splitColon_def)

lemma hex_value_digit: "n < 16 \<Longrightarrow> hex_value (hex_digits ! n) = Some n"
proof -
  have "list_all (\<lambda>n. hex_value (hex_digits ! n) = Some n) [0..<16]" by code_simp
  then show "n < 16 \<Longrightarrow> hex_value (hex_digits ! n) = Some n" by (simp add: list_all_iff)
qed

lemma hex_Decode_Encode [codec]: "hex_DecodeString (hex_EncodeToString b) = Some b"
proof (induction b)
  case (Cons x b)
  have "unat x < 256" using unsigned_less [of x, where ?'a = nat] by simp
  then have "hex_value (hex_digits ! (unat x div 16)) = Some (unat x div 16)" by (intro hex_value_digit) auto
  moreover have "hex_value (hex_digits ! (unat x mod 16)) = Some (unat x mod 16)" by (intro hex_value_digit) auto
  ultimately show ?case using Cons by (simp add: hex_EncodeToString_def)
qed (simp add: hex_EncodeToString_def)

section \<open>Paths\<close>

text \<open>An element that a path can have: not empty, no slash, and not one that cleaning removes.\<close>
definition segment_ok :: "string \<Rightarrow> bool" where
  "segment_ok s \<longleftrightarrow> s \<noteq> [] \<and> slash \<notin> set s \<and> s \<noteq> ''.'' \<and> s \<noteq> ''..''"

text \<open>The path with the given elements.\<close>
definition path_of :: "string list \<Rightarrow> string" where
  "path_of ps = concat (map ((#) slash) ps)"

lemma path_of_append [simp]: "path_of (ps @ qs) = path_of ps @ path_of qs"
  by (simp add: path_of_def)

lemma path_of_Nil [simp]: "path_of [] = []"
  by (simp add: path_of_def)

lemma path_of_Cons [simp]: "path_of (p # ps) = slash # p @ path_of ps"
  by (simp add: path_of_def)

lemma join_slash_Cons: "join_slash (p # ps) = p @ path_of ps"
  by (induction ps arbitrary: p) auto

lemma split_slash_ne [simp]: "split_slash s \<noteq> []"
  by (induction s) (auto split: list.splits)

lemma split_slash_append: "split_slash (a @ slash # b) = split_slash a @ split_slash b"
proof (induction a)
  case (Cons c a)
  then show ?case by (cases "split_slash a") auto
qed simp

lemma split_slash_segment: "slash \<notin> set s \<Longrightarrow> split_slash s = [s]"
  by (induction s) auto

lemma split_slash_path: "\<forall>p \<in> set ps. slash \<notin> set p \<Longrightarrow> split_slash (a @ path_of ps) = split_slash a @ ps"
proof (induction ps arbitrary: a)
  case (Cons p ps)
  have "split_slash (a @ path_of (p # ps)) = split_slash ((a @ slash # p) @ path_of ps)" by simp
  also have "\<dots> = split_slash (a @ slash # p) @ ps" using Cons by (intro Cons.IH) simp
  finally show ?case using Cons.prems by (simp add: split_slash_append split_slash_segment)
qed simp

lemma fold_clean_ok:
  "\<forall>p \<in> set ps. segment_ok p \<Longrightarrow> fold (clean_step r) ps out = rev ps @ out"
  by (induction ps arbitrary: out) (auto simp: clean_step_def segment_ok_def)

lemma JoinPath_path_of:
  assumes "\<forall>p \<in> set (ps @ ss). segment_ok p" "ss \<noteq> []" "Path u = path_of ps"
  shows "Path (JoinPath ss u) = path_of (ps @ ss)"
proof -
  let ?p = "if Path u = [] then ''/'' else Path u"
  have ns: "\<forall>p \<in> set (ps @ ss). slash \<notin> set p" using assms(1) by (auto simp: segment_ok_def)
  have sp: "split_slash ?p = (if ps = [] then [[], []] else [] # ps)"
    using ns assms(3) split_slash_path [of ps "[]"] by (cases ps) simp_all
  have h: "?p \<noteq> []" "hd ?p = slash" using assms(3) by (cases ps; simp)+
  have "split_slash (?p @ path_of ss) = split_slash ?p @ ss" using ns by (intro split_slash_path) simp
  then have "fold (clean_step True) (split_slash (?p @ path_of ss)) [] = rev (ps @ ss)"
    using sp fold_clean_ok [of "ps @ ss" True "[]"] assms(1)
    by (auto simp: clean_step_def [of _ "[]"])
  then have "path_Clean (?p @ path_of ss) = slash # join_slash (ps @ ss)"
    using h by (simp add: path_Clean_def)
  also have "\<dots> = path_of (ps @ ss)"
    using assms(2) by (cases "ps @ ss") (simp_all add: join_slash_Cons flip: path_of_append)
  finally show ?thesis using h assms(2) by (simp add: JoinPath_def path_Join_def join_slash_Cons Let_def)
qed

lemma before_last_slash_segment: "slash \<notin> set s \<Longrightarrow> before_last_slash (a @ slash # s) = Some a"
proof -
  assume "slash \<notin> set s"
  then have "dropWhile (\<lambda>c. c \<noteq> slash) (rev s @ slash # rev a) = slash # rev a"
    by (subst dropWhile_append2) auto
  then show ?thesis by (simp add: before_last_slash_def)
qed

text \<open>The URL that the accounts below it have as an ancestor.\<close>
definition plain :: "URL \<Rightarrow> URL" where
  "plain u = new_URL \<lparr> UserInfo := UserInfo u, Authority := Authority u, Path := Path u \<rparr>"

lemma Parent_path_of:
  assumes "segment_ok s" "Path u = path_of (ps @ [s])"
  shows "Parent u = (plain u \<lparr> Path := path_of ps \<rparr>, True)"
proof -
  have "TrimSuffix_slash (Path u) = path_of ps @ slash # s"
    using assms by (auto simp: TrimSuffix_slash_def segment_ok_def dest: last_in_set)
  moreover have "before_last_slash (path_of ps @ slash # s) = Some (path_of ps)"
    using assms(1) by (simp add: before_last_slash_segment segment_ok_def)
  ultimately show ?thesis by (simp add: Parent_def Let_def plain_def new_URL_def)
qed

lemma prefix_loop_path_of:
  assumes "\<forall>p \<in> set ss. segment_ok p" "ss \<noteq> []" "Path v = path_of (ps @ ss)"
    "URL_Equal u (plain v \<lparr> Path := path_of ps \<rparr>)"
  shows "prefix_loop u v"
  using assms
proof (induction ss arbitrary: v rule: rev_induct)
  case (snoc s ss)
  let ?w = "plain v \<lparr> Path := path_of (ps @ ss) \<rparr>"
  have w: "Parent v = (?w, True)" using snoc.prems by (intro Parent_path_of) simp_all
  have pw: "plain ?w = ?w" by (simp add: plain_def)
  show ?case
  proof (cases "ss = []")
    case True
    then show ?thesis using w snoc.prems(4) by (subst prefix_loop.simps) simp
  next
    case False
    have "prefix_loop u ?w"
      using snoc.prems False by (intro snoc.IH) (simp_all add: pw, simp add: plain_def)
    then show ?thesis using w by (subst prefix_loop.simps) simp
  qed
qed simp

section \<open>Locality\<close>

text \<open>The text after the last at sign is the authority, when that has none.\<close>
lemma authority_unique:
  fixes a b c d :: string
  assumes "CHR ''@'' \<notin> set b" "CHR ''@'' \<notin> set d" "a = [] \<or> last a = CHR ''@''" "c = [] \<or> last c = CHR ''@''"
    "a @ b = c @ d"
  shows "b = d"
proof -
  have r: "takeWhile (\<lambda>x. x \<noteq> CHR ''@'') (rev (a @ b)) = rev b" if "CHR ''@'' \<notin> set b" "a = [] \<or> last a = CHR ''@''" for a b :: string
  proof -
    have "takeWhile (\<lambda>x. x \<noteq> CHR ''@'') (rev b @ rev a) = rev b @ takeWhile (\<lambda>x. x \<noteq> CHR ''@'') (rev a)"
      using that(1) by (intro takeWhile_append2) auto
    moreover have "takeWhile (\<lambda>x. x \<noteq> CHR ''@'') (rev a) = []"
      using that(2) by (cases a rule: rev_cases) auto
    ultimately show ?thesis by simp
  qed
  show ?thesis using r [of b a] r [of d c] assms by simp
qed

lemma LocalTo_authority:
  assumes "CHR ''@'' \<notin> set (Authority u)" "CHR ''@'' \<notin> set (Authority v)" "LocalTo u v"
  shows "ToLower (Authority u) = ToLower (Authority v)"
proof -
  let ?ui = "\<lambda>u. if UserInfo u \<noteq> [] then UserInfo u @ ''@'' else []"
  have at: "of_char CHR ''@'' < (65 :: nat)" by simp
  have s: "String (RootIdentity w) = ''acc://'' @ ?ui w @ Authority w" for w
    by (simp add: String_def format_def RootIdentity_def new_URL_def normalizePath_def Trim_slash_def
        format_path.simps)
  have eq: "ToLower (?ui u) @ ToLower (Authority u) = ToLower (?ui v) @ ToLower (Authority v)"
    using assms(3) by (simp add: LocalTo_def URL_Equal_def EqualFold_def s split del: if_split)
  have ui: "ToLower (?ui w) = [] \<or> last (ToLower (?ui w)) = CHR ''@''" for w
    using lower_char_special [OF at, of "CHR ''@''"] by simp
  have "CHR ''@'' \<notin> set (ToLower (Authority u))" "CHR ''@'' \<notin> set (ToLower (Authority v))"
    using assms(1,2) in_ToLower [OF at] by simp_all
  then show ?thesis using authority_unique [OF _ _ ui ui eq] by blast
qed

section \<open>Properties\<close>

text \<open>
  Strings of ASCII characters. On them \<^verbatim>\<open>strings.ToLower\<close> and \<^verbatim>\<open>strings.EqualFold\<close> are what they
  are here; on others two strings can be equal up to folding (the long s and s) and have different
  lower case.
\<close>
definition ascii :: "string \<Rightarrow> bool" where
  "ascii s \<longleftrightarrow> list_all (\<lambda>c. of_char c < (128 :: nat)) s"

text \<open>
  C27. Accounts of ASCII identities that are local to each other, whatever their paths, have the same
  identity account ID and the same routing number, as long as no authority contains an at sign.
\<close>
theorem LocalTo_Routing:
  assumes "ascii (UserInfo u @ Authority u)" "ascii (UserInfo v @ Authority v)"
    "CHR ''@'' \<notin> set (Authority u)" "CHR ''@'' \<notin> set (Authority v)" "LocalTo u v"
  shows "IdentityAccountID32 u = IdentityAccountID32 v \<and> Routing u = Routing v"
  using ToLower_Hostname [OF LocalTo_authority [OF assms(3-5)]]
  by (simp add: Routing_def IdentityAccountID32_def url_id_def)

theorem LocalTo_Routing_witness:
  "Routing (new_URL \<lparr> Authority := ''Foo'', Path := ''/a'' \<rparr>) = Routing (new_URL \<lparr> Authority := ''fOO'' \<rparr>)"
proof -
  let ?u = "new_URL \<lparr> Authority := ''Foo'', Path := ''/a'' \<rparr>" and ?v = "new_URL \<lparr> Authority := ''fOO'' \<rparr>"
  have "ascii (UserInfo ?u @ Authority ?u)" "ascii (UserInfo ?v @ Authority ?v)"
    "LocalTo ?u ?v" "CHR ''@'' \<notin> set (Authority ?u)" "CHR ''@'' \<notin> set (Authority ?v)" by code_simp+
  then show ?thesis using LocalTo_Routing [of ?u ?v] by blast
qed

text \<open>
  Joining elements to the path of an account and going up are inverse: the parent of the URL
  with one more element is the account's URL, and the account is a prefix of every URL joined
  from it.
\<close>
theorem JoinPath_Parent:
  assumes "Path u = path_of ps" "Query u = []" "Fragment u = []" "\<forall>p \<in> set (ps @ ss @ [s]). segment_ok p"
  shows "Path (JoinPath (ss @ [s]) u) = path_of (ps @ ss @ [s])
    \<and> Parent (JoinPath (ss @ [s]) u) = (JoinPath ss u, True)
    \<and> PrefixOf u (JoinPath (ss @ [s]) u)"
proof -
  let ?v = "JoinPath (ss @ [s]) u"
  have v: "Path ?v = path_of (ps @ ss @ [s])" using assms by (intro JoinPath_path_of) simp_all
  have e: "JoinPath zs u = u \<lparr> Path := Path (JoinPath zs u) \<rparr>" for zs by (simp add: JoinPath_def Let_def)
  have pl: "plain ?v \<lparr> Path := p \<rparr> = u \<lparr> Path := p \<rparr>" for p
    using assms(2,3) by (subst (1) e) (simp add: plain_def new_URL_def)
  have "Path (JoinPath ss u) = path_of (ps @ ss)"
    using assms JoinPath_path_of [of ps ss u] by (cases "ss = []") (simp_all add: JoinPath_def)
  then have "JoinPath ss u = u \<lparr> Path := path_of (ps @ ss) \<rparr>" using e [of ss] by simp
  moreover have "Parent ?v = (plain ?v \<lparr> Path := path_of (ps @ ss) \<rparr>, True)"
    using assms(4) v by (intro Parent_path_of) simp_all
  moreover have "prefix_loop u ?v"
    using assms v by (intro prefix_loop_path_of [of "ss @ [s]" ?v ps u])
      (simp_all only: pl, simp_all add: URL_Equal_def EqualFold_def flip: assms(1))
  then have "PrefixOf u ?v"
    using v assms(1) e [of "ss @ [s]"] by (simp add: PrefixOf_def EqualFold_def)
  ultimately show ?thesis using v pl by simp
qed

theorem JoinPath_Parent_witness:
  "Parent (JoinPath [''book'', ''1''] (new_URL \<lparr> Authority := ''adi'' \<rparr>))
    = (JoinPath [''book''] (new_URL \<lparr> Authority := ''adi'' \<rparr>), True)"
  using JoinPath_Parent [of "new_URL \<lparr> Authority := ''adi'' \<rparr>" "[]" "[''book'']" "''1''"]
  by (simp add: new_URL_def segment_ok_def)

text \<open>
  A transaction ID turned into a URL parses back to the same transaction ID.
\<close>
theorem AsTxID_AsUrl:
  assumes "length (tx_hash x) = 32" "UserInfo (tx_url x) = []"
  shows "AsTxID (AsUrl x) = Ok x"
proof -
  have "hex_EncodeToString (tx_hash x) \<noteq> []" using assms(1) by (cases "tx_hash x") (auto simp: hex_EncodeToString_def)
  then show ?thesis using assms by (cases x) (simp add: AsTxID_def AsUrl_def WithUserInfo_def codec)
qed

theorem AsTxID_AsUrl_witness:
  "AsTxID (AsUrl (WithTxID (new_URL \<lparr> Authority := ''foo'' \<rparr>) (replicate 32 171)))
    = Ok (WithTxID (new_URL \<lparr> Authority := ''foo'' \<rparr>) (replicate 32 171))"
  by (rule AsTxID_AsUrl) (simp_all add: WithTxID_def new_URL_def)

end
