(* ===== verification/Protocol.thy ===== *)
theory Protocol
  imports Url
begin

text \<open>
  \<^verbatim>\<open>src/protocol/protocol.go\<close>: the constants of the protocol, lite addresses, partition URLs,
  key page URLs and the validity of an identity URL. Strings are ASCII, as in \<open>Url\<close>, so every
  string is valid UTF-8 and the letters and numbers are those of ASCII. The address functions that
  parse a token URL given as a string are not modelled.
\<close>

section \<open>Standard library\<close>

definition digit_char :: "nat \<Rightarrow> char" where
  "digit_char d = char_of (48 + d)"

text \<open>\<^verbatim>\<open>strconv.FormatUint(n, 10)\<close> and \<^verbatim>\<open>strconv.ParseUint(s, 10, 16)\<close>.\<close>
function FormatUint :: "nat \<Rightarrow> string" where
  "FormatUint n = (if n < 10 then [digit_char n] else FormatUint (n div 10) @ [digit_char (n mod 10)])"
  by pat_completeness auto
termination by (relation "measure id") auto

declare FormatUint.simps [simp del]

definition decimal :: "string \<Rightarrow> nat" where
  "decimal s = foldl (\<lambda>n c. 10 * n + (of_char c - 48)) 0 s"

definition ParseUint16 :: "string \<Rightarrow> nat option" where
  "ParseUint16 s = (if s = [] \<or> \<not> list_all is_digit s \<or> decimal s \<ge> 2 ^ 16 then None else Some (decimal s))"

definition HasPrefix :: "string \<Rightarrow> string \<Rightarrow> bool" where
  "HasPrefix s p \<longleftrightarrow> take (length p) s = p"

definition HasSuffix :: "string \<Rightarrow> string \<Rightarrow> bool" where
  "HasSuffix s p \<longleftrightarrow> length p \<le> length s \<and> drop (length s - length p) s = p"

section \<open>Constants\<close>

definition TLD :: string where "TLD = ''.acme''"
definition ACME :: string where "ACME = ''ACME''"
definition Unknown :: string where "Unknown = ''unknown''"
definition Directory :: string where "Directory = ''Directory''"
definition AcmePrecision :: nat where "AcmePrecision = 10 ^ 8"
definition AcmeOraclePrecision :: nat where "AcmeOraclePrecision = 10000"
definition CreditPrecision :: nat where "CreditPrecision = 100"
definition CreditsPerDollar :: nat where "CreditsPerDollar = 100"
definition CreditUnitsPerFiatUnit :: nat where
  "CreditUnitsPerFiatUnit = CreditsPerDollar * CreditPrecision"
definition AccountUrlMaxLength :: nat where "AccountUrlMaxLength = 500"
definition DelegationDepthLimit :: nat where "DelegationDepthLimit = 20"

definition AcmeUrl :: URL where
  "AcmeUrl = new_URL \<lparr> Authority := ACME \<rparr>"

section \<open>Lite addresses\<close>

definition LiteDataAddress :: "bytes \<Rightarrow> URL result" where
  "LiteDataAddress chainId =
     (if length chainId < 32 then Err (Plain ''chainId for LiteDataAddress must be 32 bytes in length'')
      else Ok (new_URL \<lparr> Authority := hex_EncodeToString (take 32 chainId) \<rparr>))"

definition ParseLiteAddress :: "URL \<Rightarrow> bytes result" where
  "ParseLiteAddress u = (case hex_DecodeString (Hostname u) of
       None \<Rightarrow> Err (Plain ''encoding/hex'')
     | Some b \<Rightarrow>
         if length b \<le> 4 then Err (Plain ''too short'')
         else let i = length b - 4; byteValue = take i b; byteCheck = drop i b;
                  hexValue = take (length (Authority u) - 8) (Authority u);
                  checkSum = sha256 (string_bytes hexValue)
              in if byteCheck \<noteq> drop (length checkSum - 4) checkSum then Err (Plain ''invalid checksum'')
                 else Ok byteValue)"

definition ParseLiteDataAddress :: "URL \<Rightarrow> bytes result" where
  "ParseLiteDataAddress u =
     (if Path u \<noteq> [] then Err (Plain ''invalid chain url'')
      else case hex_DecodeString (Hostname u) of
          None \<Rightarrow> Err (Plain ''encoding/hex'')
        | Some b \<Rightarrow> if length b \<noteq> 32 then Err (Plain ''lite data address is the wrong length'') else Ok b)"

definition LiteAuthorityForHash :: "bytes \<Rightarrow> URL result" where
  "LiteAuthorityForHash pubKeyHash = bind_result (slice_to 20 pubKeyHash) (\<lambda>h.
     let keyStr = hex_EncodeToString h; checkSum = sha256 (string_bytes keyStr);
         checkStr = hex_EncodeToString (drop 28 checkSum)
     in Ok (new_URL \<lparr> Authority := keyStr @ checkStr \<rparr>))"

definition ParseLiteIdentity :: "URL \<Rightarrow> slice result" where
  "ParseLiteIdentity u =
     (if Path u \<noteq> [] \<and> Path u \<noteq> ''/'' then Ok None
      else bind_result (ParseLiteAddress u) (\<lambda>b. if length b \<noteq> 20 then Ok None else Ok (Some b)))"

definition ParseLiteTokenAddress :: "URL \<Rightarrow> (bytes \<times> URL) option result" where
  "ParseLiteTokenAddress u =
     (if Path u = [] \<or> length (Path u) = 1 then Ok None
      else bind_result (ParseLiteAddress u) (\<lambda>b.
        if length b \<noteq> 20 then Ok None
        else let p = tl (Path u) in
          Ok (Some (take 20 b,
            if slash \<in> set p
            then new_URL \<lparr> Authority := takeWhile (\<lambda>c. c \<noteq> slash) p, Path := dropWhile (\<lambda>c. c \<noteq> slash) p \<rparr>
            else if hd (Path u) = slash then new_URL \<lparr> Authority := p \<rparr>
            else new_URL \<lparr> Authority := Path u \<rparr>))))"

section \<open>Identities and partitions\<close>

definition AccountUrl :: "string \<Rightarrow> string list \<Rightarrow> URL" where
  "AccountUrl rootIdentity path =
     (let r = (if \<not> HasSuffix rootIdentity TLD then rootIdentity @ TLD else rootIdentity)
      in JoinPath path (new_URL \<lparr> Authority := r \<rparr>))"

definition IsUnknown :: "URL \<Rightarrow> bool" where
  "IsUnknown u \<longleftrightarrow> EqualFold (Authority u) Unknown \<or> EqualFold (Authority u) (Unknown @ TLD)"

definition DnUrl :: URL where
  "DnUrl = new_URL \<lparr> Authority := ''dn'' @ TLD \<rparr>"

definition IsDnUrl :: "URL \<Rightarrow> bool" where
  "IsDnUrl u \<longleftrightarrow> URL_Equal DnUrl (RootIdentity u)"

definition BelongsToDn :: "URL \<Rightarrow> bool" where
  "BelongsToDn u \<longleftrightarrow> IsDnUrl u \<or> URL_Equal (RootIdentity u) AcmeUrl"

definition PartitionUrl :: "string \<Rightarrow> URL" where
  "PartitionUrl part = (if EqualFold part Directory then DnUrl
     else new_URL \<lparr> Authority := ''bvn-'' @ part @ TLD \<rparr>)"

definition IsBvnUrl :: "URL \<Rightarrow> bool" where
  "IsBvnUrl u \<longleftrightarrow> HasPrefix (Hostname u) ''bvn-''"

definition ParsePartitionUrl :: "URL \<Rightarrow> string option" where
  "ParsePartitionUrl u = (if IsDnUrl u then Some Directory
     else let a = Authority u in
       if \<not> HasPrefix a ''bvn-'' then None
       else if \<not> HasSuffix a TLD then None
       else Some (take (length a - 5 - 4) (drop 4 a)))"

definition BvnNameFromPartitionId :: "string \<Rightarrow> string" where
  "BvnNameFromPartitionId part = Authority (PartitionUrl (ToLower part))"

definition IsReserved :: "URL \<Rightarrow> bool" where
  "IsReserved u \<longleftrightarrow> IsUnknown u \<or> ParsePartitionUrl u \<noteq> None \<or> BelongsToDn u"

text \<open>The messages of the errors, in order, without their arguments; none for a valid URL.\<close>
definition IsValidAdiUrl :: "URL \<Rightarrow> bool \<Rightarrow> string list" where
  "IsValidAdiUrl u allowReserved = (let
     e1 = (if Port u \<noteq> [] then [''identity has a port number''] else []);
     a = Hostname u;
     b = (if HasSuffix a TLD then take (length a - length TLD) a else a);
     e2 = (if a = [] then [''identity is empty'']
           else if HasSuffix a TLD then (if b = [] then [''identity is empty''] else [])
           else [''identity must end in .acme'']);
     e3 = (if CHR ''.'' \<in> set b then [''identity contains a subdomain''] else []);
     e4 = (if b \<noteq> [] \<and> list_all is_digit b then [''identity is a number''] else []);
     e5 = (if Query u \<noteq> [] then [''query is not empty''] else []);
     e6 = (if Fragment u \<noteq> [] then [''fragment is not empty''] else []);
     e7 = (if \<not> allowReserved \<and> IsReserved u then [''%v is a reserved URL''] else []);
     errs = e1 @ e2 @ e3 @ e4 @ e5 @ e6 @ e7;
     bad = filter (\<lambda>c. \<not> is_letter c \<and> \<not> is_digit c) b
     in errs @ map (\<lambda>c. ''illegal character %q'')
          (filter (\<lambda>c. c \<noteq> CHR ''-'' \<and> \<not> (c = CHR ''.'' \<and> errs \<noteq> [])) bad))"

section \<open>Key pages\<close>

definition FormatKeyPageUrl :: "URL \<Rightarrow> 64 word \<Rightarrow> URL" where
  "FormatKeyPageUrl keyBook pageIndex = JoinPath [FormatUint (unat (pageIndex + 1))] keyBook"

definition ParseKeyPageUrl :: "URL \<Rightarrow> (URL \<times> nat) option" where
  "ParseKeyPageUrl keyPage =
     (if slash \<notin> set (Path keyPage) then None
      else let rest = rev (takeWhile (\<lambda>c. c \<noteq> slash) (rev (Path keyPage))) in
        case ParseUint16 rest of None \<Rightarrow> None | Some index \<Rightarrow> Some (Identity keyPage, index))"

section \<open>Decimal numbers\<close>

lemma of_char_digit [simp]: "d < 10 \<Longrightarrow> of_char (digit_char d) = (48 + d :: nat)"
  by (simp add: digit_char_def)

lemma decimal_snoc: "decimal (s @ [c]) = 10 * decimal s + (of_char c - 48)"
  by (simp add: decimal_def)

lemma decimal_FormatUint [simp]: "decimal (FormatUint n) = n"
proof (induction n rule: FormatUint.induct)
  case (1 n)
  show ?case
  proof (cases "n < 10")
    case True
    then show ?thesis by (subst FormatUint.simps) (simp add: decimal_def)
  next
    case False
    then show ?thesis using 1 by (subst FormatUint.simps) (simp add: decimal_snoc)
  qed
qed

lemma digits_FormatUint: "list_all is_digit (FormatUint n)"
proof (induction n rule: FormatUint.induct)
  case (1 n)
  have d: "is_digit (digit_char d)" if "d < 10" for d
    using that by (simp add: is_digit_def in_range_def less_eq_char_def)
  show ?case
  proof (cases "n < 10")
    case True
    then show ?thesis by (subst FormatUint.simps) (simp add: d)
  next
    case False
    then show ?thesis using 1 by (subst FormatUint.simps) (simp add: d)
  qed
qed

lemma FormatUint_ne: "FormatUint n \<noteq> []"
  by (subst FormatUint.simps) simp

lemma segment_FormatUint: "segment_ok (FormatUint n)"
proof -
  have "CHR ''.'' \<notin> set (FormatUint n)" "slash \<notin> set (FormatUint n)"
    using digits_FormatUint [of n] by (auto simp: list_all_iff is_digit_def in_range_def less_eq_char_def)
  then show ?thesis using FormatUint_ne [of n] by (auto simp: segment_ok_def)
qed

lemma ParseUint16_Format [codec]: "n < 2 ^ 16 \<Longrightarrow> ParseUint16 (FormatUint n) = Some n"
  using digits_FormatUint [of n] FormatUint_ne [of n] by (simp add: ParseUint16_def)

section \<open>Hexadecimal host names\<close>

definition hostname_ok :: "string \<Rightarrow> bool" where
  "hostname_ok s \<longleftrightarrow> takeWhile (\<lambda>c. c \<noteq> CHR '':'') s = s"

lemma hostname_hex: "hostname_ok (hex_EncodeToString b)"
proof -
  have "hex_digits ! n \<noteq> CHR '':''" if "n < 16" for n
  proof -
    have "hex_value (hex_digits ! n) = Some n" using that by (rule hex_value_digit)
    then show ?thesis by (auto simp: hex_value_def is_digit_def in_range_def less_eq_char_def)
  qed
  moreover have "unat x div 16 < 16" for x :: byte
    using unsigned_less [of x, where ?'a = nat] by auto
  ultimately show ?thesis
    by (auto simp: hostname_ok_def takeWhile_eq_all_conv hex_EncodeToString_def)
qed

section \<open>Properties\<close>

text \<open>
  C28. The lite identity made for a key hash parses back to the first twenty bytes of that hash: the
  checksum that is verified is the one that was appended.
\<close>
theorem ParseLiteIdentity_For:
  assumes "20 \<le> length h"
  shows "bind_result (LiteAuthorityForHash h) ParseLiteIdentity = Ok (Some (take 20 h))"
proof -
  let ?k = "hex_EncodeToString (take 20 h)"
  let ?c = "drop 28 (sha256 (string_bytes ?k))"
  let ?u = "new_URL \<lparr> Authority := ?k @ hex_EncodeToString ?c \<rparr>"
  have hexlen: "length (hex_EncodeToString b) = 2 * length b" for b
    by (induction b) (simp_all add: hex_EncodeToString_def)
  have c: "length ?c = 4" by (simp add: length_sha256)
  have s: "?k @ hex_EncodeToString ?c = hex_EncodeToString (take 20 h @ ?c)"
    by (simp add: hex_EncodeToString_def)
  have "hostname_ok (hex_EncodeToString b)" for b by (rule hostname_hex)
  then have "Hostname ?u = hex_EncodeToString (take 20 h @ ?c)"
    using s by (simp add: Hostname_def splitColon_def hostname_ok_def)
  moreover have "take (length (Authority ?u) - 8) (Authority ?u) = ?k" using c hexlen by simp
  ultimately have "ParseLiteAddress ?u = Ok (take 20 h)"
    using assms c by (simp add: ParseLiteAddress_def codec Let_def length_sha256 min_def)
  then show ?thesis
    using assms by (simp add: LiteAuthorityForHash_def slice_to_def ParseLiteIdentity_def new_URL_def Let_def min_def)
qed

theorem ParseLiteIdentity_For_witness:
  "bind_result (LiteAuthorityForHash (replicate 32 7)) ParseLiteIdentity = Ok (Some (replicate 20 7))"
  using ParseLiteIdentity_For [of "replicate 32 7"] by simp

text \<open>
  The URL of a page of a key book parses back to the book and the page number, which is the page
  index plus one, as long as that number fits 16 bits.
\<close>
theorem ParseKeyPageUrl_Format:
  assumes "Path u = path_of ps" "Query u = []" "Fragment u = []" "\<forall>p \<in> set ps. segment_ok p"
    "unat i + 1 < 2 ^ 16"
  shows "ParseKeyPageUrl (FormatKeyPageUrl u i) = Some (u, unat i + 1)"
proof -
  let ?n = "FormatUint (unat i + 1)"
  have i: "unat (i + 1) = unat i + 1" using assms(5) by (simp add: unat_word_ariths(1))
  have "\<forall>p \<in> set (ps @ [?n]). segment_ok p" using assms(4) segment_FormatUint by simp
  then have p: "Path (FormatKeyPageUrl u i) = path_of (ps @ [?n])"
    using assms(1) by (simp only: FormatKeyPageUrl_def i) (rule JoinPath_path_of, simp_all)
  have id: "Identity (FormatKeyPageUrl u i) = u"
    using Parent_path_of [OF segment_FormatUint p] assms(1-3)
    by (simp add: Identity_def plain_def new_URL_def FormatKeyPageUrl_def JoinPath_def Let_def)
  have "slash \<notin> set ?n" using segment_FormatUint by (simp add: segment_ok_def)
  then have "takeWhile (\<lambda>c. c \<noteq> slash) (rev (Path (FormatKeyPageUrl u i))) = rev ?n"
    unfolding p by (simp, subst takeWhile_append2) auto
  moreover have "slash \<in> set (Path (FormatKeyPageUrl u i))" by (simp add: p)
  ultimately show ?thesis using assms(5) id by (simp add: ParseKeyPageUrl_def codec)
qed

theorem ParseKeyPageUrl_Format_witness:
  "ParseKeyPageUrl (FormatKeyPageUrl (new_URL \<lparr> Authority := ''a.acme'', Path := ''/book'' \<rparr>) 0)
    = Some (new_URL \<lparr> Authority := ''a.acme'', Path := ''/book'' \<rparr>, 1)"
  using ParseKeyPageUrl_Format [of "new_URL \<lparr> Authority := ''a.acme'', Path := ''/book'' \<rparr>" "[''book'']" 0]
  by (simp add: new_URL_def segment_ok_def)

text \<open>A name that can be an identity: letters, digits and hyphens of ASCII.\<close>
definition identity_name :: "string \<Rightarrow> bool" where
  "identity_name s \<longleftrightarrow> list_all (\<lambda>c. is_letter c \<or> is_digit c \<or> c = CHR ''-'') s"

lemma String_authority: "String (new_URL \<lparr> Authority := a \<rparr>) = ''acc://'' @ a"
  by (simp add: String_def format_def new_URL_def normalizePath_def Trim_slash_def format_path.simps)

lemma RootIdentity_authority: "RootIdentity (new_URL \<lparr> Authority := a \<rparr>) = new_URL \<lparr> Authority := a \<rparr>"
  by (simp add: RootIdentity_def new_URL_def)

lemma URL_Equal_authority:
  "URL_Equal (new_URL \<lparr> Authority := a \<rparr>) (new_URL \<lparr> Authority := b \<rparr>) \<longleftrightarrow> ToLower a = ToLower b"
  by (simp add: URL_Equal_def EqualFold_def String_authority)

lemma identity_name_plain: "identity_name s \<Longrightarrow> c \<in> {CHR '':'', CHR ''.''} \<Longrightarrow> c \<notin> set s"
  by (auto simp: identity_name_def list_all_iff is_letter_def is_digit_def is_upper_def in_range_def)

lemma identity_host:
  assumes "identity_name s"
  shows "Hostname (new_URL \<lparr> Authority := s @ TLD \<rparr>) = s @ TLD" "Port (new_URL \<lparr> Authority := s @ TLD \<rparr>) = []"
proof -
  have "\<forall>c \<in> set (s @ TLD). c \<noteq> CHR '':''" using identity_name_plain [OF assms] by (auto simp: TLD_def)
  then have "takeWhile (\<lambda>c. c \<noteq> CHR '':'') (s @ TLD) = s @ TLD" "dropWhile (\<lambda>c. c \<noteq> CHR '':'') (s @ TLD) = []"
    by (simp_all only: takeWhile_eq_all_conv dropWhile_eq_Nil_conv)
  then have "splitColon (s @ TLD) = (s @ TLD, [])" unfolding splitColon_def by (simp only: list.sel)
  then show "Hostname (new_URL \<lparr> Authority := s @ TLD \<rparr>) = s @ TLD" "Port (new_URL \<lparr> Authority := s @ TLD \<rparr>) = []"
    by (simp_all add: Hostname_def Port_def)
qed

lemma letter_no_digit: "is_letter c \<Longrightarrow> \<not> is_digit c"
proof -
  have "\<not> CHR ''A'' \<le> CHR ''9''" "\<not> CHR ''a'' \<le> CHR ''9''" by code_simp+
  then show "is_letter c \<Longrightarrow> \<not> is_digit c"
    unfolding is_letter_def is_digit_def is_upper_def in_range_def by (meson order.trans)
qed

text \<open>The prefix of the URL of a partition, in any case.\<close>
lemma bvn_prefix:
  assumes "EqualFold pre ''bvn-''"
  shows "ToLower pre = ''bvn-''" "length pre = 4" "identity_name pre" "\<not> list_all is_digit pre"
proof -
  show l: "ToLower pre = ''bvn-''" using assms by (simp add: EqualFold_def) code_simp
  then have "length (ToLower pre) = 4" by simp
  then show "length pre = 4" by (simp add: ToLower_def)
  obtain b v n d where pre: "pre = [b, v, n, d]" "lower_char b = CHR ''b''" "lower_char v = CHR ''v''" "lower_char n = CHR ''n''" "lower_char d = CHR ''-''"
    using l by (auto simp: ToLower_def map_eq_Cons_conv)
  have "d = CHR ''-''" using pre(5) lower_char_special [of "CHR ''-''" d] by simp
  moreover have "is_letter c \<and> \<not> is_digit c" if "lower_char c = x" "is_letter x" for c x
  proof -
    have "is_letter c" using that by (auto simp: lower_char_def is_letter_def split: if_splits)
    then show ?thesis by (simp add: letter_no_digit)
  qed
  moreover have "is_letter CHR ''b''" "is_letter CHR ''v''" "is_letter CHR ''n''" by code_simp+
  ultimately show "identity_name pre" "\<not> list_all is_digit pre" using pre by (auto simp: identity_name_def)
qed

lemma partition_name:
  assumes "EqualFold pre ''bvn-''"
  shows "\<not> IsUnknown (new_URL \<lparr> Authority := pre @ s \<rparr>)" "\<not> BelongsToDn (new_URL \<lparr> Authority := pre @ s \<rparr>)"
proof -
  note l = bvn_prefix(1) [OF assms]
  have "ToLower Unknown = ''unknown''" "ToLower (''dn'' @ TLD) = ''dn.acme''" "ToLower ACME = ''acme''" by code_simp+
  then show "\<not> IsUnknown (new_URL \<lparr> Authority := pre @ s \<rparr>)" "\<not> BelongsToDn (new_URL \<lparr> Authority := pre @ s \<rparr>)"
    using l by (simp_all add: IsUnknown_def BelongsToDn_def IsDnUrl_def EqualFold_def DnUrl_def AcmeUrl_def
        RootIdentity_authority URL_Equal_authority del: ToLower_simps)
qed

lemma IsValidAdiUrl_name:
  assumes "identity_name s" "s \<noteq> []" "\<not> list_all is_digit s" "\<not> IsReserved (new_URL \<lparr> Authority := s @ TLD \<rparr>)"
  shows "IsValidAdiUrl (new_URL \<lparr> Authority := s @ TLD \<rparr>) False = []"
proof -
  have "filter (\<lambda>c. \<not> is_letter c \<and> \<not> is_digit c \<and> c \<noteq> CHR ''-'') s = []"
    using assms(1) by (auto simp: identity_name_def list_all_iff filter_empty_conv)
  moreover have "HasSuffix (s @ TLD) TLD" by (simp add: HasSuffix_def)
  moreover have "CHR ''.'' \<notin> set s" using identity_name_plain [OF assms(1)] by simp
  ultimately show ?thesis using assms identity_host [OF assms(1)]
    by (simp add: IsValidAdiUrl_def new_URL_def Let_def conj_commute conj_left_commute)
qed

text \<open>
  C29. Reserved URLs are recognised with the case of the letters. Write the prefix of the URL of a
  partition other than the directory with a capital letter, and the name of the partition, of ASCII
  letters, digits and hyphens, as it is. That is the same URL with the same account ID. As it was it
  is reserved and no valid identity; as it is written now it is not reserved and passes as one.
\<close>
theorem IsReserved_case:
  assumes "EqualFold pre ''bvn-''" "pre \<noteq> ''bvn-''" "identity_name part" "\<not> EqualFold part Directory"
  shows "let u = PartitionUrl part; v = new_URL \<lparr> Authority := pre @ part @ TLD \<rparr>
   in URL_Equal u v \<and> AccountID32 u = AccountID32 v \<and> IsReserved u \<and> \<not> IsReserved v
     \<and> IsValidAdiUrl u False \<noteq> [] \<and> IsValidAdiUrl v False = []"
proof -
  define bvn where "bvn = ''bvn-''"
  let ?u = "new_URL \<lparr> Authority := (bvn @ part) @ TLD \<rparr>" and ?v = "new_URL \<lparr> Authority := (pre @ part) @ TLD \<rparr>"
  note p = bvn_prefix [OF assms(1)]
  have q: "identity_name bvn" "ToLower bvn = bvn" unfolding bvn_def by code_simp+
  have u: "PartitionUrl part = ?u" using assms(4) by (simp add: PartitionUrl_def bvn_def)
  have n: "identity_name (pre @ part)" "identity_name (bvn @ part)" using p(3) q(1) assms(3) by (simp_all add: identity_name_def)
  note h = identity_host [OF n(1)] identity_host [OF n(2)]
  have eq: "URL_Equal ?u ?v" "AccountID32 ?u = AccountID32 ?v"
    using q(2) p(1) [folded bvn_def] by (simp_all only: URL_Equal_authority AccountID32_def url_id_def h ToLower_append) simp
  have "HasSuffix ((bvn @ part) @ TLD) TLD" "HasPrefix ((bvn @ part) @ TLD) ''bvn-''"
    unfolding HasSuffix_def by simp (simp add: HasPrefix_def bvn_def)
  then have r: "IsReserved ?u" by (simp add: IsReserved_def ParsePartitionUrl_def Let_def del: append_assoc)
  have "\<not> HasPrefix (pre @ part @ TLD) ''bvn-''" using assms(2) p(2) by (simp add: HasPrefix_def)
  then have r': "\<not> IsReserved ?v"
    using partition_name [OF assms(1), of "part @ TLD"] by (simp add: IsReserved_def ParsePartitionUrl_def BelongsToDn_def)
  have "IsValidAdiUrl ?u False \<noteq> []" using r by (simp add: IsValidAdiUrl_def Let_def)
  moreover have "IsValidAdiUrl ?v False = []" by (rule IsValidAdiUrl_name) (use r' p n in auto)
  ultimately show ?thesis using eq r r' by (simp add: u)
qed

theorem IsReserved_case_witness:
  "URL_Equal (PartitionUrl ''Apollo'') (new_URL \<lparr> Authority := ''BVN-Apollo.acme'' \<rparr>)
    \<and> IsValidAdiUrl (new_URL \<lparr> Authority := ''BVN-Apollo.acme'' \<rparr>) False = []"
proof -
  have "EqualFold ''BVN-'' ''bvn-''" "identity_name ''Apollo''" "\<not> EqualFold ''Apollo'' Directory" by code_simp+
  then show ?thesis using IsReserved_case [of "''BVN-''" "''Apollo''"] by (simp add: TLD_def Let_def)
qed

end
