(* ===== verification/Auth.thy ===== *)
theory Auth
  imports Protocol
begin

text \<open>
  \<^verbatim>\<open>src/protocol\<close>: the accounts that can sign and the sorted lists they keep.
  \<^verbatim>\<open>account_auth.go\<close> (the authorities of an account), \<^verbatim>\<open>keys.go\<close>, \<^verbatim>\<open>authority.go\<close> and
  \<^verbatim>\<open>credits_account.go\<close> (key pages and lite identities), \<^verbatim>\<open>access_control.go\<close>,
  \<^verbatim>\<open>txid_set.go\<close>, and the signers of a transaction status (\<^verbatim>\<open>transaction.go\<close>). Every sorted
  list interprets the locale \<open>keyed\<close>. The fields the generated code adds to every structure for
  its encoding (\<^verbatim>\<open>fieldsSet\<close>, \<^verbatim>\<open>extraData\<close>) are left out.
\<close>

section \<open>Sets of transaction IDs\<close>

record TxIdSet =
  Entries_ids :: "TxID list"

definition TxIdSet_Add :: "TxID \<Rightarrow> TxIdSet \<Rightarrow> TxIdSet" where
  "TxIdSet_Add txid s = (let (l, i, new) = BinaryInsert txid (Entries_ids s) (\<lambda>x. TxID_Compare x txid)
     in if new then s \<lparr> Entries_ids := l[i := txid] \<rparr> else s \<lparr> Entries_ids := l \<rparr>)"

definition TxIdSet_Remove :: "TxID \<Rightarrow> TxIdSet \<Rightarrow> TxIdSet" where
  "TxIdSet_Remove txid s = (let (i, found) = Search (Entries_ids s) (\<lambda>x. TxID_Compare x txid)
     in if found then s \<lparr> Entries_ids := take i (Entries_ids s) @ drop (i + 1) (Entries_ids s) \<rparr> else s)"

definition ContainsHash :: "bytes \<Rightarrow> TxIdSet \<Rightarrow> bool" where
  "ContainsHash hash s = snd (Search (Entries_ids s) (\<lambda>x. cmp3 (tx_hash x) hash))"

section \<open>Authorities of an account\<close>

record AuthorityEntry =
  ae_Url :: URL
  Disabled :: bool

record AccountAuth =
  Authorities :: "AuthorityEntry list"

definition KeyBook :: "AccountAuth \<Rightarrow> URL option" where
  "KeyBook a = (if length (Authorities a) \<ge> 1 then Some (ae_Url (Authorities a ! 0)) else None)"

definition AuthDisabled :: "AccountAuth \<Rightarrow> bool" where
  "AuthDisabled a \<longleftrightarrow> list_ex Disabled (Authorities a)"

definition ManagerKeyBook :: "AccountAuth \<Rightarrow> URL option" where
  "ManagerKeyBook a = (if length (Authorities a) \<ge> 2 then Some (ae_Url (Authorities a ! 1)) else None)"

definition GetAuthority :: "URL \<Rightarrow> AccountAuth \<Rightarrow> AuthorityEntry option" where
  "GetAuthority entry a = (let (i, found) = Search (Authorities a) (\<lambda>e. URL_Compare (ae_Url e) entry)
     in if found then Some (Authorities a ! i) else None)"

text \<open>The result is the account, the index of the entry whose address is returned, and whether it is new.\<close>
definition AddAuthority :: "URL \<Rightarrow> AccountAuth \<Rightarrow> AccountAuth \<times> nat \<times> bool" where
  "AddAuthority entry a = (let (l, i, new) = BinaryInsert \<lparr> ae_Url = new_URL, Disabled = False \<rparr> (Authorities a)
       (\<lambda>e. URL_Compare (ae_Url e) entry)
     in if new then (a \<lparr> Authorities := l[i := \<lparr> ae_Url = entry, Disabled = False \<rparr>] \<rparr>, i, True)
        else (a \<lparr> Authorities := l \<rparr>, i, False))"

definition RemoveAuthority :: "URL \<Rightarrow> AccountAuth \<Rightarrow> AccountAuth \<times> bool" where
  "RemoveAuthority entry a = (let (i, found) = Search (Authorities a) (\<lambda>e. URL_Compare (ae_Url e) entry)
     in if \<not> found then (a, False)
        else (a \<lparr> Authorities := take i (Authorities a) @ drop (i + 1) (Authorities a) \<rparr>, True))"

section \<open>Transactions allowed by a page\<close>

type_synonym AllowedTransactionBit = nat
type_synonym AllowedTransactions = "64 word"

definition Mask :: "AllowedTransactionBit \<Rightarrow> AllowedTransactions" where
  "Mask b = push_bit b 1"

definition AllowedTransactions_Set :: "AllowedTransactionBit \<Rightarrow> AllowedTransactions \<Rightarrow> AllowedTransactions" where
  "AllowedTransactions_Set b v = v OR Mask b"

definition AllowedTransactions_Clear :: "AllowedTransactionBit \<Rightarrow> AllowedTransactions \<Rightarrow> AllowedTransactions" where
  "AllowedTransactions_Clear b v = v AND NOT (Mask b)"

definition IsSet :: "AllowedTransactionBit \<Rightarrow> AllowedTransactions option \<Rightarrow> bool" where
  "IsSet b v = (case v of None \<Rightarrow> False | Some v \<Rightarrow> v AND Mask b \<noteq> 0)"

text \<open>The loop of \<^verbatim>\<open>Unpack\<close>; shifting by 64 or more gives zero.\<close>
partial_function (option) unpack_loop :: "nat \<Rightarrow> AllowedTransactions \<Rightarrow> AllowedTransactionBit list \<Rightarrow> AllowedTransactionBit list option" where
  "unpack_loop i u bits = (if push_bit i 1 \<le> u
     then unpack_loop (i + 1) u (if push_bit i 1 AND u \<noteq> 0 then bits @ [i] else bits)
     else Some bits)"

definition Unpack :: "AllowedTransactions option \<Rightarrow> AllowedTransactionBit list option" where
  "Unpack v = (case v of None \<Rightarrow> Some [] | Some u \<Rightarrow> unpack_loop 0 u [])"

section \<open>Key pages and lite identities\<close>

record KeySpec =
  PublicKeyHash :: bytes
  LastUsedOn :: "64 word"
  Delegate :: "URL option"

record KeyPage =
  kp_Url :: URL
  CreditBalance :: "64 word"
  AcceptThreshold :: "64 word"
  RejectThreshold :: "64 word"
  ResponseThreshold :: "64 word"
  BlockThreshold :: "64 word"
  Version :: "64 word"
  Keys :: "KeySpec list"
  TransactionBlacklist :: "AllowedTransactions option"

record LiteIdentity =
  li_Url :: URL
  li_CreditBalance :: "64 word"
  li_LastUsedOn :: "64 word"

record UnknownSigner =
  us_Url :: URL
  us_Version :: "64 word"

record KeySpecParams =
  KeyHash :: bytes
  ksp_Delegate :: "URL option"

definition KeySpecParams_IsEmpty :: "KeySpecParams \<Rightarrow> bool" where
  "KeySpecParams_IsEmpty k \<longleftrightarrow> length (KeyHash k) = 0 \<and> ksp_Delegate k = None"

definition GetMofN :: "KeyPage \<Rightarrow> 64 word \<times> 64 word" where
  "GetMofN ms = (AcceptThreshold ms, word_of_nat (length (Keys ms)))"

definition SetThreshold :: "64 word \<Rightarrow> KeyPage \<Rightarrow> KeyPage result" where
  "SetThreshold m ms = (if m \<le> word_of_nat (length (Keys ms)) \<and> m > 0 then Ok (ms \<lparr> AcceptThreshold := m \<rparr>)
     else if m = 0 then Err (Plain ''cannot require 0 signatures on a key page'')
     else Err (Plain ''cannot require %d signatures on a key page with %d keys''))"

text \<open>The index of the entry found.\<close>
definition EntryByKeyHash :: "bytes \<Rightarrow> KeyPage \<Rightarrow> nat option" where
  "EntryByKeyHash keyHash p = (let (i, found) = Search (Keys p) (\<lambda>ks. cmp3 (PublicKeyHash ks) keyHash)
     in if found then Some i else None)"

definition key_spec_cmp :: "KeySpec \<Rightarrow> KeySpec \<Rightarrow> int" where
  "key_spec_cmp k l = (let v = cmp3 (PublicKeyHash l) (PublicKeyHash k) in
     if v \<noteq> 0 then v
     else case Delegate l of None \<Rightarrow> - 1
       | Some d \<Rightarrow> (case Delegate k of None \<Rightarrow> 1 | Some e \<Rightarrow> URL_Compare d e))"

definition AddKeySpec :: "KeySpec \<Rightarrow> KeyPage \<Rightarrow> KeyPage" where
  "AddKeySpec k p = (let (l, i, _) = BinaryInsert k (Keys p) (key_spec_cmp k) in p \<lparr> Keys := l[i := k] \<rparr>)"

definition RemoveKeySpecAt :: "nat \<Rightarrow> KeyPage \<Rightarrow> KeyPage result" where
  "RemoveKeySpecAt i p = map_ok (\<lambda>l. p \<lparr> Keys := l \<rparr>) (RemoveAt (Keys p) i)"

definition GetSignatureThreshold :: "KeyPage \<Rightarrow> 64 word" where
  "GetSignatureThreshold p = (if AcceptThreshold p = 0 then 1 else AcceptThreshold p)"

definition EntryByKey :: "bytes \<Rightarrow> KeyPage \<Rightarrow> nat option" where
  "EntryByKey key p = EntryByKeyHash (sha256 key) p"

lemma ParseKeyPageUrl_shorter:
  "ParseKeyPageUrl u = Some (book, n) \<Longrightarrow> length (Path book) < length (Path u)"
proof -
  let ?rest = "rev (takeWhile (\<lambda>c. c \<noteq> slash) (rev (Path u)))"
  assume a: "ParseKeyPageUrl u = Some (book, n)"
  then have s: "slash \<in> set (Path u)" and r: "?rest \<noteq> []" and b: "book = Identity u"
    by (auto simp: ParseKeyPageUrl_def Let_def ParseUint16_def split: if_splits option.splits)
  from s have ne: "Path u \<noteq> []" by auto
  have "last (Path u) \<noteq> slash"
  proof
    assume "last (Path u) = slash"
    then have "rev (Path u) = slash # rev (butlast (Path u))"
      using ne by (metis append_butlast_last_id rev.simps(2) rev_rev_ident rev_append rev_singleton_conv append_Cons append_Nil)
    with r show False by simp
  qed
  then have "TrimSuffix_slash (Path u) = Path u" by (simp add: TrimSuffix_slash_def)
  then have "snd (Parent u)" using ne by (simp add: Parent_def Let_def split: option.splits)
  then have "Parent u = (book, True)" by (simp add: b Identity_def prod_eq_iff)
  then show ?thesis by (rule Parent_shorter)
qed

text \<open>The index of the entry found; the URL of a page stands for the book it is in.\<close>
function EntryByDelegate :: "URL \<Rightarrow> KeyPage \<Rightarrow> nat option" where
  "EntryByDelegate owner p = (case ParseKeyPageUrl owner of
       Some (book, _) \<Rightarrow> EntryByDelegate book p
     | None \<Rightarrow> (let i = length (takeWhile (\<lambda>e. \<not> (case Delegate e of None \<Rightarrow> False | Some d \<Rightarrow> URL_Equal owner d)) (Keys p))
         in if i < length (Keys p) then Some i else None))"
  by pat_completeness auto
termination
  by (relation "measure (\<lambda>(u, p). length (Path u))") (auto simp: ParseKeyPageUrl_shorter)

declare EntryByDelegate.simps [simp del]

definition LiteIdentity_EntryByKeyHash :: "bytes \<Rightarrow> LiteIdentity \<Rightarrow> nat option result" where
  "LiteIdentity_EntryByKeyHash keyHash li = (case ParseLiteIdentity (li_Url li) of
       Ok (Some myKey) \<Rightarrow> bind_result (slice_to 20 keyHash) (\<lambda>h. if myKey \<noteq> h then Ok None else Ok (Some 0))
     | _ \<Rightarrow> Panic ''lite identity URL is not valid'')"

definition LiteIdentity_EntryByKey :: "bytes \<Rightarrow> LiteIdentity \<Rightarrow> nat option result" where
  "LiteIdentity_EntryByKey key li = LiteIdentity_EntryByKeyHash (sha256 key) li"

section \<open>Credits\<close>

definition CreditCredits :: "64 word \<Rightarrow> KeyPage \<Rightarrow> KeyPage" where
  "CreditCredits amount page = page \<lparr> CreditBalance := CreditBalance page + amount \<rparr>"

definition CanDebitCredits :: "64 word \<Rightarrow> KeyPage \<Rightarrow> bool" where
  "CanDebitCredits amount page \<longleftrightarrow> amount \<le> CreditBalance page"

definition DebitCredits :: "64 word \<Rightarrow> KeyPage \<Rightarrow> KeyPage \<times> bool" where
  "DebitCredits amount page = (if \<not> CanDebitCredits amount page then (page, False)
     else (page \<lparr> CreditBalance := CreditBalance page - amount \<rparr>, True))"

definition LiteIdentity_CreditCredits :: "64 word \<Rightarrow> LiteIdentity \<Rightarrow> LiteIdentity" where
  "LiteIdentity_CreditCredits amount li = li \<lparr> li_CreditBalance := li_CreditBalance li + amount \<rparr>"

definition LiteIdentity_CanDebitCredits :: "64 word \<Rightarrow> LiteIdentity \<Rightarrow> bool" where
  "LiteIdentity_CanDebitCredits amount li \<longleftrightarrow> amount \<le> li_CreditBalance li"

definition LiteIdentity_DebitCredits :: "64 word \<Rightarrow> LiteIdentity \<Rightarrow> LiteIdentity \<times> bool" where
  "LiteIdentity_DebitCredits amount li = (if \<not> LiteIdentity_CanDebitCredits amount li then (li, False)
     else (li \<lparr> li_CreditBalance := li_CreditBalance li - amount \<rparr>, True))"

section \<open>Signers of a transaction\<close>

datatype Signer = PageSigner KeyPage | LiteSigner LiteIdentity | UnknownSignerOf UnknownSigner

text \<open>A \<^verbatim>\<open>Signer2\<close> is a signer, or has only a URL and a version.\<close>
datatype Signer2 = FullSigner Signer | OtherSigner URL "64 word"

fun Signer_GetUrl :: "Signer \<Rightarrow> URL" where
  "Signer_GetUrl (PageSigner p) = kp_Url p"
| "Signer_GetUrl (LiteSigner li) = li_Url li"
| "Signer_GetUrl (UnknownSignerOf s) = us_Url s"

fun Signer_GetVersion :: "Signer \<Rightarrow> 64 word" where
  "Signer_GetVersion (PageSigner p) = Version p"
| "Signer_GetVersion (LiteSigner li) = 1"
| "Signer_GetVersion (UnknownSignerOf s) = us_Version s"

fun Signer2_GetUrl :: "Signer2 \<Rightarrow> URL" where
  "Signer2_GetUrl (FullSigner s) = Signer_GetUrl s"
| "Signer2_GetUrl (OtherSigner u v) = u"

fun Signer2_GetVersion :: "Signer2 \<Rightarrow> 64 word" where
  "Signer2_GetVersion (FullSigner s) = Signer_GetVersion s"
| "Signer2_GetVersion (OtherSigner u v) = v"

fun MakeLiteSigner :: "Signer2 \<Rightarrow> Signer" where
  "MakeLiteSigner (FullSigner (PageSigner p)) = PageSigner (p \<lparr> CreditBalance := 0,
     Keys := map (\<lambda>k. \<lparr> PublicKeyHash = [], LastUsedOn = 0, Delegate = Delegate k \<rparr>)
       (filter (\<lambda>k. Delegate k \<noteq> None) (Keys p)) \<rparr>)"
| "MakeLiteSigner (FullSigner s) = s"
| "MakeLiteSigner (OtherSigner u v) = UnknownSignerOf \<lparr> us_Url = u, us_Version = v \<rparr>"

text \<open>The status of a transaction; \<^term>\<open>None\<close> is the code zero. The result and the proof are left out.\<close>
record TransactionStatus =
  ts_TxID :: "TxID option"
  Code :: "status option"
  Error :: "error option"
  ts_Received :: "64 word"
  Initiator :: "URL option"
  Signers :: "Signer list"
  AnchorSigners :: "bytes list"

definition Failed :: "TransactionStatus \<Rightarrow> bool" where
  "Failed s \<longleftrightarrow> (case Code s of None \<Rightarrow> False | Some c \<Rightarrow> \<not> Success c)"

definition Delivered_status :: "TransactionStatus \<Rightarrow> bool" where
  "Delivered_status s \<longleftrightarrow> Code s = Some StatusDelivered \<or> Failed s"

definition Remote :: "TransactionStatus \<Rightarrow> bool" where
  "Remote s \<longleftrightarrow> Code s = Some StatusRemote"

definition Pending_status :: "TransactionStatus \<Rightarrow> bool" where
  "Pending_status s \<longleftrightarrow> Code s = Some StatusPending"

definition AddAnchorSigner :: "bytes \<Rightarrow> TransactionStatus \<Rightarrow> TransactionStatus" where
  "AddAnchorSigner publicKey s = (let (l, i, new) = BinaryInsert [] (AnchorSigners s) (\<lambda>key. cmp3 key publicKey)
     in if new then s \<lparr> AnchorSigners := l[i := publicKey] \<rparr> else s \<lparr> AnchorSigners := l \<rparr>)"

text \<open>A new entry is nil until it is set, which happens before it is read.\<close>
definition AddSigner :: "Signer2 \<Rightarrow> TransactionStatus \<Rightarrow> TransactionStatus" where
  "AddSigner signer s = (let (l, i, new) = BinaryInsert (MakeLiteSigner signer) (Signers s)
       (\<lambda>entry. URL_Compare (Signer_GetUrl entry) (Signer2_GetUrl signer))
     in if \<not> new \<and> Signer2_GetVersion signer \<le> Signer_GetVersion (l ! i) then s \<lparr> Signers := l \<rparr>
        else s \<lparr> Signers := l[i := MakeLiteSigner signer] \<rparr>)"

definition GetSigner :: "URL \<Rightarrow> TransactionStatus \<Rightarrow> Signer option" where
  "GetSigner entry s = (let (i, found) = Search (Signers s) (\<lambda>e. URL_Compare (Signer_GetUrl e) entry)
     in if \<not> found then None else Some (Signers s ! i))"

definition FindSigners :: "URL \<Rightarrow> TransactionStatus \<Rightarrow> Signer list" where
  "FindSigners authority s =
     (let (i, found) = Search (Signers s) (\<lambda>e. URL_Compare (Signer_GetUrl e) authority)
      in if i \<ge> length (Signers s) then []
         else if found then [Signers s ! i]
         else if \<not> ParentOf authority (Signer_GetUrl (Signers s ! i)) then []
         else let j = sort_search (\<lambda>i. if URL_Compare (Signer_GetUrl (Signers s ! i)) authority < 0 then False
                      else \<not> ParentOf authority (Signer_GetUrl (Signers s ! i))) 0 (length (Signers s))
              in drop i (take j (Signers s)))"

section \<open>Keys of the sorted lists\<close>

definition url_key :: "URL \<Rightarrow> string" where
  "url_key u = ToLower (String u)"

definition TxID_key :: "TxID \<Rightarrow> bytes \<times> string" where
  "TxID_key x = (tx_hash x, url_key (tx_url x))"

lemma URL_Compare_key: "URL_Compare u v = cmp3 (url_key u) (url_key v)"
  by (simp add: URL_Compare_def url_key_def)

lemma URL_Equal_key: "URL_Equal u v \<longleftrightarrow> url_key u = url_key v"
  by (simp add: URL_Equal_def EqualFold_def url_key_def)

lemma TxID_Compare_key: "TxID_Compare x y = cmp3 (TxID_key x) (TxID_key y)"
  by (auto simp: TxID_Compare_def URL_Compare_key TxID_key_def cmp3_def less_prod_def')

interpretation txids: keyed TxID_key "\<lambda>k e. cmp3 (TxID_key e) k"
  by (rule keyed_cmp3)

interpretation txhashes: keyed tx_hash "\<lambda>k e. cmp3 (tx_hash e) k"
  by (rule keyed_cmp3)

interpretation authorities: keyed "\<lambda>e. url_key (ae_Url e)" "\<lambda>k e. cmp3 (url_key (ae_Url e)) k"
  by (rule keyed_cmp3)

interpretation signers: keyed "\<lambda>e. url_key (Signer_GetUrl e)" "\<lambda>k e. cmp3 (url_key (Signer_GetUrl e)) k"
  by (rule keyed_cmp3)

interpretation keyhashes: keyed PublicKeyHash "\<lambda>k e. cmp3 (PublicKeyHash e) k"
  by (rule keyed_cmp3)

section \<open>Lookups\<close>

lemma TxIdSet_Add_ordered:
  assumes "txids.ordered (Entries_ids s)"
  shows "txids.ordered (Entries_ids (TxIdSet_Add x s))"
    "TxID_key ` set (Entries_ids (TxIdSet_Add x s)) = insert (TxID_key x) (TxID_key ` set (Entries_ids s))"
proof -
  obtain l i new where b: "BinaryInsert x (Entries_ids s) (\<lambda>e. cmp3 (TxID_key e) (TxID_key x)) = (l, i, new)"
    by (metis prod_cases3)
  note p = txids.BinaryInsert_put [OF assms b refl]
  have "l = Entries_ids s" if "\<not> new" using b that by (auto simp: BinaryInsert_def Let_def split: prod.splits if_splits)
  then have e: "Entries_ids (TxIdSet_Add x s) = (if new then l[i := x] else Entries_ids s)"
    by (simp add: TxIdSet_Add_def TxID_Compare_key b)
  show "txids.ordered (Entries_ids (TxIdSet_Add x s))" using p(1) assms by (simp add: e)
  show "TxID_key ` set (Entries_ids (TxIdSet_Add x s)) = insert (TxID_key x) (TxID_key ` set (Entries_ids s))"
    using p(3,4) by (auto simp: e)
qed

lemma TxIdSet_Remove_ordered:
  assumes "txids.ordered (Entries_ids s)"
  shows "txids.ordered (Entries_ids (TxIdSet_Remove x s))"
    "TxID_key ` set (Entries_ids (TxIdSet_Remove x s)) = TxID_key ` set (Entries_ids s) - {TxID_key x}"
proof -
  obtain i found where b: "Search (Entries_ids s) (\<lambda>e. cmp3 (TxID_key e) (TxID_key x)) = (i, found)" by fastforce
  have f: "found \<longleftrightarrow> TxID_key x \<in> TxID_key ` set (Entries_ids s)" by (rule txids.Search_found_iff [OF assms b])
  have "txids.ordered (Entries_ids (TxIdSet_Remove x s)) \<and>
    TxID_key ` set (Entries_ids (TxIdSet_Remove x s)) = TxID_key ` set (Entries_ids s) - {TxID_key x}"
  proof (cases found)
    case True
    then have b': "Search (Entries_ids s) (\<lambda>e. cmp3 (TxID_key e) (TxID_key x)) = (i, True)" using b by simp
    have e: "Entries_ids (TxIdSet_Remove x s) = take i (Entries_ids s) @ drop (Suc i) (Entries_ids s)"
      using b' by (simp add: TxIdSet_Remove_def TxID_Compare_key)
    show ?thesis unfolding e txids.remove_Search(4) [OF assms b'] using txids.remove_Search(2) [OF assms b'] by (intro conjI) auto
  next
    case False
    then show ?thesis using f assms b by (auto simp: TxIdSet_Remove_def TxID_Compare_key)
  qed
  then show "txids.ordered (Entries_ids (TxIdSet_Remove x s))"
    "TxID_key ` set (Entries_ids (TxIdSet_Remove x s)) = TxID_key ` set (Entries_ids s) - {TxID_key x}" by simp_all
qed

lemma ContainsHash_iff:
  assumes "txids.ordered (Entries_ids s)"
  shows "ContainsHash h s \<longleftrightarrow> h \<in> tx_hash ` set (Entries_ids s)"
proof -
  have "sorted (map tx_hash (Entries_ids s))"
    unfolding sorted_map
  proof (rule sorted_wrt_mono_rel)
    show "sorted_wrt (\<lambda>x y. TxID_key x < TxID_key y) (Entries_ids s)"
      using assms by (simp add: txids.ordered_def sorted_wrt_map)
    show "tx_hash x \<le> tx_hash y" if "TxID_key x < TxID_key y" for x y
      using that by (auto simp: TxID_key_def)
  qed
  then show ?thesis unfolding ContainsHash_def by (rule txhashes.Search_weak)
qed

lemma GetAuthority_lookup:
  "authorities.ordered (Authorities a) \<Longrightarrow> GetAuthority u a = authorities.lookup (Authorities a) (url_key u)"
  using authorities.lookup_Search [of "Authorities a" "url_key u"]
  by (auto simp: GetAuthority_def URL_Compare_key split: prod.splits)

lemma GetSigner_lookup:
  "signers.ordered (Signers s) \<Longrightarrow> GetSigner u s = signers.lookup (Signers s) (url_key u)"
  using signers.lookup_Search [of "Signers s" "url_key u"]
  by (auto simp: GetSigner_def URL_Compare_key split: prod.splits)

lemma AddAuthority_spec:
  assumes "authorities.ordered (Authorities a)" "AddAuthority u a = (a', i, new)"
  shows "authorities.ordered (Authorities a')"
    "authorities.lookup (Authorities a') = (authorities.lookup (Authorities a))(url_key u \<mapsto>
      (if new then \<lparr> ae_Url = u, Disabled = False \<rparr> else the (GetAuthority u a)))"
    "new \<longleftrightarrow> GetAuthority u a = None" "i < length (Authorities a')" "url_key (ae_Url (Authorities a' ! i)) = url_key u"
proof -
  let ?x = "\<lparr> ae_Url = u, Disabled = False \<rparr>" and ?z = "\<lparr> ae_Url = new_URL, Disabled = False \<rparr>"
  obtain l j n where b: "BinaryInsert ?z (Authorities a) (\<lambda>e. cmp3 (url_key (ae_Url e)) (url_key u)) = (l, j, n)"
    by (metis prod_cases3)
  note p = authorities.BinaryInsert_put [OF assms(1) b, of ?x, simplified]
  have old: "l = Authorities a \<and> url_key (ae_Url (l ! j)) = url_key u" if "\<not> n"
  proof -
    obtain j' f where s: "Search (Authorities a) (\<lambda>e. cmp3 (url_key (ae_Url e)) (url_key u)) = (j', f)" by fastforce
    with b that have "f" "l = Authorities a" "j = j'" by (auto simp: BinaryInsert_def Let_def split: if_splits)
    then show ?thesis using authorities.Search_split(4) [OF assms(1) s] by simp
  qed
  have e: "a' = a \<lparr> Authorities := (if n then l[j := ?x] else l) \<rparr>" "i = j" "new = n"
    using assms(2) b by (auto simp: AddAuthority_def URL_Compare_key split: if_splits)
  have g: "GetAuthority u a = authorities.lookup (Authorities a) (url_key u)"
    by (rule GetAuthority_lookup [OF assms(1)])
  show "authorities.ordered (Authorities a')" using p(1) old assms(1) by (auto simp: e)
  show nw: "new \<longleftrightarrow> GetAuthority u a = None" using p(4) by (simp add: g e authorities.lookup_None_iff)
  show "authorities.lookup (Authorities a') = (authorities.lookup (Authorities a))(url_key u \<mapsto>
      (if new then ?x else the (GetAuthority u a)))"
    using p(2) old nw by (auto simp: e g)
  show "i < length (Authorities a')" using p(5) by (simp add: e)
  show "url_key (ae_Url (Authorities a' ! i)) = url_key u" using p(5) old by (auto simp: e)
qed

lemma RemoveAuthority_spec:
  assumes "authorities.ordered (Authorities a)" "RemoveAuthority u a = (a', ok)"
  shows "authorities.ordered (Authorities a')"
    "authorities.lookup (Authorities a') = (authorities.lookup (Authorities a))(url_key u := None)"
    "ok \<longleftrightarrow> GetAuthority u a \<noteq> None"
proof -
  obtain i found where s: "Search (Authorities a) (\<lambda>e. cmp3 (url_key (ae_Url e)) (url_key u)) = (i, found)" by fastforce
  have ok: "ok = found" using assms(2) s by (auto simp: RemoveAuthority_def URL_Compare_key split: if_splits)
  have l: "authorities.lookup (Authorities a) (url_key u) = (if found then Some (Authorities a ! i) else None)"
    by (rule authorities.lookup_Search [OF assms(1) s])
  show "ok \<longleftrightarrow> GetAuthority u a \<noteq> None" using l ok by (simp add: GetAuthority_lookup [OF assms(1)])
  have "authorities.ordered (Authorities a') \<and>
    authorities.lookup (Authorities a') = (authorities.lookup (Authorities a))(url_key u := None)"
  proof (cases found)
    case True
    then have s': "Search (Authorities a) (\<lambda>e. cmp3 (url_key (ae_Url e)) (url_key u)) = (i, True)" using s by simp
    then have "Authorities a' = take i (Authorities a) @ drop (Suc i) (Authorities a)"
      using assms(2) by (auto simp: RemoveAuthority_def URL_Compare_key)
    then show ?thesis using authorities.remove_Search(2,3) [OF assms(1) s'] by simp
  next
    case False
    then show ?thesis using assms s l by (auto simp: RemoveAuthority_def URL_Compare_key)
  qed
  then show "authorities.ordered (Authorities a')"
    "authorities.lookup (Authorities a') = (authorities.lookup (Authorities a))(url_key u := None)" by simp_all
qed

lemma MakeLiteSigner_GetUrl [simp]: "Signer_GetUrl (MakeLiteSigner s) = Signer2_GetUrl s"
  by (cases s rule: MakeLiteSigner.cases) simp_all

lemma AddSigner_spec:
  assumes "signers.ordered (Signers s)"
  shows "signers.ordered (Signers (AddSigner x s))"
    "signers.lookup (Signers (AddSigner x s)) = (signers.lookup (Signers s))(url_key (Signer2_GetUrl x) \<mapsto>
      (case signers.lookup (Signers s) (url_key (Signer2_GetUrl x)) of
         Some e \<Rightarrow> if Signer2_GetVersion x \<le> Signer_GetVersion e then e else MakeLiteSigner x
       | None \<Rightarrow> MakeLiteSigner x))"
proof -
  let ?k = "url_key (Signer2_GetUrl x)"
  let ?cmp = "\<lambda>e. cmp3 (url_key (Signer_GetUrl e)) ?k"
  obtain l i n where b: "BinaryInsert (MakeLiteSigner x) (Signers s) ?cmp = (l, i, n)"
    by (metis prod_cases3)
  note p = signers.BinaryInsert_put [OF assms b, of "MakeLiteSigner x", simplified]
  have old: "l = Signers s \<and> signers.lookup (Signers s) ?k = Some (l ! i)" if "\<not> n"
  proof -
    obtain j f where s: "Search (Signers s) ?cmp = (j, f)" by fastforce
    with b that have "f" "l = Signers s" "i = j" by (auto simp: BinaryInsert_def Let_def split: if_splits)
    then show ?thesis using signers.lookup_Search [OF assms s] by simp
  qed
  have new: "signers.lookup (Signers s) ?k = None" if n
    using p(4) that by (simp add: signers.lookup_None_iff)
  have e: "Signers (AddSigner x s) =
      (if \<not> n \<and> Signer2_GetVersion x \<le> Signer_GetVersion (l ! i) then l else l[i := MakeLiteSigner x])"
    by (simp add: AddSigner_def URL_Compare_key b)
  show "signers.ordered (Signers (AddSigner x s))" using p(1) old assms by (auto simp: e)
  show "signers.lookup (Signers (AddSigner x s)) = (signers.lookup (Signers s))(?k \<mapsto>
      (case signers.lookup (Signers s) ?k of
         Some e \<Rightarrow> if Signer2_GetVersion x \<le> Signer_GetVersion e then e else MakeLiteSigner x
       | None \<Rightarrow> MakeLiteSigner x))"
    using p(2) old new by (cases n) (auto simp: e)
qed

section \<open>The keys of a page\<close>

text \<open>A page lists its keys by hash, and those with the same hash by delegate, none first.\<close>
definition spec_key :: "KeySpec \<Rightarrow> bytes \<times> bool \<times> string" where
  "spec_key k = (PublicKeyHash k, case Delegate k of None \<Rightarrow> (False, []) | Some d \<Rightarrow> (True, url_key d))"

definition page_sorted :: "KeyPage \<Rightarrow> bool" where
  "page_sorted p \<longleftrightarrow> sorted (map spec_key (Keys p))"

lemma key_spec_cmp_neg: "key_spec_cmp k l < 0 \<Longrightarrow> spec_key l \<le> spec_key k"
  by (auto simp: key_spec_cmp_def Let_def spec_key_def less_eq_prod_simp URL_Compare_key
      split: option.splits if_splits)

lemma key_spec_cmp_nonneg: "0 \<le> key_spec_cmp k l \<longleftrightarrow> spec_key k \<le> spec_key l \<and> \<not> (spec_key k = spec_key l \<and> Delegate l = None)"
  by (auto simp: key_spec_cmp_def Let_def spec_key_def less_eq_prod_simp URL_Compare_key cmp3_def
      split: option.splits if_splits)

lemma key_spec_cmp_zero: "key_spec_cmp k l = 0 \<longleftrightarrow> spec_key k = spec_key l \<and> Delegate k \<noteq> None"
  by (auto simp: key_spec_cmp_def Let_def spec_key_def URL_Compare_key split: option.splits)

lemma spec_key_Delegate: "spec_key k = spec_key l \<Longrightarrow> Delegate k = None \<longleftrightarrow> Delegate l = None"
  by (auto simp: spec_key_def split: option.splits)

lemma AddKeySpec_cases:
  assumes "page_sorted p" "Search (Keys p) (key_spec_cmp k) = (i, found)"
  shows "i \<le> length (Keys p)" "\<forall>l \<in> set (take i (Keys p)). spec_key l \<le> spec_key k"
    "\<forall>l \<in> set (drop i (Keys p)). spec_key k \<le> spec_key l"
    "found \<longleftrightarrow> Delegate k \<noteq> None \<and> spec_key k \<in> spec_key ` set (Keys p)"
    "found \<Longrightarrow> i < length (Keys p) \<and> spec_key (Keys p ! i) = spec_key k"
proof -
  have le: "spec_key (Keys p ! a) \<le> spec_key (Keys p ! b)" if "a \<le> b" "b < length (Keys p)" for a b
    using assms(1) that sorted_nth_mono [of "map spec_key (Keys p)" a b] by (simp add: page_sorted_def)
  have "0 \<le> key_spec_cmp k (Keys p ! b)" if ab: "a \<le> b" "b < length (Keys p)" "0 \<le> key_spec_cmp k (Keys p ! a)" for a b
    using ab(3) le [OF ab(1,2)] spec_key_Delegate [of "Keys p ! a" "Keys p ! b"]
    by (auto simp: key_spec_cmp_nonneg)
  then have "\<forall>a b. a \<le> b \<longrightarrow> b < length (Keys p) \<longrightarrow> 0 \<le> key_spec_cmp k (Keys p ! a) \<longrightarrow> 0 \<le> key_spec_cmp k (Keys p ! b)"
    by blast
  note s = Search_mono [OF this assms(2)]
  show "i \<le> length (Keys p)" by (rule s(1))
  show "\<forall>l \<in> set (take i (Keys p)). spec_key l \<le> spec_key k" using s(4) key_spec_cmp_neg by blast
  show "\<forall>l \<in> set (drop i (Keys p)). spec_key k \<le> spec_key l" using s(5) by (simp add: key_spec_cmp_nonneg)
  show f: "found \<Longrightarrow> i < length (Keys p) \<and> spec_key (Keys p ! i) = spec_key k"
    using s(6) by (simp add: key_spec_cmp_zero)
  show "found \<longleftrightarrow> Delegate k \<noteq> None \<and> spec_key k \<in> spec_key ` set (Keys p)"
  proof
    assume found
    then show "Delegate k \<noteq> None \<and> spec_key k \<in> spec_key ` set (Keys p)"
      using s(6) by (metis imageI key_spec_cmp_zero nth_mem)
  next
    assume d: "Delegate k \<noteq> None \<and> spec_key k \<in> spec_key ` set (Keys p)"
    then obtain a where a: "a < length (Keys p)" "spec_key (Keys p ! a) = spec_key k"
      by (auto simp: in_set_conv_nth)
    then have "key_spec_cmp k (Keys p ! a) = 0" using d by (simp add: key_spec_cmp_zero)
    then have ia: "i \<le> a" using s(2) [of a] by (cases "a < i") simp_all
    then have "spec_key k \<le> spec_key (Keys p ! i)" using s(3) [of i] a(1) by (simp add: key_spec_cmp_nonneg)
    then have "spec_key (Keys p ! i) = spec_key k" using le [OF ia a(1)] a(2) by simp
    then show found using s(6) ia a(1) d by (simp add: key_spec_cmp_zero)
  qed
qed

lemma AddKeySpec_sorted:
  assumes "page_sorted p"
  shows "page_sorted (AddKeySpec k p)"
    "PublicKeyHash ` set (Keys (AddKeySpec k p)) = insert (PublicKeyHash k) (PublicKeyHash ` set (Keys p))"
    "length (Keys (AddKeySpec k p)) = length (Keys p) +
      (if Delegate k \<noteq> None \<and> spec_key k \<in> spec_key ` set (Keys p) then 0 else 1)"
proof -
  obtain i found where s: "Search (Keys p) (key_spec_cmp k) = (i, found)" by fastforce
  note c = AddKeySpec_cases [OF assms s]
  have "page_sorted (AddKeySpec k p) \<and>
    PublicKeyHash ` set (Keys (AddKeySpec k p)) = insert (PublicKeyHash k) (PublicKeyHash ` set (Keys p)) \<and>
    length (Keys (AddKeySpec k p)) = length (Keys p) + (if found then 0 else 1)"
  proof (cases found)
    case True
    have i: "i < length (Keys p)" "spec_key (Keys p ! i) = spec_key k" using c(5) [OF True] by simp_all
    have e: "Keys (AddKeySpec k p) = (Keys p)[i := k]"
      using s True by (simp add: AddKeySpec_def BinaryInsert_found)
    have m: "map spec_key ((Keys p)[i := k]) = map spec_key (Keys p)"
      using i by (simp add: map_update list_update_same_conv)
    have "map PublicKeyHash ((Keys p)[i := k]) = map PublicKeyHash (Keys p)"
      using m by (auto simp: list_eq_iff_nth_eq spec_key_def)
    then have "PublicKeyHash ` set ((Keys p)[i := k]) = PublicKeyHash ` set (Keys p)" by (metis set_map)
    moreover have "PublicKeyHash k \<in> PublicKeyHash ` set (Keys p)"
      using i by (metis fst_conv imageI nth_mem spec_key_def)
    ultimately show ?thesis using True m assms by (simp add: e page_sorted_def insert_absorb)
  next
    case False
    have e: "Keys (AddKeySpec k p) = take i (Keys p) @ k # drop i (Keys p)"
      using BinaryInsert_new [of "Keys p" "key_spec_cmp k" i k] s False c(1)
      by (simp add: AddKeySpec_def list_update_append)
    have t: "sorted (map spec_key (take i (Keys p)))" "sorted (map spec_key (drop i (Keys p)))"
      "\<forall>x \<in> set (take i (Keys p)). \<forall>y \<in> set (drop i (Keys p)). spec_key x \<le> spec_key y"
      using assms sorted_append [of "map spec_key (take i (Keys p))" "map spec_key (drop i (Keys p))"]
      by (simp_all add: page_sorted_def flip: map_append)
    have "sorted (map spec_key (take i (Keys p) @ k # drop i (Keys p)))"
      using t c(2,3) by (simp add: sorted_append)
    moreover have "set (Keys p) = set (take i (Keys p)) \<union> set (drop i (Keys p))"
      by (metis append_take_drop_id set_append)
    ultimately show ?thesis using False c(1) by (auto simp: e page_sorted_def)
  qed
  then show "page_sorted (AddKeySpec k p)"
    "PublicKeyHash ` set (Keys (AddKeySpec k p)) = insert (PublicKeyHash k) (PublicKeyHash ` set (Keys p))"
    "length (Keys (AddKeySpec k p)) = length (Keys p) +
      (if Delegate k \<noteq> None \<and> spec_key k \<in> spec_key ` set (Keys p) then 0 else 1)"
    using c(4) by simp_all
qed

lemma EntryByKeyHash_sorted:
  assumes "page_sorted p"
  shows "EntryByKeyHash h p \<noteq> None \<longleftrightarrow> h \<in> PublicKeyHash ` set (Keys p)"
    "EntryByKeyHash h p = Some i \<Longrightarrow> i < length (Keys p) \<and> PublicKeyHash (Keys p ! i) = h"
proof -
  have "sorted (map PublicKeyHash (Keys p))"
    unfolding sorted_map
  proof (rule sorted_wrt_mono_rel)
    show "sorted_wrt (\<lambda>x y. spec_key x \<le> spec_key y) (Keys p)"
      using assms by (simp add: page_sorted_def sorted_map)
    show "PublicKeyHash x \<le> PublicKeyHash y" if "spec_key x \<le> spec_key y" for x y
      using that by (auto simp: spec_key_def)
  qed
  from keyhashes.Search_weak [OF this, of h]
  show "EntryByKeyHash h p \<noteq> None \<longleftrightarrow> h \<in> PublicKeyHash ` set (Keys p)"
    by (simp add: EntryByKeyHash_def case_prod_unfold)
  show "EntryByKeyHash h p = Some i \<Longrightarrow> i < length (Keys p) \<and> PublicKeyHash (Keys p ! i) = h"
    by (auto simp: EntryByKeyHash_def Search_def Let_def split: if_splits prod.splits)
qed

section \<open>The bits of a blacklist\<close>

lemma push_bit_one_le: "i < 64 \<Longrightarrow> push_bit i (1 :: 64 word) \<le> u \<longleftrightarrow> 2 ^ i \<le> unat u"
proof -
  assume i: "i < 64"
  then have "(2 :: nat) ^ i < 2 ^ 64" by (intro power_strict_increasing) simp_all
  then have "unat (word_of_nat (2 ^ i) :: 64 word) = 2 ^ i"
    using i by (simp only: unsigned_of_nat) (simp add: take_bit_nat_eq_self)
  moreover have "push_bit i (1 :: 64 word) = word_of_nat (2 ^ i)" by (simp add: push_bit_eq_mult)
  ultimately show ?thesis by (simp add: word_le_nat_alt)
qed

lemma mask_and_bit: "push_bit i 1 AND u \<noteq> 0 \<longleftrightarrow> i < 64 \<and> bit (u :: 64 word) i"
proof -
  have "push_bit i 1 AND u = (if bit u i then push_bit i 1 else 0)"
    by (rule bit_eqI) (auto simp: bit_simps)
  moreover have "push_bit i (1 :: 64 word) = 0 \<longleftrightarrow> 64 \<le> i"
    by (auto simp: push_bit_eq_mult exp_eq_zero_iff)
  ultimately show ?thesis by auto
qed

lemma high_bits_unset: "unat (u :: 64 word) < 2 ^ i \<Longrightarrow> i \<le> j \<Longrightarrow> \<not> bit u j"
proof -
  assume "unat u < 2 ^ i" "i \<le> j"
  then have "unat u < 2 ^ j" by (meson less_power_mono)
  then have "\<not> bit (unat u) j" by (simp add: bit_iff_odd)
  then show ?thesis by (simp add: bit_unsigned_iff)
qed

text \<open>Below \<open>2 ^ 63\<close> the loop ends after the highest bit that is set.\<close>
lemma unpack_loop_ends:
  assumes "unat u < 2 ^ 63" "i \<le> 63"
  shows "unpack_loop i u bits = Some (bits @ filter (bit u) [i..<64])"
  using assms(2)
proof (induction "63 - i" arbitrary: i bits)
  case 0
  then have "i = 63" by simp
  then show ?case
    using assms(1) push_bit_one_le [of 63 u] high_bits_unset [OF assms(1), of 63]
    by (subst unpack_loop.simps) (simp add: upt_conv_Cons)
next
  case (Suc n)
  then have "i < 64" by simp
  show ?case
  proof (cases "2 ^ i \<le> unat u")
    case True
    have "unpack_loop (i + 1) u bs = Some (bs @ filter (bit u) [i + 1..<64])" for bs
      using Suc by (intro Suc.hyps(1)) simp_all
    moreover have "push_bit i 1 AND u \<noteq> 0 \<longleftrightarrow> bit u i" using \<open>i < 64\<close> mask_and_bit [of i u] by simp
    ultimately show ?thesis
      using True Suc.hyps(2) push_bit_one_le [of i u] by (subst unpack_loop.simps) (simp add: upt_conv_Cons)
  next
    case False
    then have "filter (bit u) [i..<64] = []" using high_bits_unset [of u i] by (simp add: filter_empty_conv)
    with False Suc show ?thesis using push_bit_one_le [of i u] by (subst unpack_loop.simps) simp
  qed
qed

text \<open>With the highest bit set the condition of the loop always holds.\<close>
lemma unpack_loop_forever:
  assumes "2 ^ 63 \<le> unat u"
  shows "unpack_loop i u bits = None"
proof -
  have c: "push_bit i (1 :: 64 word) \<le> u" for i
  proof (cases "i < 64")
    case True
    then have "(2 :: nat) ^ i \<le> 2 ^ 63" by (intro power_increasing) simp_all
    then show ?thesis using assms push_bit_one_le [OF True, of u] by (meson order.trans)
  next
    case False
    then have z: "push_bit i (1 :: 64 word) = 0" by (auto simp: push_bit_eq_mult exp_eq_zero_iff)
    show ?thesis unfolding z by simp
  qed
  have "u' \<noteq> u" if "unpack_loop i u' bits = Some y" for i u' bits y
    by (rule unpack_loop.raw_induct [of "\<lambda>i u' bits y. u' \<noteq> u", OF _ that]) (use c in \<open>auto split: if_splits\<close>)
  then show ?thesis by (cases "unpack_loop i u bits") auto
qed

section \<open>The signers of an authority\<close>

lemma filter_range:
  assumes "\<And>a. a < length l \<Longrightarrow> P (l ! a) \<longleftrightarrow> i \<le> a \<and> a < j" "i \<le> j" "j \<le> length l"
  shows "filter P l = drop i (take j l)"
proof -
  have "l = take i l @ drop i (take j l) @ drop j l"
    using assms(2) by (metis append.assoc append_take_drop_id min.absorb1 take_take)
  moreover have "filter P (take i l) = []" "filter P (drop j l) = []"
    using assms by (auto simp: filter_empty_conv set_conv_nth)
  moreover have "filter P (drop i (take j l)) = drop i (take j l)"
    using assms by (intro filter_True) (auto simp: set_conv_nth)
  ultimately show ?thesis by (metis append_Nil append_Nil2 filter_append)
qed

text \<open>
  The children of the authority are found when no other signer that sorts after the authority comes
  before one of them.
\<close>
lemma FindSigners_filter:
  assumes o: "signers.ordered (Signers s)" and na: "url_key authority \<notin> (\<lambda>e. url_key (Signer_GetUrl e)) ` set (Signers s)"
    and con: "\<forall>a b. a < b \<longrightarrow> b < length (Signers s) \<longrightarrow> url_key authority < url_key (Signer_GetUrl (Signers s ! a)) \<longrightarrow>
      ParentOf authority (Signer_GetUrl (Signers s ! b)) \<longrightarrow> ParentOf authority (Signer_GetUrl (Signers s ! a))"
  shows "FindSigners authority s = filter (\<lambda>e. url_key authority < url_key (Signer_GetUrl e)
    \<and> ParentOf authority (Signer_GetUrl e)) (Signers s)"
proof -
  let ?l = "Signers s" and ?k = "url_key authority"
  let ?par = "\<lambda>a. ParentOf authority (Signer_GetUrl (?l ! a))"
  let ?P = "\<lambda>e. ?k < url_key (Signer_GetUrl e) \<and> ParentOf authority (Signer_GetUrl e)"
  obtain i found where s: "Search ?l (\<lambda>e. cmp3 (url_key (Signer_GetUrl e)) ?k) = (i, found)" by fastforce
  note sp = signers.Search_split [OF o s]
  have nf: "\<not> found" using signers.Search_found_iff [OF o s] na by simp
  have ne: "url_key (Signer_GetUrl (?l ! a)) \<noteq> ?k" if "a < length ?l" for a
    using na nth_mem [OF that] by (metis imageI)
  have ge: "?k < url_key (Signer_GetUrl (?l ! a)) \<longleftrightarrow> i \<le> a" if a: "a < length ?l" for a
  proof (cases "i \<le> a")
    case True
    then have "?l ! a \<in> set (drop i ?l)" using a by (metis Cons_nth_drop_Suc in_set_dropD list.set_intros(1) drop_drop le_add_diff_inverse2)
    then show ?thesis using sp(3) True ne [OF a] by fastforce
  next
    case False
    then have "take i ?l ! a = ?l ! a" "a < length (take i ?l)" using a by simp_all
    then have "?l ! a \<in> set (take i ?l)" by (metis nth_mem)
    then show ?thesis using sp(2) False by fastforce
  qed
  have con': "?par a" if "i \<le> a" "a < b" "b < length ?l" "?par b" for a b
    using con that ge [of a] by auto
  have fs: "FindSigners authority s = (if i \<ge> length ?l then [] else if \<not> ?par i then []
    else drop i (take (sort_search (\<lambda>a. if url_key (Signer_GetUrl (?l ! a)) < ?k then False else \<not> ?par a) 0 (length ?l)) ?l))"
    using s nf by (simp add: FindSigners_def URL_Compare_key)
  show ?thesis
  proof (cases "i < length ?l \<and> ?par i")
    case False
    have "\<not> ?P (?l ! a)" if "a < length ?l" for a
      using ge [OF that] con' [of i a] False that by (cases "a = i") auto
    then have "filter ?P ?l = []" by (auto simp: filter_empty_conv set_conv_nth)
    then show ?thesis using False fs by simp
  next
    case True
    define j where "j = sort_search (\<lambda>a. if url_key (Signer_GetUrl (?l ! a)) < ?k then False else \<not> ?par a) 0 (length ?l)"
    have f: "(if url_key (Signer_GetUrl (?l ! a)) < ?k then False else \<not> ?par a) \<longleftrightarrow> i \<le> a \<and> \<not> ?par a"
      if "a < length ?l" for a
      using ge [OF that] ne [OF that] by auto
    have j: "j \<le> length ?l \<and> (\<forall>a < j. \<not> (if url_key (Signer_GetUrl (?l ! a)) < ?k then False else \<not> ?par a))
      \<and> (\<forall>a. j \<le> a \<longrightarrow> a < length ?l \<longrightarrow> (if url_key (Signer_GetUrl (?l ! a)) < ?k then False else \<not> ?par a))"
      unfolding j_def
    proof (rule sort_search_spec, goal_cases)
      case (1 a b)
      then have "a < length ?l" by simp
      with 1 f [of a] f [of b] con' [of a b] show ?case by (cases "a = b") auto
    qed simp_all
    then have "\<not> j \<le> i" using f [of i] True by blast
    moreover have "?P (?l ! a) \<longleftrightarrow> i \<le> a \<and> a < j" if "a < length ?l" for a
      using j f [OF that] ge [OF that] that by (cases "a < j") auto
    ultimately have "filter ?P ?l = drop i (take j ?l)"
      using j by (intro filter_range) auto
    then show ?thesis using True fs by (simp flip: j_def)
  qed
qed

section \<open>Properties\<close>

text \<open>
  C30. The sorted list of a set of transaction IDs is a set: adding and removing keep it strictly
  sorted, add and remove exactly the given ID, and the search for a hash finds it exactly when some
  ID of the set has it.
\<close>
theorem TxIdSet_correct:
  assumes "sorted_wrt (<) (map TxID_key (Entries_ids s))"
  shows "sorted_wrt (<) (map TxID_key (Entries_ids (TxIdSet_Add x s)))
    \<and> sorted_wrt (<) (map TxID_key (Entries_ids (TxIdSet_Remove x s)))
    \<and> TxID_key ` set (Entries_ids (TxIdSet_Add x s)) = insert (TxID_key x) (TxID_key ` set (Entries_ids s))
    \<and> TxID_key ` set (Entries_ids (TxIdSet_Remove x s)) = TxID_key ` set (Entries_ids s) - {TxID_key x}
    \<and> (ContainsHash h s \<longleftrightarrow> h \<in> tx_hash ` set (Entries_ids s))"
  using TxIdSet_Add_ordered [of s x] TxIdSet_Remove_ordered [of s x] ContainsHash_iff [of s h] assms
  by (simp add: txids.ordered_def)

theorem TxIdSet_correct_witness:
  "TxID_key ` set (Entries_ids (TxIdSet_Add (WithTxID new_URL [2]) \<lparr> Entries_ids = [WithTxID new_URL [1]] \<rparr>))
    = {TxID_key (WithTxID new_URL [2]), TxID_key (WithTxID new_URL [1])}"
  using TxIdSet_correct [of "\<lparr> Entries_ids = [WithTxID new_URL [1]] \<rparr>" "WithTxID new_URL [2]"] by simp

text \<open>
  C31. The authorities of an account are a map by URL: after adding an authority it is found, an
  existing entry being left as it is and a new one being enabled; after removing it, it is not found;
  the other authorities are not touched; the list stays strictly sorted.
\<close>
theorem AccountAuth_map:
  assumes "sorted_wrt (<) (map (\<lambda>e. url_key (ae_Url e)) (Authorities a))"
    "AddAuthority u a = (b, i, new)" "RemoveAuthority u a = (c, ok)"
  shows "sorted_wrt (<) (map (\<lambda>e. url_key (ae_Url e)) (Authorities b))
    \<and> sorted_wrt (<) (map (\<lambda>e. url_key (ae_Url e)) (Authorities c))
    \<and> new = (GetAuthority u a = None) \<and> ok = (GetAuthority u a \<noteq> None)
    \<and> GetAuthority v b = (if URL_Equal v u then (if new then Some \<lparr> ae_Url = u, Disabled = False \<rparr> else GetAuthority u a)
        else GetAuthority v a)
    \<and> GetAuthority v c = (if URL_Equal v u then None else GetAuthority v a)"
proof -
  have o: "authorities.ordered (Authorities a)" using assms(1) by (simp add: authorities.ordered_def)
  note ad = AddAuthority_spec [OF o assms(2)] and rm = RemoveAuthority_spec [OF o assms(3)]
  show ?thesis
    using ad(1-3) rm by (simp add: authorities.ordered_def [symmetric] GetAuthority_lookup o URL_Equal_key)
qed

theorem AccountAuth_map_witness:
  "GetAuthority (new_URL \<lparr> Authority := ''B'' \<rparr>) (fst (AddAuthority (new_URL \<lparr> Authority := ''b'' \<rparr>) \<lparr> Authorities = [] \<rparr>))
    = Some \<lparr> ae_Url = new_URL \<lparr> Authority := ''b'' \<rparr>, Disabled = False \<rparr>"
proof -
  let ?u = "new_URL \<lparr> Authority := ''b'' \<rparr>" and ?v = "new_URL \<lparr> Authority := ''B'' \<rparr>" and ?a = "\<lparr> Authorities = [] \<rparr>"
  obtain b i new c ok where r: "AddAuthority ?u ?a = (b, i, new)" "RemoveAuthority ?u ?a = (c, ok)"
    by (metis prod_cases3 surj_pair)
  have "URL_Equal ?v ?u" by code_simp
  moreover have "GetAuthority ?u ?a = None" by (simp add: GetAuthority_def Search_def sort_search.simps)
  ultimately show ?thesis using AccountAuth_map [OF _ r, of ?v] by (simp add: r)
qed

text \<open>
  C32. Adding a key to a page keeps its keys sorted by hash and delegate, and a key hash is found on
  the page exactly when some key has it; adding a key never removes one, and it replaces an entry only
  when both have the same hash and the same delegate, so a key without delegate added twice is listed
  twice.
\<close>
theorem AddKeySpec_page:
  assumes "page_sorted p"
  shows "page_sorted (AddKeySpec k p)
    \<and> (EntryByKeyHash h (AddKeySpec k p) \<noteq> None \<longleftrightarrow> h = PublicKeyHash k \<or> EntryByKeyHash h p \<noteq> None)
    \<and> length (Keys (AddKeySpec k p)) = length (Keys p) +
        (if Delegate k \<noteq> None \<and> spec_key k \<in> spec_key ` set (Keys p) then 0 else 1)"
proof -
  note s = AddKeySpec_sorted [OF assms, of k]
  show ?thesis
    using s EntryByKeyHash_sorted(1) [OF assms, of h] EntryByKeyHash_sorted(1) [OF s(1), of h] by auto
qed

definition empty_page :: KeyPage where
  "empty_page = \<lparr> kp_Url = new_URL, CreditBalance = 0, AcceptThreshold = 1, RejectThreshold = 0,
     ResponseThreshold = 0, BlockThreshold = 0, Version = 1, Keys = [], TransactionBlacklist = None \<rparr>"

theorem AddKeySpec_page_witness:
  "let k = \<lparr> PublicKeyHash = [7], LastUsedOn = 0, Delegate = None \<rparr>; p = AddKeySpec k empty_page
   in EntryByKeyHash [7] (AddKeySpec k p) \<noteq> None \<and> EntryByKeyHash [8] (AddKeySpec k p) = None
     \<and> length (Keys (AddKeySpec k p)) = 2"
proof -
  let ?k = "\<lparr> PublicKeyHash = [7], LastUsedOn = 0, Delegate = None \<rparr>"
  have e: "page_sorted empty_page" "EntryByKeyHash [8] empty_page = None" "Keys empty_page = []"
    by (simp_all add: page_sorted_def empty_page_def EntryByKeyHash_def Search_def sort_search.simps)
  note one = AddKeySpec_page [OF e(1), of ?k "[8]"]
  note two = AddKeySpec_page [OF conjunct1 [OF one], of ?k]
  show ?thesis using one two [of "[7]"] two [of "[8]"] e(2,3) by (simp add: Let_def)
qed

text \<open>
  C33. A transaction status keeps one entry per signer, sorted by URL, and the entry is the one of the
  highest version added, the first one among equals.
\<close>
theorem AddSigner_newest:
  assumes "sorted_wrt (<) (map (\<lambda>e. url_key (Signer_GetUrl e)) (Signers s))"
  shows "sorted_wrt (<) (map (\<lambda>e. url_key (Signer_GetUrl e)) (Signers (AddSigner x s)))
    \<and> GetSigner v (AddSigner x s) = (if \<not> URL_Equal v (Signer2_GetUrl x) then GetSigner v s
       else case GetSigner v s of
           Some e \<Rightarrow> if Signer2_GetVersion x \<le> Signer_GetVersion e then Some e else Some (MakeLiteSigner x)
         | None \<Rightarrow> Some (MakeLiteSigner x))"
proof -
  have o: "signers.ordered (Signers s)" using assms by (simp add: signers.ordered_def)
  note a = AddSigner_spec [OF o, of x]
  show ?thesis
    using a by (auto simp: signers.ordered_def [symmetric] GetSigner_lookup o URL_Equal_key split: option.splits)
qed

definition empty_status :: TransactionStatus where
  "empty_status = \<lparr> ts_TxID = None, Code = None, Error = None, ts_Received = 0, Initiator = None,
     Signers = [], AnchorSigners = [] \<rparr>"

theorem AddSigner_newest_witness:
  "GetSigner new_URL (AddSigner (OtherSigner new_URL 3) empty_status) = Some (UnknownSignerOf \<lparr> us_Url = new_URL, us_Version = 3 \<rparr>)"
proof -
  have "GetSigner new_URL empty_status = None"
    by (simp add: GetSigner_def empty_status_def Search_def sort_search.simps)
  then show ?thesis
    using AddSigner_newest [of empty_status "OtherSigner new_URL 3" new_URL]
    by (simp add: empty_status_def URL_Equal_key)
qed

text \<open>
  C34. The search for the signers of an authority returns exactly the signers below it that sort after
  it, provided they are not preceded by another signer that sorts after the authority and the
  authority is not a signer itself.
\<close>
theorem FindSigners_children:
  assumes "sorted_wrt (<) (map (\<lambda>e. url_key (Signer_GetUrl e)) (Signers s))"
    "url_key authority \<notin> (\<lambda>e. url_key (Signer_GetUrl e)) ` set (Signers s)"
    "\<forall>a b. a < b \<longrightarrow> b < length (Signers s) \<longrightarrow> url_key authority < url_key (Signer_GetUrl (Signers s ! a)) \<longrightarrow>
      ParentOf authority (Signer_GetUrl (Signers s ! b)) \<longrightarrow> ParentOf authority (Signer_GetUrl (Signers s ! a))"
  shows "FindSigners authority s = filter (\<lambda>e. url_key authority < url_key (Signer_GetUrl e)
    \<and> ParentOf authority (Signer_GetUrl e)) (Signers s)"
  using assms by (intro FindSigners_filter) (simp_all add: signers.ordered_def)

definition page_signer :: "string \<Rightarrow> Signer" where
  "page_signer p = UnknownSignerOf \<lparr> us_Url = new_URL \<lparr> Authority := ''a.acme'', Path := p \<rparr>, us_Version = 1 \<rparr>"

theorem FindSigners_children_witness:
  "FindSigners (new_URL \<lparr> Authority := ''a.acme'', Path := ''/book'' \<rparr>) (empty_status \<lparr> Signers := [page_signer ''/book/1''] \<rparr>)
    = [page_signer ''/book/1'']"
proof -
  let ?a = "new_URL \<lparr> Authority := ''a.acme'', Path := ''/book'' \<rparr>"
  define e where "e = page_signer ''/book/1''"
  have k: "url_key ?a < url_key (Signer_GetUrl e)" and p: "ParentOf ?a (Signer_GetUrl e)"
    unfolding e_def by code_simp+
  have "FindSigners ?a (empty_status \<lparr> Signers := [e] \<rparr>) = filter (\<lambda>e. url_key ?a < url_key (Signer_GetUrl e)
    \<and> ParentOf ?a (Signer_GetUrl e)) (Signers (empty_status \<lparr> Signers := [e] \<rparr>))"
    by (rule FindSigners_children) (use k in auto)
  then show ?thesis using k p by (simp flip: e_def)
qed

text \<open>
  C35. Otherwise signers are missed: when the signers are sorted, none is the authority itself, and the
  first one that sorts after the authority is not below it, the search returns nothing. Signers that
  follow are missed even if they are below the authority; each is listed, and found by its own URL.
\<close>
theorem FindSigners_misses:
  assumes "sorted_wrt (<) (map (\<lambda>e. url_key (Signer_GetUrl e)) (Signers s))"
    "Signers s = before @ first # after" "\<forall>e \<in> set before. url_key (Signer_GetUrl e) < url_key authority"
    "url_key authority < url_key (Signer_GetUrl first)" "\<not> ParentOf authority (Signer_GetUrl first)"
    "page \<in> set after"
  shows "GetSigner (Signer_GetUrl page) s = Some page \<and> FindSigners authority s = []"
proof -
  have o: "signers.ordered (Signers s)" using assms(1) by (simp add: signers.ordered_def)
  let ?k = "url_key authority"
  obtain i found where s: "Search (Signers s) (\<lambda>e. cmp3 (url_key (Signer_GetUrl e)) ?k) = (i, found)" by fastforce
  note sp = signers.Search_split [OF o s]
  have "i = length before"
  proof (rule ccontr)
    assume "i \<noteq> length before"
    then consider "i < length before" | "length before < i" by linarith
    then show False
    proof cases
      case 1
      then have "before ! i \<in> set (drop i (Signers s))" "before ! i \<in> set before"
        by (simp_all add: assms(2) flip: Cons_nth_drop_Suc)
      then show False using sp(3) assms(3) by fastforce
    next
      case 2
      then have "first \<in> set (take i (Signers s))" by (cases "i - length before") (auto simp: assms(2))
      then show False using sp(2) assms(4) by fastforce
    qed
  qed
  then have "Signers s ! i = first" "i < length (Signers s)" by (simp_all add: assms(2))
  then have "FindSigners authority s = []" using s sp(4) assms(4,5) by (simp add: FindSigners_def URL_Compare_key)
  moreover have "GetSigner (Signer_GetUrl page) s = Some page"
    using signers.lookup_Some [OF o, of "url_key (Signer_GetUrl page)" page] assms(2,6) by (simp add: GetSigner_lookup [OF o])
  ultimately show ?thesis by simp
qed

text \<open>A page of a book whose name extends the authority's by a hyphen hides the authority's own page.\<close>
theorem FindSigners_misses_witness:
  "let authority = new_URL \<lparr> Authority := ''a.acme'', Path := ''/book'' \<rparr>;
       s = AddSigner (FullSigner (page_signer ''/book/1'')) (AddSigner (FullSigner (page_signer ''/book-2/1'')) empty_status)
   in GetSigner (Signer_GetUrl (page_signer ''/book/1'')) s = Some (page_signer ''/book/1'')
     \<and> ParentOf authority (Signer_GetUrl (page_signer ''/book/1'')) \<and> FindSigners authority s = []"
proof -
  let ?a = "new_URL \<lparr> Authority := ''a.acme'', Path := ''/book'' \<rparr>"
  let ?s = "AddSigner (FullSigner (page_signer ''/book/1'')) (AddSigner (FullSigner (page_signer ''/book-2/1'')) empty_status)"
  let ?first = "page_signer ''/book-2/1''" and ?page = "page_signer ''/book/1''"
  have "Signers ?s = [] @ ?first # [?page]" "url_key ?a < url_key (Signer_GetUrl ?first)" "\<not> ParentOf ?a (Signer_GetUrl ?first)"
    "sorted_wrt (<) (map (\<lambda>e. url_key (Signer_GetUrl e)) (Signers ?s))" "ParentOf ?a (Signer_GetUrl ?page)"
    by code_simp+
  then show ?thesis using FindSigners_misses [of ?s "[]" ?first "[?page]" ?a ?page] by simp
qed

text \<open>
  C36. Listing the bits of a blacklist ends exactly when the highest of the 64 bits is not set, and
  then gives the bits that are set, in order; with the highest bit set the loop never ends.
\<close>
theorem Unpack_ends:
  "Unpack (Some u) = (if unat u < 2 ^ 63 then Some (filter (\<lambda>i. IsSet i (Some u)) [0..<64]) else None)"
proof -
  have "filter (\<lambda>i. IsSet i (Some u)) [0..<64] = filter (bit u) [0..<64]"
    using mask_and_bit [of _ u] by (intro filter_cong) (auto simp: IsSet_def Mask_def and.commute)
  then show ?thesis
    using unpack_loop_ends [of u 0 "[]"] unpack_loop_forever [of u 0 "[]"] by (simp add: Unpack_def not_less)
qed

text \<open>
  C37. Debiting credits never goes below zero: the debit is refused and nothing changes exactly when
  the balance is too small, and otherwise the balance goes down by exactly the amount; crediting and
  then debiting the same amount gives the page back unless the credit overflows 64 bits.
\<close>
theorem credits_conserved:
  "(case DebitCredits amount page of (page', ok) \<Rightarrow>
      (if unat amount \<le> unat (CreditBalance page)
       then ok \<and> unat (CreditBalance page') + unat amount = unat (CreditBalance page)
       else \<not> ok \<and> page' = page)) \<and>
   (DebitCredits amount (CreditCredits amount page) = (page, True) \<longleftrightarrow> unat (CreditBalance page) + unat amount < 2 ^ 64)"
proof -
  have sub: "amount \<le> CreditBalance page \<Longrightarrow> unat (CreditBalance page - amount) + unat amount = unat (CreditBalance page)"
    using unat_sub [of amount "CreditBalance page"] word_le_nat_alt [of amount "CreditBalance page"] by linarith
  have add: "amount \<le> CreditBalance page + amount \<longleftrightarrow> unat (CreditBalance page) + unat amount < 2 ^ 64"
    using no_olen_add_nat [of amount "CreditBalance page"]
    unfolding add.commute [of amount] add.commute [of "unat amount"] by simp
  have "case DebitCredits amount page of (page', ok) \<Rightarrow>
      (if unat amount \<le> unat (CreditBalance page)
       then ok \<and> unat (CreditBalance page') + unat amount = unat (CreditBalance page)
       else \<not> ok \<and> page' = page)"
    using sub unfolding word_le_nat_alt [symmetric] by (simp add: DebitCredits_def CanDebitCredits_def)
  moreover have "DebitCredits amount (CreditCredits amount page) = (page, True) \<longleftrightarrow> amount \<le> CreditBalance page + amount"
    by (cases page) (simp add: DebitCredits_def CanDebitCredits_def CreditCredits_def)
  ultimately show ?thesis unfolding add by (rule conjI)
qed

end
