(* ===== verification/Accounts.thy ===== *)
theory Accounts
  imports Auth Receipt
begin

text \<open>
  The accounts and transaction bodies of \<^verbatim>\<open>src/protocol\<close>, the part of a database batch
  (\<^verbatim>\<open>src/internal/database\<close>) that an executor reads and writes, and the state manager of
  \<^verbatim>\<open>src/internal/chain\<close> through which it does so: creating and updating accounts, directory
  entries, chain entries, produced transactions, and the authorities a new account gets.

  The records of a batch are kept by the account ID of their URL, as \<^verbatim>\<open>Batch.Account\<close> keeps
  them. A chain is the list of its entries, which is what \<^verbatim>\<open>AddHash\<close> and \<^verbatim>\<open>GetRange\<close>
  implement. The store itself does not fail: the only error of a read is that nothing is there.
  Executors change an account in place and then store it, so an account is a value here and storing
  it is the change. An error is the one raised first: the text that callers wrap around it, and the
  status they give an error that has none, are left out.
\<close>

section \<open>Accounts\<close>

record TokenAccount =
  ta_Url :: URL
  ta_Auth :: AccountAuth
  ta_TokenUrl :: URL
  ta_Balance :: int

record LiteTokenAccount =
  lta_Url :: URL
  lta_TokenUrl :: URL
  lta_Balance :: int
  LockHeight :: "64 word"

record TokenIssuer =
  ti_Url :: URL
  ti_Auth :: AccountAuth
  Symbol :: string
  Precision :: "64 word"
  Properties :: "URL option"
  Issued :: int
  SupplyLimit :: "int option"

record ADI =
  adi_Url :: URL
  adi_Auth :: AccountAuth

datatype BookType = BookTypeNormal | BookTypeValidator | BookTypeOperator

record KeyBook =
  kb_Url :: URL
  BookType :: BookType
  kb_Auth :: AccountAuth
  PageCount :: "64 word"

text \<open>The entry of a data account is left out: only writing data reads it.\<close>
record DataAccount =
  da_Url :: URL
  da_Auth :: AccountAuth

text \<open>The part of a partition's ledger that the executors use.\<close>
record SystemLedger =
  sl_Url :: URL
  sl_Index :: "64 word"
  AcmeBurnt :: int

text \<open>The remaining account types (lite data accounts and the other ledgers) have a URL and no authorities.\<close>
datatype Account =
    TokenAccountOf TokenAccount
  | LiteTokenAccountOf LiteTokenAccount
  | TokenIssuerOf TokenIssuer
  | LiteIdentityOf LiteIdentity
  | KeyPageOf KeyPage
  | KeyBookOf KeyBook
  | ADIOf ADI
  | DataAccountOf DataAccount
  | SystemLedgerOf SystemLedger
  | OtherAccountOf URL

fun GetUrl :: "Account \<Rightarrow> URL" where
  "GetUrl (TokenAccountOf a) = ta_Url a"
| "GetUrl (LiteTokenAccountOf a) = lta_Url a"
| "GetUrl (TokenIssuerOf a) = ti_Url a"
| "GetUrl (LiteIdentityOf a) = li_Url a"
| "GetUrl (KeyPageOf a) = kp_Url a"
| "GetUrl (KeyBookOf a) = kb_Url a"
| "GetUrl (ADIOf a) = adi_Url a"
| "GetUrl (DataAccountOf a) = da_Url a"
| "GetUrl (SystemLedgerOf a) = sl_Url a"
| "GetUrl (OtherAccountOf u) = u"

text \<open>The authorities of a full account; an account of another type is not a \<^verbatim>\<open>FullAccount\<close>.\<close>
fun GetAuth :: "Account \<Rightarrow> AccountAuth option" where
  "GetAuth (TokenAccountOf a) = Some (ta_Auth a)"
| "GetAuth (TokenIssuerOf a) = Some (ti_Auth a)"
| "GetAuth (KeyBookOf a) = Some (kb_Auth a)"
| "GetAuth (ADIOf a) = Some (adi_Auth a)"
| "GetAuth (DataAccountOf a) = Some (da_Auth a)"
| "GetAuth _ = None"

text \<open>Assigning through the pointer that \<^verbatim>\<open>GetAuth\<close> returns.\<close>
fun put_auth :: "AccountAuth \<Rightarrow> Account \<Rightarrow> Account" where
  "put_auth x (TokenAccountOf a) = TokenAccountOf (a \<lparr> ta_Auth := x \<rparr>)"
| "put_auth x (TokenIssuerOf a) = TokenIssuerOf (a \<lparr> ti_Auth := x \<rparr>)"
| "put_auth x (KeyBookOf a) = KeyBookOf (a \<lparr> kb_Auth := x \<rparr>)"
| "put_auth x (ADIOf a) = ADIOf (a \<lparr> adi_Auth := x \<rparr>)"
| "put_auth x (DataAccountOf a) = DataAccountOf (a \<lparr> da_Auth := x \<rparr>)"
| "put_auth x a = a"

section \<open>Transactions\<close>

record TokenRecipient =
  tr_Url :: "URL option"
  tr_Amount :: int

record IssueTokens =
  Recipient :: "URL option"
  it_Amount :: int
  it_To :: "TokenRecipient list"

record AddCredits =
  ac_Recipient :: "URL option"
  ac_Amount :: int
  ac_Oracle :: "64 word"

record CreateToken =
  ct_Url :: "URL option"
  ct_Symbol :: string
  ct_Precision :: "64 word"
  ct_Properties :: "URL option"
  ct_SupplyLimit :: "int option"
  ct_Authorities :: "URL option list"

text \<open>A proof that an issuer exists: the transaction that created it, and a receipt for it.\<close>
record TokenIssuerProof =
  tip_Transaction :: "CreateToken option"
  tip_Receipt :: "Receipt option"

record CreateTokenAccount =
  cta_Url :: "URL option"
  cta_TokenUrl :: "URL option"
  cta_Authorities :: "URL option list"
  Proof :: "TokenIssuerProof option"

record CreateIdentity =
  ci_Url :: "URL option"
  ci_KeyHash :: bytes
  KeyBookUrl :: "URL option"
  ci_Authorities :: "URL option list"

record CreateKeyBook =
  ckb_Url :: "URL option"
  ckb_PublicKeyHash :: bytes
  ckb_Authorities :: "URL option list"

record CreateDataAccount =
  cda_Url :: "URL option"
  cda_Authorities :: "URL option list"

datatype KeyPageOperation =
    UpdateKeyOperation KeySpecParams KeySpecParams
  | RemoveKeyOperation KeySpecParams
  | AddKeyOperation KeySpecParams
  | SetThresholdKeyPageOperation "64 word"
  | UpdateAllowedKeyPageOperation "nat list" "nat list"

datatype AccountAuthOperation =
    EnableAccountAuthOperation "URL option"
  | DisableAccountAuthOperation "URL option"
  | AddAccountAuthorityOperation "URL option"
  | RemoveAccountAuthorityOperation "URL option"

text \<open>Where a synthetic transaction comes from and what is refunded to whom if it fails.\<close>
record SyntheticOrigin =
  Cause :: "TxID option"
  so_Initiator :: "URL option"
  FeeRefund :: "64 word"

record SyntheticDepositTokens =
  sdt_Origin :: SyntheticOrigin
  Token :: URL
  sdt_Amount :: int
  IsIssuer :: bool
  sdt_IsRefund :: bool

record SyntheticBurnTokens =
  sbt_Origin :: SyntheticOrigin
  sbt_Amount :: int
  sbt_IsRefund :: bool

record SyntheticDepositCredits =
  sdc_Origin :: SyntheticOrigin
  sdc_Amount :: "64 word"
  AcmeRefundAmount :: "int option"
  sdc_IsRefund :: bool

record SyntheticCreateIdentity =
  sci_Origin :: SyntheticOrigin
  sci_Accounts :: "Account list"

text \<open>
  The bodies. Those that write data have only the fields the fee depends on; the last constructor
  stands for the types no executor of this development takes, by their number.
\<close>
datatype TransactionBody =
    CreateIdentityBody CreateIdentity
  | CreateTokenAccountBody CreateTokenAccount
  | SendTokensBody "TokenRecipient list"
  | CreateDataAccountBody CreateDataAccount
  | WriteDataBody (Scratch: bool) (WriteToState: bool)
  | WriteDataToBody
  | AcmeFaucetBody "URL option"
  | CreateTokenBody CreateToken
  | IssueTokensBody IssueTokens
  | BurnTokensBody int
  | CreateLiteTokenAccountBody
  | CreateKeyPageBody "KeySpecParams list"
  | CreateKeyBookBody CreateKeyBook
  | AddCreditsBody AddCredits
  | UpdateKeyPageBody "KeyPageOperation list"
  | LockAccountBody "64 word"
  | UpdateAccountAuthBody "AccountAuthOperation list"
  | UpdateKeyBody bytes
  | SyntheticCreateIdentityBody SyntheticCreateIdentity
  | SyntheticDepositTokensBody SyntheticDepositTokens
  | SyntheticDepositCreditsBody SyntheticDepositCredits
  | SyntheticBurnTokensBody SyntheticBurnTokens
  | OtherBody nat

fun body_Type :: "TransactionBody \<Rightarrow> nat" where
  "body_Type (CreateIdentityBody _) = 1"
| "body_Type (CreateTokenAccountBody _) = 2"
| "body_Type (SendTokensBody _) = 3"
| "body_Type (CreateDataAccountBody _) = 4"
| "body_Type (WriteDataBody _ _) = 5"
| "body_Type WriteDataToBody = 6"
| "body_Type (AcmeFaucetBody _) = 7"
| "body_Type (CreateTokenBody _) = 8"
| "body_Type (IssueTokensBody _) = 9"
| "body_Type (BurnTokensBody _) = 10"
| "body_Type CreateLiteTokenAccountBody = 11"
| "body_Type (CreateKeyPageBody _) = 12"
| "body_Type (CreateKeyBookBody _) = 13"
| "body_Type (AddCreditsBody _) = 14"
| "body_Type (UpdateKeyPageBody _) = 15"
| "body_Type (LockAccountBody _) = 16"
| "body_Type (UpdateAccountAuthBody _) = 21"
| "body_Type (UpdateKeyBody _) = 22"
| "body_Type (SyntheticCreateIdentityBody _) = 49"
| "body_Type (SyntheticDepositTokensBody _) = 51"
| "body_Type (SyntheticDepositCreditsBody _) = 52"
| "body_Type (SyntheticBurnTokensBody _) = 53"
| "body_Type (OtherBody n) = n"

definition TransactionMaxUser :: nat where "TransactionMaxUser = 48"
definition TransactionMaxSynthetic :: nat where "TransactionMaxSynthetic = 95"
definition TransactionMaxSystem :: nat where "TransactionMaxSystem = 255"

definition IsUser :: "nat \<Rightarrow> bool" where
  "IsUser t \<longleftrightarrow> 0 < t \<and> t \<le> TransactionMaxUser"

definition IsSynthetic :: "nat \<Rightarrow> bool" where
  "IsSynthetic t \<longleftrightarrow> TransactionMaxUser < t \<and> t \<le> TransactionMaxSynthetic"

definition IsSystem :: "nat \<Rightarrow> bool" where
  "IsSystem t \<longleftrightarrow> TransactionMaxSynthetic < t \<and> t \<le> TransactionMaxSystem"

lemmas IsType_defs = IsUser_def IsSynthetic_def IsSystem_def TransactionMaxUser_def
  TransactionMaxSynthetic_def TransactionMaxSystem_def

text \<open>A transaction: its principal, its body, and its hash, which is computed from the encoding.\<close>
record Transaction =
  Principal :: URL
  Body :: TransactionBody
  tx_GetHash :: bytes

section \<open>The batch\<close>

definition MainChain :: string where "MainChain = ''main''"
definition Ledger :: string where "Ledger = ''ledger''"
definition Synthetic :: string where "Synthetic = ''synthetic''"
definition AnchorPool :: string where "AnchorPool = ''anchors''"

text \<open>
  The records of a batch, by account ID: the state of an account, its main chain, its directory and
  its pending transactions; the block index of every entry of the major block index chain of the
  anchor pool, and the entries of its chain of directory anchors.
\<close>
record Batch =
  Main :: "bytes \<Rightarrow> Account option"
  main_chain :: "bytes \<Rightarrow> bytes list"
  directory :: "bytes \<Rightarrow> URL list"
  pending :: "bytes \<Rightarrow> TxIdSet"
  MajorBlockChain :: "64 word list"
  AnchorChain :: "bytes list"

definition GetState :: "URL \<Rightarrow> Batch \<Rightarrow> Account option" where
  "GetState u b = Main b (AccountID32 u)"

text \<open>The record is the one of URL \<^term>\<open>r\<close>.\<close>
definition PutState :: "URL \<Rightarrow> Account \<Rightarrow> Batch \<Rightarrow> Batch result" where
  "PutState r state b =
     (if \<not> URL_Equal r (GetUrl state) then Err (Plain ''mismatched url'')
      else if (case GetAuth state of Some a \<Rightarrow> length (Authorities a) = 0 | None \<Rightarrow> False)
      then Err (Plain ''missing key book'')
      else Ok (b \<lparr> Main := (Main b)(AccountID32 r \<mapsto> state) \<rparr>))"

text \<open>\<^verbatim>\<open>Set.Add\<close> on the directory of an account.\<close>
definition directory_Add :: "URL list \<Rightarrow> URL \<Rightarrow> URL list" where
  "directory_Add l v = (let (l, i, new) = BinaryInsert v l (\<lambda>u. URL_Compare u v) in l[i := v])"

section \<open>The state manager\<close>

record BlockEntry =
  be_Account :: URL
  be_Chain :: string
  be_Index :: nat

text \<open>The state of one transaction: what it produced, and the chain entries it made.\<close>
record ProcessTransactionState =
  ProducedTxns :: "(URL option \<times> TransactionBody) list"
  ChainEntries :: "BlockEntry list"
  SynthEntries :: "(URL \<times> bytes \<times> nat) list"

definition new_state :: ProcessTransactionState where
  "new_state = \<lparr> ProducedTxns = [], ChainEntries = [], SynthEntries = [] \<rparr>"

definition DidProduceTxn :: "URL option \<Rightarrow> TransactionBody \<Rightarrow> ProcessTransactionState \<Rightarrow> ProcessTransactionState" where
  "DidProduceTxn url body s = s \<lparr> ProducedTxns := ProducedTxns s @ [(url, body)] \<rparr>"

text \<open>Of the global values only the oracle price is read, and of the node only its partition.\<close>
record StateManager =
  PartitionId :: string
  OraclePrice :: "64 word"
  txType :: nat
  txHash :: bytes
  Pretend :: bool
  State :: ProcessTransactionState
  batch :: Batch
  Origin :: "Account option"
  OriginUrl :: URL

definition NewStateManager ::
  "string \<Rightarrow> 64 word \<Rightarrow> Batch \<Rightarrow> Account option \<Rightarrow> Transaction \<Rightarrow> StateManager" where
  "NewStateManager net globals b account transaction =
     \<lparr> PartitionId = net, OraclePrice = globals, txType = body_Type (Body transaction),
       txHash = tx_GetHash transaction, Pretend = False, State = new_state, batch = b,
       Origin = account, OriginUrl = Principal transaction \<rparr>"

definition NodeUrl :: "string list \<Rightarrow> StateManager \<Rightarrow> URL" where
  "NodeUrl path st = JoinPath path (PartitionUrl (PartitionId st))"

definition Submit :: "URL option \<Rightarrow> TransactionBody \<Rightarrow> StateManager \<Rightarrow> StateManager result" where
  "Submit url body m =
     (if IsSynthetic (txType m) then Panic ''Called stateCache.Submit from a synthetic transaction!''
      else case url of None \<Rightarrow> Panic ''No destination URL specified!''
        | Some u \<Rightarrow> Ok (m \<lparr> State := DidProduceTxn (Some u) body (State m) \<rparr>))"

definition LoadUrl :: "URL \<Rightarrow> StateManager \<Rightarrow> Account result" where
  "LoadUrl account st = (case GetState account (batch st) of
       None \<Rightarrow> Err (Coded StatusNotFound ''load'') | Some a \<Rightarrow> Ok a)"

text \<open>
  Loading an account as a given type: \<^term>\<open>as\<close> is the type assertion of \<^verbatim>\<open>encoding.SetPtr\<close>.
\<close>
definition LoadUrlAs :: "(Account \<Rightarrow> 'a option) \<Rightarrow> URL \<Rightarrow> StateManager \<Rightarrow> 'a result" where
  "LoadUrlAs as account st = bind_result (LoadUrl account st) (\<lambda>a.
     case as a of Some x \<Rightarrow> Ok x | None \<Rightarrow> Err (Plain ''cannot assign''))"

definition DidAddChainEntry ::
  "URL \<Rightarrow> string \<Rightarrow> bytes \<Rightarrow> nat \<Rightarrow> ProcessTransactionState \<Rightarrow> ProcessTransactionState" where
  "DidAddChainEntry u name entry index c =
     (let c = (if name = MainChain \<and> (case ParsePartitionUrl u of None \<Rightarrow> False
                   | Some p \<Rightarrow> URL_Equal (JoinPath [Synthetic] (PartitionUrl p)) u)
               then c \<lparr> SynthEntries := SynthEntries c @ [(u, entry, index)] \<rparr> else c)
      in c \<lparr> ChainEntries := ChainEntries c @ [\<lparr> be_Account = u, be_Chain = name, be_Index = index \<rparr>] \<rparr>)"

text \<open>Adding an entry to the main chain of an account; an entry that is already there is not added.\<close>
definition AddChainEntry :: "URL \<Rightarrow> bytes \<Rightarrow> StateManager \<Rightarrow> StateManager" where
  "AddChainEntry u entry st =
     (let k = AccountID32 u; c = main_chain (batch st) k in
      if entry \<in> set c then st
      else st \<lparr> batch := (batch st) \<lparr> main_chain := (main_chain (batch st)) (k := c @ [entry]) \<rparr>,
                State := DidAddChainEntry u MainChain entry (length c) (State st) \<rparr>)"

definition AddDirectoryEntry :: "URL \<Rightarrow> URL list \<Rightarrow> StateManager \<Rightarrow> StateManager" where
  "AddDirectoryEntry dir us st = (let k = AccountID32 dir in
     st \<lparr> batch := (batch st) \<lparr> directory := (directory (batch st))
       (k := foldl directory_Add (directory (batch st) k) us) \<rparr> \<rparr>)"

primrec createOrUpdate :: "bool \<Rightarrow> Account list \<Rightarrow> StateManager \<Rightarrow> StateManager result" where
  "createOrUpdate isUpdate [] st = Ok st"
| "createOrUpdate isUpdate (account # accounts) st =
     (let u = GetUrl account; exists = GetState u (batch st) \<noteq> None in
      if length (String u) > AccountUrlMaxLength then Err (Coded StatusBadUrlLength ''url specified exceeds maximum character length'')
      else if exists \<and> \<not> isUpdate then Err (Coded StatusConflict ''account already exists'')
      else if \<not> (IsSynthetic (txType st) \<or> IsSystem (txType st)) \<and> \<not> exists \<and> isUpdate
      then Err (Coded StatusConflict ''account does not exist'')
      else if Pretend st then createOrUpdate isUpdate accounts st
      else bind_result (PutState u account (batch st)) (\<lambda>b.
        let st = AddChainEntry u (txHash st) (st \<lparr> batch := b \<rparr>);
            st = (if \<not> isUpdate then AddDirectoryEntry (Identity u) [u] st else st)
        in createOrUpdate isUpdate accounts st))"

definition Create :: "Account list \<Rightarrow> StateManager \<Rightarrow> StateManager result" where
  "Create accounts st = createOrUpdate False accounts st"

definition Update_accounts :: "Account list \<Rightarrow> StateManager \<Rightarrow> StateManager result" where
  "Update_accounts accounts st = createOrUpdate True accounts st"

section \<open>Authorities of a new account\<close>

abbreviation as_KeyBook :: "Account \<Rightarrow> KeyBook option" where
  "as_KeyBook a \<equiv> (case a of KeyBookOf b \<Rightarrow> Some b | _ \<Rightarrow> None)"

text \<open>The account must be a full account, as its Go type says.\<close>
definition st_AddAuthority :: "Account \<Rightarrow> URL \<Rightarrow> StateManager \<Rightarrow> Account result" where
  "st_AddAuthority account authority m =
     bind_result (if LocalTo (GetUrl account) authority
       then map_ok (\<lambda>_. ()) (LoadUrlAs as_KeyBook authority m) else Ok ()) (\<lambda>_.
     case GetAuth account of None \<Rightarrow> Panic ''not a full account''
       | Some a \<Rightarrow> Ok (put_auth (fst (AddAuthority authority a)) account))"

definition InheritAuth :: "Account \<Rightarrow> StateManager \<Rightarrow> Account result" where
  "InheritAuth account m =
     (if \<not> URL_Equal (RootIdentity (GetUrl account)) (RootIdentity (OriginUrl m))
      then Err (Coded StatusBadRequest ''cannot inherit from principal: belongs to a different root identity'')
      else case Option.bind (Origin m) GetAuth of
          None \<Rightarrow> Err (Coded StatusBadRequest ''cannot inherit from principal: not a full account'')
        | Some a \<Rightarrow> Ok (put_auth a account))"

primrec add_authorities :: "URL option list \<Rightarrow> Account \<Rightarrow> StateManager \<Rightarrow> Account result" where
  "add_authorities [] account m = Ok account"
| "add_authorities (a # as) account m = (case a of
       None \<Rightarrow> Err (Coded StatusBadRequest ''authority URL is nil'')
     | Some u \<Rightarrow> bind_result (st_AddAuthority account u m) (\<lambda>account. add_authorities as account m))"

definition SetAuth :: "Account \<Rightarrow> URL option list \<Rightarrow> StateManager \<Rightarrow> Account result" where
  "SetAuth account authorities m =
     (case GetAuth account of None \<Rightarrow> Panic ''not a full account''
      | Some a \<Rightarrow>
        if length authorities > 0 then add_authorities authorities account m
        else if length (Authorities a) > 0 then Ok account
        else InheritAuth account m)"

section \<open>What storing accounts does\<close>

lemma AddChainEntry_simps [simp]:
  "Main (batch (AddChainEntry u e st)) = Main (batch st)"
  "ProducedTxns (State (AddChainEntry u e st)) = ProducedTxns (State st)"
  "MajorBlockChain (batch (AddChainEntry u e st)) = MajorBlockChain (batch st)"
  "AnchorChain (batch (AddChainEntry u e st)) = AnchorChain (batch st)"
  "pending (batch (AddChainEntry u e st)) = pending (batch st)"
  "txType (AddChainEntry u e st) = txType st" "txHash (AddChainEntry u e st) = txHash st"
  "Pretend (AddChainEntry u e st) = Pretend st" "PartitionId (AddChainEntry u e st) = PartitionId st"
  "OraclePrice (AddChainEntry u e st) = OraclePrice st" "Origin (AddChainEntry u e st) = Origin st"
  "OriginUrl (AddChainEntry u e st) = OriginUrl st"
  by (simp_all add: AddChainEntry_def DidAddChainEntry_def Let_def)

lemma AddDirectoryEntry_simps [simp]:
  "Main (batch (AddDirectoryEntry u e st)) = Main (batch st)"
  "State (AddDirectoryEntry u e st) = State st"
  "MajorBlockChain (batch (AddDirectoryEntry u e st)) = MajorBlockChain (batch st)"
  "AnchorChain (batch (AddDirectoryEntry u e st)) = AnchorChain (batch st)"
  "pending (batch (AddDirectoryEntry u e st)) = pending (batch st)"
  "txType (AddDirectoryEntry u e st) = txType st" "txHash (AddDirectoryEntry u e st) = txHash st"
  "Pretend (AddDirectoryEntry u e st) = Pretend st" "PartitionId (AddDirectoryEntry u e st) = PartitionId st"
  "OraclePrice (AddDirectoryEntry u e st) = OraclePrice st" "Origin (AddDirectoryEntry u e st) = Origin st"
  "OriginUrl (AddDirectoryEntry u e st) = OriginUrl st"
  by (simp_all add: AddDirectoryEntry_def Let_def)

lemma URL_Equal_refl [simp]: "URL_Equal u u"
  by (simp add: URL_Equal_def EqualFold_def)

text \<open>An account may be stored when it has an authority, if it is a full account.\<close>
definition storable :: "Account \<Rightarrow> bool" where
  "storable a \<longleftrightarrow> (case GetAuth a of None \<Rightarrow> True | Some x \<Rightarrow> Authorities x \<noteq> [])"

lemma PutState_ok: "PutState (GetUrl a) a b = Ok b' \<longleftrightarrow>
    storable a \<and> b' = b \<lparr> Main := (Main b)(AccountID32 (GetUrl a) \<mapsto> a) \<rparr>"
  by (auto simp: PutState_def storable_def split: option.splits)

definition stored :: "Account list \<Rightarrow> (bytes \<Rightarrow> Account option) \<Rightarrow> bytes \<Rightarrow> Account option" where
  "stored as m = foldl (\<lambda>m a. m(AccountID32 (GetUrl a) \<mapsto> a)) m as"

lemma stored_simps [simp]: "stored [] m = m" "stored (a # as) m = stored as (m(AccountID32 (GetUrl a) \<mapsto> a))"
  by (simp_all add: stored_def)

text \<open>What a state manager keeps while accounts are stored and transactions produced.\<close>
definition same_frame :: "StateManager \<Rightarrow> StateManager \<Rightarrow> bool" where
  "same_frame st st' \<longleftrightarrow> txType st' = txType st \<and> txHash st' = txHash st \<and> Pretend st' = Pretend st
     \<and> PartitionId st' = PartitionId st \<and> OraclePrice st' = OraclePrice st \<and> Origin st' = Origin st
     \<and> OriginUrl st' = OriginUrl st \<and> MajorBlockChain (batch st') = MajorBlockChain (batch st)
     \<and> AnchorChain (batch st') = AnchorChain (batch st) \<and> pending (batch st') = pending (batch st)"

lemma same_frame_refl [simp]: "same_frame st st"
  by (simp add: same_frame_def)

lemma same_frame_trans: "same_frame a b \<Longrightarrow> same_frame b c \<Longrightarrow> same_frame a c"
  by (simp add: same_frame_def)

lemma createOrUpdate_ok:
  assumes "createOrUpdate isUpdate as st = Ok st'" "\<not> Pretend st"
  shows "Main (batch st') = stored as (Main (batch st)) \<and> same_frame st st'
    \<and> ProducedTxns (State st') = ProducedTxns (State st) \<and> (\<forall>a \<in> set as. storable a)"
  using assms
proof (induction as arbitrary: st)
  case (Cons a as)
  let ?s = "\<lambda>b. AddChainEntry (GetUrl a) (txHash st) (st \<lparr> batch := b \<rparr>)"
  let ?t = "\<lambda>b. if \<not> isUpdate then AddDirectoryEntry (Identity (GetUrl a)) [GetUrl a] (?s b) else ?s b"
  from Cons.prems obtain b where b: "PutState (GetUrl a) a (batch st) = Ok b"
    and r: "createOrUpdate isUpdate as (?t b) = Ok st'"
    by (cases isUpdate) (auto simp: Let_def result_simps split: if_splits)
  from b have b': "storable a" "b = (batch st) \<lparr> Main := (Main (batch st))(AccountID32 (GetUrl a) \<mapsto> a) \<rparr>"
    by (simp_all add: PutState_ok)
  define t where "t = ?t b"
  have t: "\<not> Pretend t" "same_frame st t" "ProducedTxns (State t) = ProducedTxns (State st)"
    "Main (batch t) = (Main (batch st))(AccountID32 (GetUrl a) \<mapsto> a)"
    using Cons.prems(2) b'(2) by (simp_all add: same_frame_def t_def)
  have "Main (batch st') = stored as (Main (batch t)) \<and> same_frame t st'
      \<and> ProducedTxns (State st') = ProducedTxns (State t) \<and> (\<forall>a \<in> set as. storable a)"
    by (rule Cons.IH [OF r [folded t_def] t(1)])
  then show ?case
    using same_frame_trans [OF t(2)] b'(1) unfolding stored_simps t(3,4) by simp
qed simp

lemma createOrUpdate_fresh:
  assumes "createOrUpdate False as st = Ok st'" "\<not> Pretend st" "a \<in> set as"
  shows "Main (batch st) (AccountID32 (GetUrl a)) = None"
  using assms
proof (induction as arbitrary: st)
  case (Cons c as)
  let ?t = "\<lambda>b. AddDirectoryEntry (Identity (GetUrl c)) [GetUrl c] (AddChainEntry (GetUrl c) (txHash st) (st \<lparr> batch := b \<rparr>))"
  from Cons.prems obtain b where b: "PutState (GetUrl c) c (batch st) = Ok b"
    and r: "createOrUpdate False as (?t b) = Ok st'" and n: "Main (batch st) (AccountID32 (GetUrl c)) = None"
    by (auto simp: Let_def result_simps GetState_def split: if_splits)
  show ?case
  proof (cases "a = c")
    case False
    with Cons.prems(2,3) have "Main (batch (?t b)) (AccountID32 (GetUrl a)) = None"
      by (intro Cons.IH [OF r]) simp_all
    then show ?thesis using b by (auto simp: PutState_ok split: if_splits)
  qed (use n in simp)
qed simp

lemmas Update_ok = createOrUpdate_ok [of True, folded Update_accounts_def]
lemmas Create_ok = createOrUpdate_ok [of False, folded Create_def]
lemmas Create_fresh = createOrUpdate_fresh [folded Create_def]

end
