(* ===== verification/Tokens.thy ===== *)
theory Tokens
  imports Accounts
begin

text \<open>
  Token accounts and issuers (\<^verbatim>\<open>src/protocol/token_account.go\<close>, \<^verbatim>\<open>lock.go\<close>) and the
  executors of \<^verbatim>\<open>src/internal/chain\<close> that move tokens and credits: sending, burning, issuing,
  buying credits, the faucet, locking, and the synthetic deposits and burns they produce, with what
  a failed deposit sends back.
\<close>

section \<open>Token accounts\<close>

definition TokenAccount_CreditTokens :: "int option \<Rightarrow> TokenAccount \<Rightarrow> TokenAccount \<times> bool" where
  "TokenAccount_CreditTokens amount acct = (case amount of None \<Rightarrow> (acct, False)
     | Some n \<Rightarrow> if n < 0 then (acct, False) else (acct \<lparr> ta_Balance := ta_Balance acct + n \<rparr>, True))"

definition TokenAccount_CanDebitTokens :: "int option \<Rightarrow> TokenAccount \<Rightarrow> bool" where
  "TokenAccount_CanDebitTokens amount acct = (case amount of None \<Rightarrow> False | Some n \<Rightarrow> ta_Balance acct \<ge> n)"

definition TokenAccount_DebitTokens :: "int option \<Rightarrow> TokenAccount \<Rightarrow> TokenAccount \<times> bool" where
  "TokenAccount_DebitTokens amount acct = (if \<not> TokenAccount_CanDebitTokens amount acct then (acct, False)
     else (acct \<lparr> ta_Balance := ta_Balance acct - the amount \<rparr>, True))"

definition LiteTokenAccount_CreditTokens :: "int option \<Rightarrow> LiteTokenAccount \<Rightarrow> LiteTokenAccount \<times> bool" where
  "LiteTokenAccount_CreditTokens amount acct = (case amount of None \<Rightarrow> (acct, False)
     | Some n \<Rightarrow> if n < 0 then (acct, False) else (acct \<lparr> lta_Balance := lta_Balance acct + n \<rparr>, True))"

definition LiteTokenAccount_CanDebitTokens :: "int option \<Rightarrow> LiteTokenAccount \<Rightarrow> bool" where
  "LiteTokenAccount_CanDebitTokens amount acct = (case amount of None \<Rightarrow> False | Some n \<Rightarrow> lta_Balance acct \<ge> n)"

definition LiteTokenAccount_DebitTokens :: "int option \<Rightarrow> LiteTokenAccount \<Rightarrow> LiteTokenAccount \<times> bool" where
  "LiteTokenAccount_DebitTokens amount acct = (if \<not> LiteTokenAccount_CanDebitTokens amount acct then (acct, False)
     else (acct \<lparr> lta_Balance := lta_Balance acct - the amount \<rparr>, True))"

text \<open>The supply is changed before the limit is checked.\<close>
definition Issue :: "int \<Rightarrow> TokenIssuer \<Rightarrow> TokenIssuer \<times> bool" where
  "Issue amount i = (let i = i \<lparr> Issued := Issued i + amount \<rparr>
     in (i, case SupplyLimit i of None \<Rightarrow> True | Some l \<Rightarrow> Issued i \<le> l))"

definition SetLockHeight :: "64 word \<Rightarrow> LiteTokenAccount \<Rightarrow> LiteTokenAccount result" where
  "SetLockHeight v l = (if v < LockHeight l then Err (Coded StatusBadRequest ''cannot reduce lockup period'')
     else Ok (l \<lparr> LockHeight := v \<rparr>))"

text \<open>The interface \<^verbatim>\<open>AccountWithTokens\<close> has two implementations.\<close>
datatype AccountWithTokens = WithTokens TokenAccount | WithLiteTokens LiteTokenAccount

fun as_tokens :: "Account \<Rightarrow> AccountWithTokens option" where
  "as_tokens (TokenAccountOf a) = Some (WithTokens a)"
| "as_tokens (LiteTokenAccountOf a) = Some (WithLiteTokens a)"
| "as_tokens _ = None"

fun of_tokens :: "AccountWithTokens \<Rightarrow> Account" where
  "of_tokens (WithTokens a) = TokenAccountOf a"
| "of_tokens (WithLiteTokens a) = LiteTokenAccountOf a"

fun GetTokenUrl :: "AccountWithTokens \<Rightarrow> URL" where
  "GetTokenUrl (WithTokens a) = ta_TokenUrl a"
| "GetTokenUrl (WithLiteTokens a) = lta_TokenUrl a"

fun TokenBalance :: "AccountWithTokens \<Rightarrow> int" where
  "TokenBalance (WithTokens a) = ta_Balance a"
| "TokenBalance (WithLiteTokens a) = lta_Balance a"

fun CreditTokens :: "int option \<Rightarrow> AccountWithTokens \<Rightarrow> AccountWithTokens \<times> bool" where
  "CreditTokens n (WithTokens a) = (let (a, ok) = TokenAccount_CreditTokens n a in (WithTokens a, ok))"
| "CreditTokens n (WithLiteTokens a) = (let (a, ok) = LiteTokenAccount_CreditTokens n a in (WithLiteTokens a, ok))"

fun CanDebitTokens :: "int option \<Rightarrow> AccountWithTokens \<Rightarrow> bool" where
  "CanDebitTokens n (WithTokens a) = TokenAccount_CanDebitTokens n a"
| "CanDebitTokens n (WithLiteTokens a) = LiteTokenAccount_CanDebitTokens n a"

fun DebitTokens :: "int option \<Rightarrow> AccountWithTokens \<Rightarrow> AccountWithTokens \<times> bool" where
  "DebitTokens n (WithTokens a) = (let (a, ok) = TokenAccount_DebitTokens n a in (WithTokens a, ok))"
| "DebitTokens n (WithLiteTokens a) = (let (a, ok) = LiteTokenAccount_DebitTokens n a in (WithLiteTokens a, ok))"

text \<open>Only lite token accounts are lockable.\<close>
fun GetLockHeight :: "AccountWithTokens \<Rightarrow> 64 word option" where
  "GetLockHeight (WithTokens a) = None"
| "GetLockHeight (WithLiteTokens a) = Some (LockHeight a)"

section \<open>User transactions\<close>

abbreviation nil_origin :: "'a result" where
  "nil_origin \<equiv> Panic ''invalid memory address or nil pointer dereference''"

definition new_origin :: SyntheticOrigin where
  "new_origin = \<lparr> Cause = None, so_Initiator = None, FeeRefund = 0 \<rparr>"

text \<open>The last entry but \<^term>\<open>offset - 1\<close> of an index chain.\<close>
definition LoadIndexEntryFromEnd :: "'a list \<Rightarrow> nat \<Rightarrow> 'a option result" where
  "LoadIndexEntryFromEnd c offset = (if offset = 0 then Panic ''offset must be > 0''
     else if length c < offset then Ok None else Ok (Some (c ! (length c - offset))))"

text \<open>The sum of the amounts, none of which may be negative.\<close>
primrec total_amount :: "TokenRecipient list \<Rightarrow> int \<Rightarrow> int result" where
  "total_amount [] acc = Ok acc"
| "total_amount (t # ts) acc = (if tr_Amount t < 0 then Err (Plain ''amount can't be a negative value'')
     else total_amount ts (acc + tr_Amount t))"

primrec send_outputs :: "URL \<Rightarrow> TokenRecipient list \<Rightarrow> bytes list \<Rightarrow> StateManager \<Rightarrow> StateManager result" where
  "send_outputs token [] m st = Ok st"
| "send_outputs token (t # ts) m st = (case tr_Url t of
       None \<Rightarrow> Err (Coded StatusBadRequest ''output is missing recipient URL'')
     | Some u \<Rightarrow> let i = AccountID32 u in
         if i \<in> set m then Err (Plain ''duplicate recipient passed in request'')
         else bind_result (Submit (Some u) (SyntheticDepositTokensBody
             \<lparr> sdt_Origin = new_origin, Token = token, sdt_Amount = tr_Amount t, IsIssuer = False, sdt_IsRefund = False \<rparr>) st)
           (\<lambda>st. send_outputs token ts (i # m) st))"

definition SendTokens_Validate :: "Transaction \<Rightarrow> StateManager \<Rightarrow> StateManager result" where
  "SendTokens_Validate tx st = (case Body tx of SendTokensBody to \<Rightarrow>
     (case Origin st of None \<Rightarrow> nil_origin | Some o' \<Rightarrow> (case as_tokens o' of
        None \<Rightarrow> Err (Plain ''invalid principal'')
      | Some account \<Rightarrow>
        bind_result (total_amount to 0) (\<lambda>amount.
        let (account, ok) = DebitTokens (Some amount) account in
        if \<not> ok then Err (Plain ''insufficient balance'')
        else bind_result (Update_accounts [of_tokens account] st) (\<lambda>st.
        bind_result (send_outputs (GetTokenUrl account) to [] st) (\<lambda>st.
        case GetLockHeight account of None \<Rightarrow> Ok st
        | Some h \<Rightarrow> if h = 0 then Ok st
            else bind_result (LoadIndexEntryFromEnd (MajorBlockChain (batch st)) 1) (\<lambda>entry.
              case entry of None \<Rightarrow> Err (Coded StatusNotAllowed ''account is locked'')
              | Some i \<Rightarrow> if i < h then Err (Coded StatusNotAllowed ''account is locked'') else Ok st))))))
   | _ \<Rightarrow> Err (Plain ''invalid payload''))"

definition BurnTokens_Validate :: "Transaction \<Rightarrow> StateManager \<Rightarrow> StateManager result" where
  "BurnTokens_Validate tx st = (case Body tx of BurnTokensBody amount \<Rightarrow>
     (case Origin st of None \<Rightarrow> nil_origin | Some o' \<Rightarrow> (case as_tokens o' of
        None \<Rightarrow> Err (Plain ''invalid principal'')
      | Some account \<Rightarrow>
        if amount < 0 then Err (Plain ''amount can't be a negative value'')
        else if \<not> CanDebitTokens (Some amount) account
        then Err (Plain ''cannot burn more tokens than is available in account'')
        else let (account, ok) = DebitTokens (Some amount) account in
        if \<not> ok then Err (Plain ''unable to debit balance from account'')
        else bind_result (Submit (Some (GetTokenUrl account)) (SyntheticBurnTokensBody
               \<lparr> sbt_Origin = new_origin, sbt_Amount = amount, sbt_IsRefund = False \<rparr>) st)
             (\<lambda>st. Update_accounts [of_tokens account] st)))
   | _ \<Rightarrow> Err (Plain ''invalid payload''))"

primrec issue_outputs :: "URL \<Rightarrow> TokenRecipient list \<Rightarrow> bytes list \<Rightarrow> StateManager \<Rightarrow> StateManager result" where
  "issue_outputs issuer [] m st = Ok st"
| "issue_outputs issuer (t # ts) m st = (case tr_Url t of
       None \<Rightarrow> nil_origin
     | Some u \<Rightarrow> let i = AccountID32 u in
         if i \<in> set m then Err (Plain ''duplicate recipient passed in request'')
         else bind_result (Submit (Some u) (SyntheticDepositTokensBody
             \<lparr> sdt_Origin = new_origin, Token = issuer, sdt_Amount = tr_Amount t, IsIssuer = True, sdt_IsRefund = False \<rparr>) st)
           (\<lambda>st. issue_outputs issuer ts (i # m) st))"

definition IssueTokens_Validate :: "Transaction \<Rightarrow> StateManager \<Rightarrow> StateManager result" where
  "IssueTokens_Validate tx st = (case Body tx of IssueTokensBody body \<Rightarrow>
     (case Origin st of None \<Rightarrow> nil_origin
      | Some (TokenIssuerOf issuer) \<Rightarrow>
        let recipients = (if Recipient body \<noteq> None
              then \<lparr> tr_Url = Recipient body, tr_Amount = it_Amount body \<rparr> # it_To body else it_To body) in
        if list_ex (\<lambda>t. tr_Url t = None) recipients then Err (Coded StatusBadRequest ''recipient URL is missing'')
        else bind_result (total_amount recipients 0) (\<lambda>amount.
        let (issuer, ok) = Issue amount issuer in
        if \<not> ok then Err (Plain ''cannot exceed supply limit'')
        else bind_result (Update_accounts [TokenIssuerOf issuer] st)
               (\<lambda>st. issue_outputs (ti_Url issuer) recipients [] st))
      | Some _ \<Rightarrow> Err (Plain ''invalid principal''))
   | _ \<Rightarrow> Err (Plain ''invalid payload''))"

definition LockAccount_Validate :: "Transaction \<Rightarrow> StateManager \<Rightarrow> StateManager result" where
  "LockAccount_Validate tx st = (case Body tx of LockAccountBody height \<Rightarrow>
     (case Origin st of None \<Rightarrow> nil_origin
      | Some (LiteTokenAccountOf account) \<Rightarrow>
        bind_result (SetLockHeight height account) (\<lambda>account. Update_accounts [LiteTokenAccountOf account] st)
      | Some _ \<Rightarrow> Err (Coded StatusBadRequest ''locking is not supported''))
   | _ \<Rightarrow> Err (Plain ''invalid payload''))"

section \<open>Credits\<close>

text \<open>\<^verbatim>\<open>big.Int.Div\<close> is Euclidean division; \<^verbatim>\<open>Uint64\<close> is the low 64 bits of the magnitude.\<close>
definition big_Div :: "int \<Rightarrow> int \<Rightarrow> int result" where
  "big_Div x y = (if y = 0 then Panic ''division by zero''
     else Ok (if 0 < y then x div y else - (x div (- y))))"

definition big_Uint64 :: "int \<Rightarrow> 64 word" where
  "big_Uint64 x = word_of_int \<bar>x\<bar>"

definition MinimumCreditPurchase :: nat where "MinimumCreditPurchase = 100"

text \<open>\<^verbatim>\<open>int64(protocol.CreditUnitsPerFiatUnit*st.Globals.Oracle.Price)\<close>: the product wraps.\<close>
definition credit_rate :: "64 word \<Rightarrow> int" where
  "credit_rate price = sint (word_of_nat CreditUnitsPerFiatUnit * price)"

record AddCreditsResult =
  res_Amount :: int
  Credits :: "64 word"
  res_Oracle :: "64 word"

abbreviation as_SystemLedger :: "Account \<Rightarrow> SystemLedger option" where
  "as_SystemLedger a \<equiv> (case a of SystemLedgerOf l \<Rightarrow> Some l | _ \<Rightarrow> None)"

text \<open>A lite token account becomes its lite identity; an unreadable address is left as it is.\<close>
definition credit_recipient :: "URL \<Rightarrow> URL" where
  "credit_recipient u = (case ParseLiteTokenAddress u of Ok (Some _) \<Rightarrow> RootIdentity u | _ \<Rightarrow> u)"

definition AddCredits_Validate :: "Transaction \<Rightarrow> StateManager \<Rightarrow> (StateManager \<times> AddCreditsResult) result" where
  "AddCredits_Validate tx st = (case Body tx of AddCreditsBody body \<Rightarrow>
     (case ac_Recipient body of None \<Rightarrow> Err (Plain ''invalid payload: missing recipient'')
      | Some recipient \<Rightarrow>
        if ac_Amount body \<le> 0 then Err (Plain ''invalid ACME amount specified for credit purchase, must be greater than zero'')
        else if ac_Oracle body = 0 then Err (Plain ''cannot purchase credits, transaction oracle must be greater than zero'')
        else if OraclePrice st = 0 then Err (Plain ''cannot purchase credits: acme oracle price has not been set'')
        else if ac_Oracle body \<noteq> OraclePrice st then Err (Plain ''oracle doesn't match'')
        else bind_result (big_Div (int (MinimumCreditPurchase * AcmeOraclePrecision * AcmePrecision)) (credit_rate (OraclePrice st))) (\<lambda>minSpend.
        if ac_Amount body < minSpend then Err (Plain ''amount is less than minimum'')
        else bind_result (big_Div (credit_rate (OraclePrice st) * ac_Amount body) (int (AcmeOraclePrecision * AcmePrecision))) (\<lambda>credits.
        if big_Uint64 credits = 0 then Err (Plain ''no credits can be purchased'')
        else case Option.bind (Origin st) as_tokens of None \<Rightarrow> Err (Plain ''not a token account'')
        | Some account \<Rightarrow>
          if \<not> URL_Equal AcmeUrl (GetTokenUrl account) then Err (Plain ''tokens cannot be converted into credits'')
          else let (account, ok) = DebitTokens (Some (ac_Amount body)) account in
          if \<not> ok then Err (Plain ''insufficient balance'')
          else bind_result (Submit (Some (credit_recipient recipient)) (SyntheticDepositCreditsBody
              \<lparr> sdc_Origin = new_origin, sdc_Amount = big_Uint64 credits,
                AcmeRefundAmount = (if ac_Amount body > minSpend then Some (ac_Amount body - minSpend) else None),
                sdc_IsRefund = False \<rparr>) st) (\<lambda>st.
          bind_result (LoadUrlAs as_SystemLedger (NodeUrl [Ledger] st) st) (\<lambda>ledgerState.
          map_ok (\<lambda>st. (st, \<lparr> res_Amount = ac_Amount body, Credits = big_Uint64 credits, res_Oracle = OraclePrice st \<rparr>))
            (Update_accounts [of_tokens account,
               SystemLedgerOf (ledgerState \<lparr> AcmeBurnt := AcmeBurnt ledgerState + minSpend \<rparr>)] st))))))
   | _ \<Rightarrow> Err (Plain ''invalid payload''))"

section \<open>The faucet\<close>

definition AcmeFaucetAmount :: nat where "AcmeFaucetAmount = 10"

abbreviation as_LiteTokenAccount :: "Account \<Rightarrow> LiteTokenAccount option" where
  "as_LiteTokenAccount a \<equiv> (case a of LiteTokenAccountOf l \<Rightarrow> Some l | _ \<Rightarrow> None)"

text \<open>The URL of the faucet is a parameter: it is derived from an Ed25519 key.\<close>
definition AcmeFaucet_Validate :: "URL \<Rightarrow> Transaction \<Rightarrow> StateManager \<Rightarrow> StateManager result" where
  "AcmeFaucet_Validate FaucetUrl tx st = (case Body tx of AcmeFaucetBody url \<Rightarrow>
     (case url of None \<Rightarrow> Err (Coded StatusBadRequest ''recipient URL is missing'')
      | Some u \<Rightarrow>
        bind_result (case LoadUrlAs as_LiteTokenAccount u st of
            Ok account \<Rightarrow> if \<not> URL_Equal AcmeUrl (lta_TokenUrl account)
              then Err (Plain ''invalid recipient: not an ACME account'') else Ok ()
          | Err (Coded StatusNotFound e) \<Rightarrow> (case ParseLiteTokenAddress u of
                Ok (Some (addr, tok)) \<Rightarrow> if \<not> URL_Equal AcmeUrl tok
                  then Err (Plain ''invalid recipient: not an ACME account'') else Ok ()
              | Ok None \<Rightarrow> Err (Plain ''invalid recipient: not a lite address'')
              | Err e \<Rightarrow> Err (Plain ''error parsing lite address'') | Panic e \<Rightarrow> Panic e)
          | Err e \<Rightarrow> Err (Plain ''invalid recipient'') | Panic e \<Rightarrow> Panic e) (\<lambda>_.
        bind_result (LoadUrlAs as_LiteTokenAccount FaucetUrl st) (\<lambda>faucet.
        let amount = int (AcmeFaucetAmount * AcmePrecision);
            (faucet, ok) = LiteTokenAccount_DebitTokens (Some amount) faucet in
        if \<not> ok then Err (Coded StatusInsufficientBalance ''the faucet is dry'')
        else bind_result (Update_accounts [LiteTokenAccountOf faucet] st) (\<lambda>st.
          Submit (Some u) (SyntheticDepositTokensBody \<lparr> sdt_Origin = new_origin, Token = AcmeUrl,
            sdt_Amount = amount, IsIssuer = False, sdt_IsRefund = False \<rparr>) st))))
   | _ \<Rightarrow> Err (Plain ''invalid payload''))"

section \<open>Synthetic transactions\<close>

abbreviation as_LiteIdentity :: "Account \<Rightarrow> LiteIdentity option" where
  "as_LiteIdentity a \<equiv> (case a of LiteIdentityOf l \<Rightarrow> Some l | _ \<Rightarrow> None)"

definition SyntheticDepositTokens_AllowMissingPrincipal :: "Transaction \<Rightarrow> bool" where
  "SyntheticDepositTokens_AllowMissingPrincipal transaction \<longleftrightarrow>
     (case ParseLiteTokenAddress (Principal transaction) of Ok (Some _) \<Rightarrow> True | _ \<Rightarrow> False)"

text \<open>The account a deposit goes to: the principal, or a new lite token account and its identity.\<close>
definition deposit_account ::
  "SyntheticDepositTokens \<Rightarrow> Transaction \<Rightarrow> StateManager \<Rightarrow> (AccountWithTokens \<times> StateManager) result" where
  "deposit_account body tx st = (case Origin st of
       Some o' \<Rightarrow> (case as_tokens o' of None \<Rightarrow> Err (Plain ''invalid principal'')
         | Some account \<Rightarrow> if \<not> URL_Equal (GetTokenUrl account) (Token body)
             then Err (Plain ''token type mismatch'') else Ok (account, st))
     | None \<Rightarrow> (case ParseLiteTokenAddress (Principal tx) of
           Err e \<Rightarrow> Err (Plain ''invalid lite token account URL'') | Panic e \<Rightarrow> Panic e
         | Ok None \<Rightarrow> Err (Coded StatusNotFound ''could not find token account'')
         | Ok (Some (keyHash, tok)) \<Rightarrow>
             if \<not> URL_Equal (Token body) tok then Err (Plain ''token URL does not match lite token account URL'')
             else let lite = \<lparr> lta_Url = Principal tx, lta_TokenUrl = Token body, lta_Balance = 0, LockHeight = 0 \<rparr>;
                      liteIdUrl = RootIdentity (Principal tx) in
               bind_result (case LoadUrlAs as_LiteIdentity liteIdUrl st of
                   Ok liteIdentity \<Rightarrow> Ok st
                 | Err (Coded StatusNotFound e) \<Rightarrow> Update_accounts
                     [LiteIdentityOf \<lparr> li_Url = liteIdUrl, li_CreditBalance = 0, li_LastUsedOn = 0 \<rparr>] st
                 | Err e \<Rightarrow> Err e | Panic e \<Rightarrow> Panic e) (\<lambda>st.
               Ok (WithLiteTokens lite, AddDirectoryEntry liteIdUrl [Principal tx] st))))"

definition SyntheticDepositTokens_Validate :: "Transaction \<Rightarrow> StateManager \<Rightarrow> StateManager result" where
  "SyntheticDepositTokens_Validate tx st = (case Body tx of SyntheticDepositTokensBody body \<Rightarrow>
     bind_result (deposit_account body tx st) (\<lambda>(account, st).
       if sdt_Amount body < 0 then Err (Plain ''amount can't be a negative value'')
       else let (account, ok) = CreditTokens (Some (sdt_Amount body)) account in
       if \<not> ok then Err (Plain ''unable to add deposit balance to account'')
       else Update_accounts [of_tokens account] st)
   | _ \<Rightarrow> Err (Plain ''invalid payload''))"

definition SyntheticDepositTokens_DidFail ::
  "Transaction \<Rightarrow> ProcessTransactionState \<Rightarrow> ProcessTransactionState result" where
  "SyntheticDepositTokens_DidFail transaction state = (case Body transaction of SyntheticDepositTokensBody body \<Rightarrow>
     if \<not> sdt_IsRefund body then
       (case Cause (sdt_Origin body) of None \<Rightarrow> nil_origin
        | Some c \<Rightarrow> Ok (DidProduceTxn (Some (tx_url c))
            (if IsIssuer body
             then SyntheticBurnTokensBody \<lparr> sbt_Origin = new_origin, sbt_Amount = sdt_Amount body, sbt_IsRefund = True \<rparr>
             else SyntheticDepositTokensBody \<lparr> sdt_Origin = new_origin, Token = Token body,
                    sdt_Amount = sdt_Amount body, IsIssuer = False, sdt_IsRefund = True \<rparr>) state))
     else Ok state
   | _ \<Rightarrow> Err (Plain ''invalid payload''))"

definition SyntheticBurnTokens_Validate :: "Transaction \<Rightarrow> StateManager \<Rightarrow> StateManager result" where
  "SyntheticBurnTokens_Validate tx st = (case Body tx of SyntheticBurnTokensBody body \<Rightarrow>
     (case Origin st of None \<Rightarrow> nil_origin
      | Some (TokenIssuerOf account) \<Rightarrow>
        if sbt_Amount body < 0 then Err (Plain ''amount can't be a negative value'')
        else Update_accounts [TokenIssuerOf (account \<lparr> Issued := Issued account - sbt_Amount body \<rparr>)] st
      | Some _ \<Rightarrow> Err (Plain ''invalid principal''))
   | _ \<Rightarrow> Err (Plain ''invalid payload''))"

definition SyntheticDepositCredits_AllowMissingPrincipal :: "Transaction \<Rightarrow> bool" where
  "SyntheticDepositCredits_AllowMissingPrincipal transaction \<longleftrightarrow>
     (case ParseLiteIdentity (Principal transaction) of Ok (Some _) \<Rightarrow> True | _ \<Rightarrow> False)"

text \<open>The signer that gets the credits, with the credits, and whether it is new.\<close>
definition credited_signer :: "SyntheticDepositCredits \<Rightarrow> Transaction \<Rightarrow> StateManager \<Rightarrow> (Account \<times> bool) result" where
  "credited_signer body tx st = (case Origin st of
       None \<Rightarrow> (case ParseLiteIdentity (Principal tx) of
           Ok (Some key) \<Rightarrow> Ok (LiteIdentityOf (LiteIdentity_CreditCredits (sdc_Amount body)
             \<lparr> li_Url = Principal tx, li_CreditBalance = 0, li_LastUsedOn = 0 \<rparr>), True)
         | _ \<Rightarrow> Err (Coded StatusNotFound ''not found''))
     | Some (LiteIdentityOf li) \<Rightarrow> Ok (LiteIdentityOf (LiteIdentity_CreditCredits (sdc_Amount body) li), False)
     | Some (KeyPageOf page) \<Rightarrow> Ok (KeyPageOf (CreditCredits (sdc_Amount body) page), False)
     | Some _ \<Rightarrow> Err (Plain ''invalid principal''))"

definition SyntheticDepositCredits_Validate :: "Transaction \<Rightarrow> StateManager \<Rightarrow> StateManager result" where
  "SyntheticDepositCredits_Validate tx st = (case Body tx of SyntheticDepositCreditsBody body \<Rightarrow>
     bind_result (credited_signer body tx st) (\<lambda>(account, create).
     bind_result (LoadUrlAs as_SystemLedger (NodeUrl [Ledger] st) st) (\<lambda>ledgerState.
     bind_result (case AcmeRefundAmount body of None \<Rightarrow> Ok st
       | Some n \<Rightarrow> Update_accounts [SystemLedgerOf (ledgerState \<lparr> AcmeBurnt := AcmeBurnt ledgerState + n \<rparr>)] st) (\<lambda>st.
     if create then Create [account] st else Update_accounts [account] st)))
   | _ \<Rightarrow> Err (Plain ''invalid payload''))"

definition Source :: "SyntheticOrigin \<Rightarrow> URL option" where
  "Source so = map_option tx_url (Cause so)"

definition SyntheticDepositCredits_DidFail ::
  "Transaction \<Rightarrow> ProcessTransactionState \<Rightarrow> ProcessTransactionState result" where
  "SyntheticDepositCredits_DidFail transaction state = (case Body transaction of SyntheticDepositCreditsBody body \<Rightarrow>
     (case AcmeRefundAmount body of
        Some n \<Rightarrow> if \<not> sdc_IsRefund body then Ok (DidProduceTxn (Source (sdc_Origin body))
            (SyntheticDepositTokensBody \<lparr> sdt_Origin = new_origin, Token = AcmeUrl,
               sdt_Amount = n, IsIssuer = False, sdt_IsRefund = True \<rparr>) state)
          else Ok state
      | None \<Rightarrow> Ok state)
   | _ \<Rightarrow> Err (Plain ''invalid payload''))"

end
