(* ===== verification/Governance.thy ===== *)
theory Governance
  imports Accounts
begin

text \<open>
  The executors of \<^verbatim>\<open>src/internal/chain\<close> that change who may sign: updating a key page, a
  single key, and the authorities of an account.
\<close>

section \<open>Authorities\<close>

text \<open>An error when the URL is a page of one of the authorities.\<close>
definition verifyIsNotPage :: "AccountAuth \<Rightarrow> URL \<Rightarrow> unit result" where
  "verifyIsNotPage auth account = (case ParseKeyPageUrl account of None \<Rightarrow> Ok ()
     | Some (book, _) \<Rightarrow> (case GetAuthority book auth of None \<Rightarrow> Ok ()
         | Some _ \<Rightarrow> Err (Coded StatusBadRequest ''a key page is not a valid authority'')))"

text \<open>Assigning to the entry that \<^verbatim>\<open>GetAuthority\<close> returns a pointer to.\<close>
definition set_disabled :: "bool \<Rightarrow> URL \<Rightarrow> AccountAuth \<Rightarrow> AccountAuth result" where
  "set_disabled d u auth = (let (i, found) = Search (Authorities auth) (\<lambda>e. URL_Compare (ae_Url e) u) in
     if found then Ok (auth \<lparr> Authorities := (Authorities auth)[i := (Authorities auth ! i) \<lparr> Disabled := d \<rparr>] \<rparr>)
     else Err (Plain ''not an authority''))"

text \<open>One operation on the authorities of the account with the given URL.\<close>
fun auth_operation :: "URL \<Rightarrow> AccountAuthOperation \<Rightarrow> StateManager \<Rightarrow> AccountAuth \<Rightarrow> AccountAuth result" where
  "auth_operation url (EnableAccountAuthOperation a) st auth = (case a of
       None \<Rightarrow> Err (Coded StatusBadRequest ''authority URL is missing'')
     | Some u \<Rightarrow> set_disabled False u auth)"
| "auth_operation url (DisableAccountAuthOperation a) st auth = (case a of
       None \<Rightarrow> Err (Coded StatusBadRequest ''authority URL is missing'')
     | Some u \<Rightarrow> set_disabled True u auth)"
| "auth_operation url (AddAccountAuthorityOperation a) st auth = (case a of
       None \<Rightarrow> Err (Coded StatusBadRequest ''authority URL is missing'')
     | Some u \<Rightarrow>
         if LocalTo url u \<and> GetState u (batch st) = None then Err (Coded StatusNotFound ''not found'')
         else bind_result (verifyIsNotPage auth u) (\<lambda>_.
           let (auth, i, new) = AddAuthority u auth in
           if \<not> new then Err (Plain ''duplicate authority'') else Ok auth))"
| "auth_operation url (RemoveAccountAuthorityOperation a) st auth = (case a of
       None \<Rightarrow> Err (Coded StatusBadRequest ''authority URL is missing'')
     | Some u \<Rightarrow>
         let (auth, ok) = RemoveAuthority u auth in
         if \<not> ok then Err (Plain ''no such authority'')
         else if length (Authorities auth) = 0
         then Err (Coded StatusBadRequest ''removing the last authority from an account is not allowed'')
         else Ok auth)"

primrec auth_operations :: "URL \<Rightarrow> AccountAuthOperation list \<Rightarrow> StateManager \<Rightarrow> AccountAuth \<Rightarrow> AccountAuth result" where
  "auth_operations url [] st auth = Ok auth"
| "auth_operations url (op # ops) st auth = bind_result (auth_operation url op st auth) (auth_operations url ops st)"

definition UpdateAccountAuth_Validate :: "Transaction \<Rightarrow> StateManager \<Rightarrow> StateManager result" where
  "UpdateAccountAuth_Validate tx st = (case Body tx of UpdateAccountAuthBody ops \<Rightarrow>
     (case Origin st of None \<Rightarrow> Panic ''invalid memory address or nil pointer dereference''
      | Some account \<Rightarrow> (case GetAuth account of
          None \<Rightarrow> Err (Plain ''account type does not support advanced auth'')
        | Some auth \<Rightarrow> bind_result (auth_operations (GetUrl account) ops st auth)
            (\<lambda>auth. Update_accounts [put_auth auth account] st)))
   | _ \<Rightarrow> Err (Plain ''invalid payload''))"

section \<open>Key pages\<close>

text \<open>The position of an entry: by its key hash, else by its delegate.\<close>
definition findKeyPageEntry :: "KeyPage \<Rightarrow> KeySpecParams \<Rightarrow> nat option" where
  "findKeyPageEntry page search =
     (case (if length (KeyHash search) > 0 then EntryByKeyHash (KeyHash search) page else None) of
        Some i \<Rightarrow> Some i
      | None \<Rightarrow> (case ksp_Delegate search of Some d \<Rightarrow> EntryByDelegate d page | None \<Rightarrow> None))"

definition check_delegate :: "KeyPage \<Rightarrow> KeyBook \<Rightarrow> URL option \<Rightarrow> unit result" where
  "check_delegate page book delegate = (case delegate of None \<Rightarrow> Ok ()
     | Some d \<Rightarrow> if ParentOf d (kp_Url page) then Err (Plain ''self-delegation is not allowed'')
         else verifyIsNotPage (kb_Auth book) d)"

definition updateKey :: "KeyBook \<Rightarrow> KeySpecParams \<Rightarrow> KeySpecParams \<Rightarrow> bool \<Rightarrow> KeyPage \<Rightarrow> KeyPage result" where
  "updateKey book old new preserveDelegate page =
     (if KeySpecParams_IsEmpty new then Err (Plain ''cannot add an empty entry'')
      else bind_result (check_delegate page book (ksp_Delegate new)) (\<lambda>_.
      case findKeyPageEntry page old of
        None \<Rightarrow> Err (Plain ''entry to be updated not found on the key page'')
      | Some oldPos \<Rightarrow>
        if (case findKeyPageEntry page new of Some newPos \<Rightarrow> oldPos \<noteq> newPos | None \<Rightarrow> False)
        then Err (Plain ''cannot have duplicate entries on key page'')
        else let entry = Keys page ! oldPos;
                 entry = entry \<lparr> PublicKeyHash := KeyHash new \<rparr>;
                 entry = (if ksp_Delegate new \<noteq> None \<or> \<not> preserveDelegate
                          then entry \<lparr> Delegate := ksp_Delegate new \<rparr> else entry)
             in map_ok (AddKeySpec entry) (RemoveKeySpecAt oldPos page)))"

definition AllowedTransactionBit_of :: "nat \<Rightarrow> AllowedTransactionBit option" where
  "AllowedTransactionBit_of typ = (if typ = 15 then Some 1 else if typ = 21 then Some 2 else None)"

primrec change_bits :: "(AllowedTransactionBit \<Rightarrow> AllowedTransactions \<Rightarrow> AllowedTransactions) \<Rightarrow> nat list
    \<Rightarrow> AllowedTransactions \<Rightarrow> AllowedTransactions result" where
  "change_bits f [] v = Ok v"
| "change_bits f (t # ts) v = (case AllowedTransactionBit_of t of
       None \<Rightarrow> Err (Plain ''transaction type cannot be (dis)allowed'')
     | Some bit' \<Rightarrow> change_bits f ts (f bit' v))"

fun executeOperation :: "KeyBook \<Rightarrow> KeyPageOperation \<Rightarrow> KeyPage \<Rightarrow> KeyPage result" where
  "executeOperation book (AddKeyOperation entry) page =
     (if KeySpecParams_IsEmpty entry then Err (Plain ''cannot add an empty entry'')
      else bind_result (check_delegate page book (ksp_Delegate entry)) (\<lambda>_.
      if findKeyPageEntry page entry \<noteq> None then Err (Plain ''cannot have duplicate entries on key page'')
      else Ok (AddKeySpec \<lparr> PublicKeyHash = KeyHash entry, LastUsedOn = 0, Delegate = ksp_Delegate entry \<rparr> page)))"
| "executeOperation book (RemoveKeyOperation entry) page = (case findKeyPageEntry page entry of
       None \<Rightarrow> Err (Plain ''entry to be removed not found on the key page'')
     | Some index \<Rightarrow> (case ParseKeyPageUrl (kp_Url page) of
         None \<Rightarrow> Err (Coded StatusInternalError ''principal is not a key page'')
       | Some (_, pageIndex) \<Rightarrow>
         if length (Keys page) = 1 \<and> pageIndex = 1
         then Err (Plain ''cannot delete last key of the highest priority page of a key book'')
         else map_ok (\<lambda>page. if AcceptThreshold page > word_of_nat (length (Keys page))
                 then page \<lparr> AcceptThreshold := word_of_nat (length (Keys page)) \<rparr> else page)
               (RemoveKeySpecAt index page)))"
| "executeOperation book (UpdateKeyOperation old new) page = updateKey book old new False page"
| "executeOperation book (SetThresholdKeyPageOperation threshold) page = SetThreshold threshold page"
| "executeOperation book (UpdateAllowedKeyPageOperation allow deny) page =
     bind_result (change_bits AllowedTransactions_Clear allow
       (case TransactionBlacklist page of None \<Rightarrow> 0 | Some v \<Rightarrow> v)) (\<lambda>v.
     bind_result (change_bits AllowedTransactions_Set deny v) (\<lambda>v.
       Ok (page \<lparr> TransactionBlacklist := (if v = 0 then None else Some v) \<rparr>)))"

primrec executeOperations :: "KeyBook \<Rightarrow> KeyPageOperation list \<Rightarrow> KeyPage \<Rightarrow> KeyPage result" where
  "executeOperations book [] page = Ok page"
| "executeOperations book (op # ops) page = bind_result (executeOperation book op page) (executeOperations book ops)"

definition didUpdateKeyPage :: "KeyPage \<Rightarrow> KeyPage" where
  "didUpdateKeyPage page = page \<lparr> Version := Version page + 1, Keys := map (\<lambda>k. k \<lparr> LastUsedOn := 0 \<rparr>) (Keys page) \<rparr>"

text \<open>The book of the page that is the principal.\<close>
definition load_book :: "StateManager \<Rightarrow> KeyBook result" where
  "load_book st = (case ParseKeyPageUrl (OriginUrl st) of
       None \<Rightarrow> Err (Plain ''invalid principal: page url is invalid'')
     | Some (bookUrl, _) \<Rightarrow> bind_result (LoadUrlAs as_KeyBook bookUrl st) (\<lambda>book.
         if BookType book = BookTypeValidator
         then Err (Plain ''cannot be used to modify the validator key book'') else Ok book))"

definition UpdateKeyPage_Validate :: "Transaction \<Rightarrow> StateManager \<Rightarrow> StateManager result" where
  "UpdateKeyPage_Validate tx st = (case Body tx of UpdateKeyPageBody ops \<Rightarrow>
     (case Origin st of None \<Rightarrow> Panic ''invalid memory address or nil pointer dereference''
      | Some (KeyPageOf page) \<Rightarrow>
          bind_result (load_book st) (\<lambda>book.
          bind_result (executeOperations book ops page) (\<lambda>page.
            Update_accounts [KeyPageOf (didUpdateKeyPage page)] st))
      | Some _ \<Rightarrow> Err (Plain ''invalid principal''))
   | _ \<Rightarrow> Err (Plain ''invalid payload''))"

section \<open>What the operations on a page leave alone\<close>

definition same_page :: "KeyPage \<Rightarrow> KeyPage \<Rightarrow> bool" where
  "same_page p q \<longleftrightarrow> kp_Url q = kp_Url p \<and> Version q = Version p"

lemma same_page_change:
  "same_page p (AddKeySpec k p)" "same_page p (p \<lparr> AcceptThreshold := m \<rparr>)" "same_page p (p \<lparr> TransactionBlacklist := v \<rparr>)"
  by (simp_all add: same_page_def AddKeySpec_def case_prod_unfold Let_def)

lemma same_page_trans: "same_page p q \<Longrightarrow> same_page q r \<Longrightarrow> same_page p r"
  by (simp add: same_page_def)

lemma RemoveKeySpecAt_same: "RemoveKeySpecAt i p = Ok p' \<Longrightarrow> same_page p p'"
  by (auto simp: RemoveKeySpecAt_def map_ok_Ok same_page_def)

lemma executeOperation_same:
  assumes "executeOperation book op p = Ok p'"
  shows "same_page p p'"
proof (cases op)
  case (UpdateKeyOperation old new)
  then obtain i k q where "RemoveKeySpecAt i p = Ok q" "p' = AddKeySpec k q"
    using assms by (auto simp: updateKey_def result_simps Let_def map_ok_Ok split: if_splits option.splits)
  then show ?thesis using same_page_trans RemoveKeySpecAt_same same_page_change(1) by blast
next
  case (RemoveKeyOperation s)
  then obtain i q where "RemoveKeySpecAt i p = Ok q"
      "p' = (if AcceptThreshold q > word_of_nat (length (Keys q)) then q \<lparr> AcceptThreshold := word_of_nat (length (Keys q)) \<rparr> else q)"
    using assms by (auto simp: result_simps map_ok_Ok split: if_splits option.splits)
  then show ?thesis using RemoveKeySpecAt_same by (simp add: same_page_def)
qed (use assms in \<open>auto simp: SetThreshold_def result_simps intro: same_page_change split: if_splits\<close>)

lemma executeOperations_same: "executeOperations book ops p = Ok p' \<Longrightarrow> same_page p p'"
proof (induction ops arbitrary: p)
  case (Cons op ops)
  then show ?case by (auto simp: result_simps intro: same_page_trans dest: executeOperation_same)
qed (simp add: same_page_def)

end
