(* ===== verification/Creation.thy ===== *)
theory Creation
  imports Governance
begin

text \<open>
  The executors of \<^verbatim>\<open>src/internal/chain\<close> that create accounts: identities with their book and
  page (here or, for another partition, by a synthetic transaction), books, pages, data accounts,
  token issuers, token accounts with the proof that their issuer exists, and lite token accounts.
\<close>

section \<open>Accounts of an identity\<close>

text \<open>The origin must be an identity, and the new account a child of it.\<close>
definition checkCreateAdiAccount :: "URL \<Rightarrow> StateManager \<Rightarrow> unit result" where
  "checkCreateAdiAccount account st = (case Origin st of
       None \<Rightarrow> Panic ''invalid memory address or nil pointer dereference''
     | Some (ADIOf _) \<Rightarrow> if \<not> URL_Equal (Identity account) (OriginUrl st)
         then Err (Coded StatusBadRequest ''invalid principal: cannot create a child of another account'') else Ok ()
     | Some _ \<Rightarrow> Err (Coded StatusBadRequest ''invalid principal''))"

text \<open>The checks that the creating executors start with.\<close>
definition check_new :: "URL option \<Rightarrow> URL option list \<Rightarrow> URL result" where
  "check_new url authorities = (case url of None \<Rightarrow> Err (Coded StatusBadRequest ''account URL is missing'')
     | Some u \<Rightarrow> if None \<in> set authorities then Err (Coded StatusBadRequest ''authority URL is nil'') else Ok u)"

abbreviation new_auth :: AccountAuth where
  "new_auth \<equiv> \<lparr> Authorities = [] \<rparr>"

definition new_page :: "URL \<Rightarrow> 64 word \<Rightarrow> KeyPage" where
  "new_page url threshold = \<lparr> kp_Url = url, CreditBalance = 0, AcceptThreshold = threshold, RejectThreshold = 0,
     ResponseThreshold = 0, BlockThreshold = 0, Version = 1, Keys = [], TransactionBlacklist = None \<rparr>"

definition new_key :: "bytes \<Rightarrow> KeySpec" where
  "new_key h = \<lparr> PublicKeyHash = h, LastUsedOn = 0, Delegate = None \<rparr>"

definition CreateDataAccount_Validate :: "Transaction \<Rightarrow> StateManager \<Rightarrow> StateManager result" where
  "CreateDataAccount_Validate tx st = (case Body tx of CreateDataAccountBody body \<Rightarrow>
     bind_result (check_new (cda_Url body) (cda_Authorities body)) (\<lambda>u.
     bind_result (checkCreateAdiAccount u st) (\<lambda>_.
     bind_result (SetAuth (DataAccountOf \<lparr> da_Url = u, da_Auth = new_auth \<rparr>) (cda_Authorities body) st) (\<lambda>account.
     Create [account] st)))
   | _ \<Rightarrow> Err (Plain ''invalid payload''))"

definition CreateToken_Validate :: "Transaction \<Rightarrow> StateManager \<Rightarrow> StateManager result" where
  "CreateToken_Validate tx st = (case Body tx of CreateTokenBody body \<Rightarrow>
     bind_result (check_new (ct_Url body) (ct_Authorities body)) (\<lambda>u.
     bind_result (checkCreateAdiAccount u st) (\<lambda>_.
     if ct_Precision body > 18 then Err (Plain ''precision must be in range 0 to 18'')
     else if (case ct_SupplyLimit body of None \<Rightarrow> False | Some l \<Rightarrow> l < 0)
     then Err (Plain ''supply limit can't be a negative value'')
     else bind_result (SetAuth (TokenIssuerOf \<lparr> ti_Url = u, ti_Auth = new_auth, Symbol = ct_Symbol body,
         Precision = ct_Precision body, Properties = ct_Properties body, Issued = 0,
         SupplyLimit = ct_SupplyLimit body \<rparr>) (ct_Authorities body) st) (\<lambda>token.
     Create [token] st)))
   | _ \<Rightarrow> Err (Plain ''invalid payload''))"

text \<open>The encoding of a transaction body is generated code, hence the argument \<^term>\<open>marshal\<close>.\<close>
definition verifyCreateTokenAccountProof ::
  "(CreateToken \<Rightarrow> bytes) \<Rightarrow> Batch \<Rightarrow> URL \<Rightarrow> URL \<Rightarrow> TokenIssuerProof option \<Rightarrow> unit result" where
  "verifyCreateTokenAccountProof marshal b pr tokenUrl proof' =
     bind_result (if LocalTo pr tokenUrl then
         (case GetState tokenUrl b of
            None \<Rightarrow> Err (Coded StatusBadRequest ''invalid token url'')
          | Some (TokenIssuerOf _) \<Rightarrow> Ok ()
          | Some _ \<Rightarrow> Err (Coded StatusBadRequest ''invalid token url''))
       else Ok ()) (\<lambda>_.
     case proof' of
       None \<Rightarrow> if URL_Equal tokenUrl AcmeUrl \<or> LocalTo pr tokenUrl then Ok ()
         else Err (Coded StatusBadRequest ''missing proof of existence for token issuer'')
     | Some p \<Rightarrow> (case (tip_Transaction p, tip_Receipt p) of
         (None, _) \<Rightarrow> Err (Coded StatusBadRequest ''invalid proof: missing transaction'')
       | (Some _, None) \<Rightarrow> Err (Coded StatusBadRequest ''invalid proof: missing receipt'')
       | (Some t, Some r) \<Rightarrow>
           if \<not> Validate r then Err (Coded StatusBadRequest ''proof is invalid'')
           else if (case ct_Url t of None \<Rightarrow> True | Some u \<Rightarrow> \<not> URL_Equal tokenUrl u)
           then Err (Coded StatusBadRequest ''invalid proof: URL does not match token issuer URL'')
           else if contents (Start r) \<noteq> sha256 (marshal t)
           then Err (Coded StatusBadRequest ''invalid proof: state hash does not match proof start'')
           else if contents (Anchor r) \<notin> set (AnchorChain b)
           then Err (Coded StatusBadRequest ''invalid proof: lookup DN anchor'')
           else Ok ()))"

definition CreateTokenAccount_Validate :: "(CreateToken \<Rightarrow> bytes) \<Rightarrow> Transaction \<Rightarrow> StateManager \<Rightarrow> StateManager result" where
  "CreateTokenAccount_Validate marshal tx st = (case Body tx of CreateTokenAccountBody body \<Rightarrow>
     bind_result (check_new (cta_Url body) (cta_Authorities body)) (\<lambda>u.
     bind_result (checkCreateAdiAccount u st) (\<lambda>_.
     case cta_TokenUrl body of None \<Rightarrow> Err (Coded StatusBadRequest ''token URL is missing'')
     | Some tokenUrl \<Rightarrow>
       bind_result (verifyCreateTokenAccountProof marshal (batch st) (Principal tx) tokenUrl (Proof body)) (\<lambda>_.
       bind_result (SetAuth (TokenAccountOf \<lparr> ta_Url = u, ta_Auth = new_auth, ta_TokenUrl = tokenUrl, ta_Balance = 0 \<rparr>)
         (cta_Authorities body) st) (\<lambda>account.
       Create [account] st))))
   | _ \<Rightarrow> Err (Plain ''invalid payload''))"

definition CreateLiteTokenAccount_Validate :: "Transaction \<Rightarrow> StateManager \<Rightarrow> StateManager result" where
  "CreateLiteTokenAccount_Validate tx st = (case Body tx of CreateLiteTokenAccountBody \<Rightarrow>
     (case ParseLiteTokenAddress (Principal tx) of
        Ok (Some (key, tok)) \<Rightarrow>
          if \<not> URL_Equal AcmeUrl tok
          then Err (Coded StatusBadRequest ''creating non-ACME lite token accounts is not supported'')
          else bind_result (Create [LiteTokenAccountOf \<lparr> lta_Url = Principal tx, lta_TokenUrl = tok,
              lta_Balance = 0, LockHeight = 0 \<rparr>] st) (\<lambda>st.
            case GetState (RootIdentity (Principal tx)) (batch st) of
              Some (LiteIdentityOf _) \<Rightarrow> Ok st
            | Some _ \<Rightarrow> Err (Coded StatusUnknownError ''load lite identity'')
            | None \<Rightarrow> Create [LiteIdentityOf \<lparr> li_Url = RootIdentity (Principal tx), li_CreditBalance = 0,
                li_LastUsedOn = 0 \<rparr>] st)
      | _ \<Rightarrow> Err (Coded StatusBadRequest ''invalid lite token account URL''))
   | _ \<Rightarrow> Err (Coded StatusInternalError ''invalid payload''))"

section \<open>Books, pages and identities\<close>

definition CreateKeyBook_Validate :: "Transaction \<Rightarrow> StateManager \<Rightarrow> StateManager result" where
  "CreateKeyBook_Validate tx st = (case Body tx of CreateKeyBookBody body \<Rightarrow>
     bind_result (check_new (ckb_Url body) (ckb_Authorities body)) (\<lambda>u.
     bind_result (checkCreateAdiAccount u st) (\<lambda>_.
     if length (ckb_PublicKeyHash body) = 0 then Err (Coded StatusBadRequest ''public key hash is missing'')
     else if length (ckb_PublicKeyHash body) \<noteq> 32 then Err (Coded StatusBadRequest ''public key hash length is invalid'')
     else bind_result (SetAuth (KeyBookOf \<lparr> kb_Url = u, BookType = BookTypeNormal,
         kb_Auth = fst (AddAuthority u new_auth), PageCount = 1 \<rparr>) (ckb_Authorities body) st) (\<lambda>book.
     Create [book, KeyPageOf (new_page (FormatKeyPageUrl u 0) 0 \<lparr> Keys := [new_key (ckb_PublicKeyHash body)] \<rparr>)] st)))
   | _ \<Rightarrow> Err (Plain ''invalid payload''))"

text \<open>The keys given must be empty or 32 bytes long, and none may occur twice.\<close>
primrec check_keys :: "bytes list \<Rightarrow> bytes list \<Rightarrow> unit result" where
  "check_keys seen [] = Ok ()"
| "check_keys seen (h # hs) = (if length h = 0 then check_keys seen hs
     else if length h = 32 then
       if h \<in> set seen then Err (Plain ''duplicate keys: signing keys of a keypage must be unique'')
       else check_keys (h # seen) hs
     else Err (Coded StatusBadRequest ''public key hash length is invalid''))"

definition CreateKeyPage_Validate :: "Transaction \<Rightarrow> StateManager \<Rightarrow> StateManager result" where
  "CreateKeyPage_Validate tx st = (case Origin st of
       None \<Rightarrow> Panic ''invalid memory address or nil pointer dereference''
     | Some (KeyBookOf book) \<Rightarrow> (case Body tx of CreateKeyPageBody keys \<Rightarrow>
         if length keys = 0 then Err (Plain ''cannot create empty sig spec'')
         else bind_result (check_keys [] (map KeyHash keys)) (\<lambda>_.
         let page = new_page (FormatKeyPageUrl (kb_Url book) (PageCount book)) 1;
             page = foldl (\<lambda>p k. AddKeySpec (new_key (KeyHash k)) p) page keys in
         bind_result (Update_accounts [KeyBookOf (book \<lparr> PageCount := PageCount book + 1 \<rparr>)] st)
           (\<lambda>st. Create [KeyPageOf page] st))
       | _ \<Rightarrow> Err (Plain ''invalid payload''))
     | Some _ \<Rightarrow> Err (Plain ''invalid principal''))"

definition validateKeyBookUrl :: "URL \<Rightarrow> URL \<Rightarrow> unit result" where
  "validateKeyBookUrl bookUrl adiUrl =
     (if IsValidAdiUrl bookUrl False \<noteq> [] then Err (Coded StatusBadRequest ''invalid KeyBook URL'')
      else let (parent, ok) = Parent bookUrl in
      if \<not> ok then Err (Coded StatusBadRequest ''invalid URL, the KeyBook URL must be adi_path/KeyBook'')
      else if \<not> URL_Equal parent adiUrl then Err (Coded StatusBadRequest ''KeyBook must be a direct child of its ADI'')
      else Ok ())"

text \<open>The authorities of a new identity, and the book and page made with it.\<close>
definition identity_book :: "CreateIdentity \<Rightarrow> URL \<Rightarrow> (AccountAuth \<times> Account list) result" where
  "identity_book body u = (case KeyBookUrl body of
       None \<Rightarrow> Ok (new_auth, [])
     | Some bookUrl \<Rightarrow>
         if length (ci_KeyHash body) = 0 then Err (Coded StatusBadRequest ''missing PublicKey'')
         else bind_result (validateKeyBookUrl bookUrl u) (\<lambda>_.
         if length (ci_KeyHash body) \<noteq> 32 then Err (Coded StatusBadRequest ''invalid Key Hash'')
         else Ok (fst (AddAuthority bookUrl new_auth),
           [KeyBookOf \<lparr> kb_Url = bookUrl, BookType = BookTypeNormal,
              kb_Auth = fst (AddAuthority bookUrl new_auth), PageCount = 1 \<rparr>,
            KeyPageOf (AddKeySpec (new_key (ci_KeyHash body)) (new_page (FormatKeyPageUrl bookUrl 0) 1))])))"

definition CreateIdentity_Validate :: "Transaction \<Rightarrow> StateManager \<Rightarrow> StateManager result" where
  "CreateIdentity_Validate tx st = (case Body tx of CreateIdentityBody body \<Rightarrow>
     bind_result (check_new (ci_Url body) (ci_Authorities body)) (\<lambda>u.
     bind_result (if \<not> IsRootIdentity u then checkCreateAdiAccount u st else Ok ()) (\<lambda>_.
     if KeyBookUrl body = None \<and> length (ci_Authorities body) = 0 \<and> IsRootIdentity u
     then Err (Coded StatusBadRequest ''a root identity cannot be created with an empty authority set'')
     else if IsValidAdiUrl u False \<noteq> [] then Err (Coded StatusBadRequest ''invalid URL'')
     else bind_result (identity_book body u)
       (\<lambda>(auth, accounts).
     bind_result (SetAuth (ADIOf \<lparr> adi_Url = u, adi_Auth = auth \<rparr>) (ci_Authorities body) st) (\<lambda>identity.
     if \<not> LocalTo (Principal tx) u
     then Submit (Some u) (SyntheticCreateIdentityBody
       \<lparr> sci_Origin = \<lparr> Cause = None, so_Initiator = None, FeeRefund = 0 \<rparr>, sci_Accounts = identity # accounts \<rparr>) st
     else Create (identity # accounts) st))))
   | _ \<Rightarrow> Err (Coded StatusInternalError ''invalid payload''))"

text \<open>The accounts must be in an identity that exists, and have authorities that exist if they are local.\<close>
definition check_created :: "StateManager \<Rightarrow> Account \<Rightarrow> bool" where
  "check_created st account = (let u = GetUrl account in
     case GetState u (batch st) of None \<Rightarrow> False
     | Some a \<Rightarrow>
       ((case a of ADIOf _ \<Rightarrow> True | _ \<Rightarrow> GetState (Identity u) (batch st) \<noteq> None) \<and>
        (case GetAuth a of None \<Rightarrow> True
         | Some auth \<Rightarrow> Authorities auth \<noteq> [] \<and> list_all (\<lambda>e. \<not> LocalTo (GetUrl a) (ae_Url e) \<or>
             (case GetState (ae_Url e) (batch st) of Some (KeyBookOf _) \<Rightarrow> True | _ \<Rightarrow> False)) (Authorities auth))))"

definition SyntheticCreateIdentity_Validate :: "Transaction \<Rightarrow> StateManager \<Rightarrow> StateManager result" where
  "SyntheticCreateIdentity_Validate tx st = (case Body tx of SyntheticCreateIdentityBody body \<Rightarrow>
     if Cause (sci_Origin body) = None then Err (Plain ''cause is missing'')
     else bind_result (Create (sci_Accounts body) st) (\<lambda>st.
       if list_all (check_created st) (sci_Accounts body) then Ok st else Err (Plain ''invalid account''))
   | _ \<Rightarrow> Err (Plain ''invalid payload''))"

end
