(* ===== verification/Fees.thy ===== *)
theory Fees
  imports Accounts
begin

text \<open>
  The fee schedule (\<^verbatim>\<open>src/protocol/fee_schedule.go\<close>): what a transaction costs, and how much of it
  comes back when a synthetic transaction it produced fails. Fees are 64-bit; the size of a
  transaction is that of its encoding, which is generated code and hence an argument.
\<close>

section \<open>The schedule\<close>

type_synonym Fee = "64 word"

definition FeeFailedMaximum :: Fee where "FeeFailedMaximum = 100"
definition FeeSignature :: Fee where "FeeSignature = 1"
definition FeeCreateIdentity :: Fee where "FeeCreateIdentity = 50000"
definition FeeCreateAccount :: Fee where "FeeCreateAccount = 2500"
definition FeeTransferTokens :: Fee where "FeeTransferTokens = 300"
definition FeeTransferTokensExtra :: Fee where "FeeTransferTokensExtra = 100"
definition FeeCreateToken :: Fee where "FeeCreateToken = 500000"
definition FeeGeneralSmall :: Fee where "FeeGeneralSmall = 10"
definition FeeCreateKeyPage :: Fee where "FeeCreateKeyPage = 10000"
definition FeeCreateKeyPageExtra :: Fee where "FeeCreateKeyPageExtra = 100"
definition FeeData :: Fee where "FeeData = 10"
definition FeeScratchData :: Fee where "FeeScratchData = 1"
definition FeeUpdateAuth :: Fee where "FeeUpdateAuth = 300"
definition FeeUpdateAuthExtra :: Fee where "FeeUpdateAuthExtra = 100"

lemmas fee_defs = FeeFailedMaximum_def FeeSignature_def FeeCreateIdentity_def FeeCreateAccount_def
  FeeTransferTokens_def FeeTransferTokensExtra_def FeeCreateToken_def FeeGeneralSmall_def
  FeeCreateKeyPage_def FeeCreateKeyPageExtra_def FeeData_def FeeScratchData_def FeeUpdateAuth_def
  FeeUpdateAuthExtra_def

definition TransactionSizeMax :: nat where "TransactionSizeMax = 20480"
definition SignatureSizeMax :: nat where "SignatureSizeMax = 1024"

text \<open>\<^verbatim>\<open>Fee(n-1)\<close> of a Go int: for zero it is the largest fee.\<close>
definition fee_pred :: "nat \<Rightarrow> Fee" where
  "fee_pred n = word_of_int (int n - 1)"

text \<open>The number of 256-byte chunks of an encoding of the given size.\<close>
definition dataCount :: "nat \<Rightarrow> nat" where
  "dataCount sz = sz div 256 + (if sz mod 256 \<noteq> 0 then 1 else 0)"

text \<open>The signature has the given size and layers of delegation.\<close>
definition ComputeSignatureFee :: "nat \<Rightarrow> nat \<Rightarrow> Fee result" where
  "ComputeSignatureFee sz layers = (if sz > SignatureSizeMax
     then Err (Coded StatusBadRequest ''signature size exceeds byte entry limit'')
     else Ok (FeeSignature + FeeSignature * fee_pred (dataCount sz) + of_nat layers * FeeSignature))"

text \<open>The schedule is the sliding fee of an identity by the length of its name; it may be nil.\<close>
definition identity_fee :: "Fee list option \<Rightarrow> URL option \<Rightarrow> Fee" where
  "identity_fee s url = (case (s, url) of
       (Some sliding, Some u) \<Rightarrow>
         if \<not> IsRootIdentity u \<or> \<not> HasSuffix (Authority u) TLD then FeeCreateIdentity
         else let name = take (length (Authority u) - length TLD) (Authority u) in
           if length name = 0 then FeeCreateIdentity
           else let i = length name - 1 in
             if i < length sliding then sliding ! i else FeeCreateIdentity
     | _ \<Rightarrow> FeeCreateIdentity)"

definition ComputeTransactionFee :: "Fee list option \<Rightarrow> Transaction \<Rightarrow> nat \<Rightarrow> Fee result" where
  "ComputeTransactionFee s tx sz =
     (if ParsePartitionUrl (Principal tx) \<noteq> None then Ok 0
      else if \<not> IsUser (body_Type (Body tx)) then Ok 0
      else if sz > TransactionSizeMax then Err (Coded StatusBadRequest ''transaction size exceeds byte entry limit'')
      else let count = dataCount sz; data = FeeData * fee_pred count in
      case Body tx of
        CreateTokenBody _ \<Rightarrow> Ok (FeeCreateToken + data)
      | CreateIdentityBody body \<Rightarrow> Ok (data + identity_fee s (ci_Url body))
      | CreateTokenAccountBody _ \<Rightarrow> Ok (FeeCreateAccount + data)
      | CreateDataAccountBody _ \<Rightarrow> Ok (FeeCreateAccount + data)
      | SendTokensBody to \<Rightarrow> Ok (FeeTransferTokens + FeeTransferTokensExtra * fee_pred (length to) + data)
      | IssueTokensBody body \<Rightarrow> Ok (FeeTransferTokens + FeeTransferTokensExtra * fee_pred (length (it_To body)) + data)
      | CreateLiteTokenAccountBody \<Rightarrow> Ok (FeeTransferTokens + data)
      | CreateKeyBookBody _ \<Rightarrow> Ok (FeeCreateKeyPage + data)
      | CreateKeyPageBody keys \<Rightarrow> Ok (FeeCreateKeyPage + FeeCreateKeyPageExtra * fee_pred (length keys) + data)
      | UpdateKeyPageBody ops \<Rightarrow> Ok (FeeUpdateAuth + FeeUpdateAuthExtra * fee_pred (length ops) + data)
      | UpdateAccountAuthBody ops \<Rightarrow> Ok (FeeUpdateAuth + FeeUpdateAuthExtra * fee_pred (length ops) + data)
      | UpdateKeyBody _ \<Rightarrow> Ok (FeeUpdateAuth + data)
      | BurnTokensBody _ \<Rightarrow> Ok (FeeGeneralSmall + data)
      | LockAccountBody _ \<Rightarrow> Ok (FeeGeneralSmall + data)
      | WriteDataBody scratch toState \<Rightarrow>
          Ok (of_nat count * (if scratch then FeeScratchData else FeeData) * (if toState then 2 else 1))
      | WriteDataToBody \<Rightarrow> Ok (FeeData * of_nat count)
      | AddCreditsBody _ \<Rightarrow> Ok 0
      | AcmeFaucetBody _ \<Rightarrow> Ok 0
      | _ \<Rightarrow> Err (Coded StatusInternalError ''unknown transaction type''))"

definition ComputeSyntheticRefund :: "Fee list option \<Rightarrow> Transaction \<Rightarrow> nat \<Rightarrow> nat \<Rightarrow> Fee result" where
  "ComputeSyntheticRefund s txn sz synthCount =
     bind_result (ComputeTransactionFee s txn sz) (\<lambda>paid.
       if paid \<le> FeeFailedMaximum then Ok 0
       else case Body txn of
         SendTokensBody _ \<Rightarrow> Ok FeeTransferTokensExtra
       | IssueTokensBody _ \<Rightarrow> Ok FeeTransferTokensExtra
       | _ \<Rightarrow> if synthCount > 1
           then Err (Coded StatusUnknownError ''a transaction cannot have multiple outputs'')
           else Ok (paid - FeeFailedMaximum))"

section \<open>Refunds\<close>

lemma fee_pred_Suc: "fee_pred (Suc n) = of_nat n"
  by (simp add: fee_pred_def)

lemma dataCount_pos: "0 < sz \<Longrightarrow> 0 < dataCount sz"
  by (auto simp: dataCount_def)

lemma dataCount_le: "sz \<le> TransactionSizeMax \<Longrightarrow> dataCount sz \<le> 80"
proof -
  assume "sz \<le> TransactionSizeMax"
  then have s: "sz \<le> 20480" by (simp add: TransactionSizeMax_def)
  have d: "sz = 256 * (sz div 256) + sz mod 256" by simp
  show ?thesis
  proof (cases "sz mod 256 = 0")
    case False
    then have "sz div 256 < 80" using s d by linarith
    then show ?thesis by (simp add: dataCount_def)
  qed (use s d in \<open>simp add: dataCount_def\<close>)
qed

lemma unat_of_nat_fee: "n < 2 ^ 64 \<Longrightarrow> unat (of_nat n :: Fee) = n"
  by (simp add: unsigned_of_nat take_bit_nat_eq_self)

text \<open>The price of \<^term>\<open>n\<close> transfers; a word of fees below the bound does not wrap.\<close>
lemma transfer_fee:
  assumes "n \<le> 2 ^ 32" "c \<le> 80" "0 < c"
  shows "unat (FeeTransferTokens + FeeTransferTokensExtra * fee_pred n + FeeData * fee_pred c)
    = 200 + 100 * n + 10 * (c - 1)"
proof -
  have c: "fee_pred c = of_nat (c - 1)" using assms(3) by (cases c) (simp_all add: fee_pred_Suc)
  have n: "FeeTransferTokens + FeeTransferTokensExtra * fee_pred n = of_nat (200 + 100 * n)"
    by (cases n) (simp_all add: fee_defs fee_pred_def algebra_simps)
  have "FeeTransferTokens + FeeTransferTokensExtra * fee_pred n + FeeData * fee_pred c
      = of_nat (200 + 100 * n + 10 * (c - 1))"
    unfolding n c by (simp add: fee_defs)
  moreover have "200 + 100 * n + 10 * (c - 1) < 2 ^ 64" using assms(1,2) by simp
  ultimately show ?thesis by (simp only: unat_of_nat_fee)
qed

text \<open>The number of synthetic transactions a transaction produces: one per recipient for a transfer.\<close>
definition outputs :: "Transaction \<Rightarrow> nat \<Rightarrow> bool" where
  "outputs tx n \<longleftrightarrow> n \<le> 2 ^ 32 \<and> (case Body tx of SendTokensBody to \<Rightarrow> n = length to
     | IssueTokensBody body \<Rightarrow> n = length (it_To body) + (if Recipient body \<noteq> None then 1 else 0)
     | _ \<Rightarrow> True)"

lemma ComputeTransactionFee_transfer:
  assumes "ComputeTransactionFee s tx sz = Ok paid" "FeeFailedMaximum < paid" "0 < sz"
    "Body tx = SendTokensBody to \<and> n = length to \<or> Body tx = IssueTokensBody body \<and> n = length (it_To body)"
    "n \<le> 2 ^ 32"
  shows "200 + 100 * n \<le> unat paid"
proof -
  from assms(2) have "paid \<noteq> 0" by auto
  with assms(1) have sz: "sz \<le> TransactionSizeMax"
    by (auto simp: ComputeTransactionFee_def split: if_splits)
  with \<open>paid \<noteq> 0\<close> assms(1,4) have "paid = FeeTransferTokens + FeeTransferTokensExtra * fee_pred n + FeeData * fee_pred (dataCount sz)"
    by (auto simp: ComputeTransactionFee_def Let_def split: if_splits)
  then show ?thesis
    using transfer_fee [OF assms(5) dataCount_le [OF sz] dataCount_pos [OF assms(3)]] by simp
qed

text \<open>The refund of one output, by the kind of the transaction.\<close>
lemma ComputeSyntheticRefund_cases:
  assumes "ComputeSyntheticRefund s tx sz n = Ok refund"
  obtains (none) paid where "ComputeTransactionFee s tx sz = Ok paid" "refund = 0"
  | (send) paid to where "ComputeTransactionFee s tx sz = Ok paid" "FeeFailedMaximum < paid"
      "Body tx = SendTokensBody to" "refund = FeeTransferTokensExtra"
  | (issue) paid body where "ComputeTransactionFee s tx sz = Ok paid" "FeeFailedMaximum < paid"
      "Body tx = IssueTokensBody body" "refund = FeeTransferTokensExtra"
  | (other) paid where "ComputeTransactionFee s tx sz = Ok paid" "FeeFailedMaximum < paid"
      "\<forall>to. Body tx \<noteq> SendTokensBody to" "\<forall>body. Body tx \<noteq> IssueTokensBody body"
      "n \<le> 1" "refund = paid - FeeFailedMaximum"
proof -
  from assms obtain paid where p: "ComputeTransactionFee s tx sz = Ok paid"
    by (auto simp: ComputeSyntheticRefund_def result_simps)
  show thesis
  proof (cases "paid \<le> FeeFailedMaximum")
    case True
    with assms p none show ?thesis by (simp add: ComputeSyntheticRefund_def result_simps)
  next
    case False
    with assms p send issue other show ?thesis
      by (cases "Body tx") (auto simp: ComputeSyntheticRefund_def result_simps not_le split: if_splits)
  qed
qed

section \<open>Properties\<close>

text \<open>
  C19. However many of the synthetic transactions that a transaction produces fail, the fees refunded
  for them and the fee of a failed transaction, which is what was paid or the maximum for failed
  transactions if that is less, together never exceed what was paid. A transfer or an issuance has one
  output for each recipient, any transaction at most 2 ^ 32, and its encoding is not empty.
\<close>
theorem refund_bounded:
  assumes "outputs tx n" "0 < sz" "ComputeSyntheticRefund s tx sz n = Ok refund"
  shows "\<exists>paid. ComputeTransactionFee s tx sz = Ok paid \<and> n * unat refund + unat (min paid FeeFailedMaximum) \<le> unat paid"
  using assms(3)
proof (cases rule: ComputeSyntheticRefund_cases)
  case (none paid)
  then show ?thesis by (simp add: min_def word_le_nat_alt)
next
  case (send paid to)
  then have "200 + 100 * n \<le> unat paid"
    using ComputeTransactionFee_transfer [of s tx sz paid to n] assms(1,2) by (auto simp: outputs_def)
  with send show ?thesis by (simp add: fee_defs min.absorb4)
next
  case (issue paid body)
  then have "n \<le> length (it_To body) + 1" "length (it_To body) \<le> 2 ^ 32"
    using assms(1) by (auto simp: outputs_def split: if_splits)
  moreover from this issue have "200 + 100 * length (it_To body) \<le> unat paid"
    using ComputeTransactionFee_transfer [of s tx sz paid _ "length (it_To body)" body] assms(2) by auto
  ultimately show ?thesis using issue by (simp add: fee_defs min.absorb4)
next
  case (other paid)
  then have "unat (paid - FeeFailedMaximum) + unat FeeFailedMaximum = unat paid"
    by (simp add: unat_sub word_le_nat_alt word_less_nat_alt)
  with other show ?thesis by (cases n) (simp_all add: min.absorb4)
qed

theorem refund_bounded_witness:
  "\<exists>tx paid. ComputeSyntheticRefund None tx 300 2 = Ok 100 \<and> ComputeTransactionFee None tx 300 = Ok paid
    \<and> 2 * 100 + unat (min paid FeeFailedMaximum) \<le> unat paid"
proof -
  let ?to = "\<lparr> tr_Url = None, tr_Amount = 1 \<rparr>"
  let ?tx = "\<lparr> Principal = new_URL \<lparr> Authority := ''alice.acme'', Path := ''/tokens'' \<rparr>, Body = SendTokensBody [?to, ?to],
    tx_GetHash = [] \<rparr>"
  have r: "ComputeSyntheticRefund None ?tx 300 2 = Ok 100" by code_simp
  have "outputs ?tx 2" by (simp add: outputs_def)
  from refund_bounded [OF this _ r] r show ?thesis by fastforce
qed

end
