(* ===== verification/Process.thy ===== *)
theory Process
  imports Tokens Creation Fees
begin

text \<open>
  Processing a transaction that is ready to be executed (\<^verbatim>\<open>src/internal/block/transaction.go\<close>,
  \<^verbatim>\<open>synthetic.go\<close> and \<^verbatim>\<open>network_accounts.go\<close>): loading the state manager, executing, committing,
  checking updates of network accounts, and what a failed transaction refunds. Whether a transaction
  is ready (its signatures, its sequence number) is decided before. Executors that this development
  does not model (writing data, updating a single key, forwarding, anchors) have no value here.
\<close>

section \<open>The node\<close>

text \<open>
  What a node knows besides its database: its partition, whether that is the directory, the oracle
  price, the sliding fees, the encoding of a body and the threshold of the operators for a number of
  keys (both are code outside the model), whether the delivery is a pushed update, and the URL of the
  faucet, which only builds for test networks have.
\<close>
record Node =
  Partition :: string
  IsDirectory :: bool
  Price :: "64 word"
  Schedule :: "Fee list option"
  Marshal :: "CreateToken \<Rightarrow> bytes"
  OperatorThreshold :: "nat \<Rightarrow> 64 word"
  WasProducedByPushedUpdate :: bool
  Faucet :: "URL option"

fun AllowMissingPrincipal :: "Transaction \<Rightarrow> bool" where
  "AllowMissingPrincipal tx = (case Body tx of
       CreateIdentityBody _ \<Rightarrow> IsRootIdentity (Principal tx)
     | CreateLiteTokenAccountBody \<Rightarrow> True
     | SyntheticCreateIdentityBody _ \<Rightarrow> True
     | SyntheticDepositTokensBody _ \<Rightarrow> SyntheticDepositTokens_AllowMissingPrincipal tx
     | SyntheticDepositCreditsBody _ \<Rightarrow> SyntheticDepositCredits_AllowMissingPrincipal tx
     | _ \<Rightarrow> False)"

definition LoadStateManager ::
  "Node \<Rightarrow> Batch \<Rightarrow> Account option \<Rightarrow> Transaction \<Rightarrow> TransactionStatus \<Rightarrow> StateManager result" where
  "LoadStateManager n b account transaction status =
     (let m = NewStateManager (Partition n) (Price n) b account transaction in
      if \<not> IsUser (body_Type (Body transaction)) then Ok m
      else case Initiator status of None \<Rightarrow> Panic ''invalid memory address or nil pointer dereference''
      | Some i \<Rightarrow> (case GetState i b of
            Some (LiteIdentityOf _) \<Rightarrow> Ok m
          | Some (KeyPageOf _) \<Rightarrow> Ok m
          | Some _ \<Rightarrow> Err (Plain ''load signer'')
          | None \<Rightarrow> if LocalTo (Principal transaction) i then Err (Plain ''load signer'')
              else if GetSigner i status = None
              then Err (Plain ''transaction signer set does not include the initiator'')
              else Ok m))"

text \<open>The executor of a transaction type; \<^term>\<open>None\<close> is an executor that is not modelled.\<close>
definition Execute :: "Node \<Rightarrow> Transaction \<Rightarrow> StateManager \<Rightarrow> StateManager result option" where
  "Execute n tx st = (case Body tx of
       SendTokensBody _ \<Rightarrow> Some (SendTokens_Validate tx st)
     | BurnTokensBody _ \<Rightarrow> Some (BurnTokens_Validate tx st)
     | IssueTokensBody _ \<Rightarrow> Some (IssueTokens_Validate tx st)
     | AddCreditsBody _ \<Rightarrow> Some (map_ok fst (AddCredits_Validate tx st))
     | LockAccountBody _ \<Rightarrow> Some (LockAccount_Validate tx st)
     | CreateIdentityBody _ \<Rightarrow> Some (CreateIdentity_Validate tx st)
     | CreateTokenAccountBody _ \<Rightarrow> Some (CreateTokenAccount_Validate (Marshal n) tx st)
     | CreateDataAccountBody _ \<Rightarrow> Some (CreateDataAccount_Validate tx st)
     | CreateTokenBody _ \<Rightarrow> Some (CreateToken_Validate tx st)
     | CreateLiteTokenAccountBody \<Rightarrow> Some (CreateLiteTokenAccount_Validate tx st)
     | CreateKeyPageBody _ \<Rightarrow> Some (CreateKeyPage_Validate tx st)
     | CreateKeyBookBody _ \<Rightarrow> Some (CreateKeyBook_Validate tx st)
     | UpdateKeyPageBody _ \<Rightarrow> Some (UpdateKeyPage_Validate tx st)
     | UpdateAccountAuthBody _ \<Rightarrow> Some (UpdateAccountAuth_Validate tx st)
     | AcmeFaucetBody _ \<Rightarrow> Some (case Faucet n of Some u \<Rightarrow> AcmeFaucet_Validate u tx st
         | None \<Rightarrow> Err (Coded StatusInternalError ''missing executor''))
     | SyntheticCreateIdentityBody _ \<Rightarrow> Some (SyntheticCreateIdentity_Validate tx st)
     | SyntheticDepositTokensBody _ \<Rightarrow> Some (SyntheticDepositTokens_Validate tx st)
     | SyntheticDepositCreditsBody _ \<Rightarrow> Some (SyntheticDepositCredits_Validate tx st)
     | SyntheticBurnTokensBody _ \<Rightarrow> Some (SyntheticBurnTokens_Validate tx st)
     | _ \<Rightarrow> None)"

text \<open>The hook that an executor runs when its transaction failed.\<close>
definition DidFail :: "Transaction \<Rightarrow> ProcessTransactionState \<Rightarrow> ProcessTransactionState result" where
  "DidFail tx state = (case Body tx of
       SyntheticDepositTokensBody _ \<Rightarrow> SyntheticDepositTokens_DidFail tx state
     | SyntheticDepositCreditsBody _ \<Rightarrow> SyntheticDepositCredits_DidFail tx state
     | _ \<Rightarrow> Ok state)"

section \<open>Origins of synthetic transactions\<close>

fun synth_origin :: "TransactionBody \<Rightarrow> SyntheticOrigin option" where
  "synth_origin (SyntheticCreateIdentityBody b) = Some (sci_Origin b)"
| "synth_origin (SyntheticDepositTokensBody b) = Some (sdt_Origin b)"
| "synth_origin (SyntheticDepositCreditsBody b) = Some (sdc_Origin b)"
| "synth_origin (SyntheticBurnTokensBody b) = Some (sbt_Origin b)"
| "synth_origin _ = None"

fun set_origin :: "SyntheticOrigin \<Rightarrow> TransactionBody \<Rightarrow> TransactionBody" where
  "set_origin o' (SyntheticCreateIdentityBody b) = SyntheticCreateIdentityBody (b \<lparr> sci_Origin := o' \<rparr>)"
| "set_origin o' (SyntheticDepositTokensBody b) = SyntheticDepositTokensBody (b \<lparr> sdt_Origin := o' \<rparr>)"
| "set_origin o' (SyntheticDepositCreditsBody b) = SyntheticDepositCreditsBody (b \<lparr> sdc_Origin := o' \<rparr>)"
| "set_origin o' (SyntheticBurnTokensBody b) = SyntheticBurnTokensBody (b \<lparr> sbt_Origin := o' \<rparr>)"
| "set_origin o' b = b"

text \<open>Every body with an origin gets the cause, and the same refund for the initiator of the cause.\<close>
definition setSyntheticOrigin ::
  "Node \<Rightarrow> nat \<Rightarrow> TransactionStatus \<Rightarrow> Transaction \<Rightarrow> (URL option \<times> TransactionBody) list
    \<Rightarrow> (URL option \<times> TransactionBody) list result" where
  "setSyntheticOrigin n sz status from produced =
     (let swos = filter (\<lambda>p. synth_origin (snd p) \<noteq> None) produced in
      if length swos = 0 then Ok produced
      else bind_result (ComputeSyntheticRefund (Schedule n) from sz (length swos)) (\<lambda>refund.
        Ok (map (\<lambda>(u, b). (u, set_origin \<lparr> Cause = Some (WithTxID (Principal from) (tx_GetHash from)),
          so_Initiator = Initiator status, FeeRefund = refund \<rparr> b)) produced)))"

section \<open>Processing\<close>

text \<open>
  Only the directory pushes updates: it queues them on its ledger. The queue is not modelled, but that
  the ledger must be there is; \<^term>\<open>ledger\<close> is what loading it gives.
\<close>
definition pushUpdate :: "Node \<Rightarrow> SystemLedger result \<Rightarrow> unit result" where
  "pushUpdate n ledger =
     (if \<not> IsDirectory n
      then if \<not> WasProducedByPushedUpdate n
        then Err (Coded StatusBadRequest ''cannot be updated directly'') else Ok ()
      else map_ok (\<lambda>_. ()) ledger)"

text \<open>
  The checks on updates of the accounts of the network: \<^term>\<open>u\<close> is the URL of the principal, and
  \<^term>\<open>a\<close> the principal as the executor left it. The checks on written data are not modelled: no
  executor that writes data is.
\<close>
definition processNetworkAccountUpdates :: "Node \<Rightarrow> Transaction \<Rightarrow> URL option \<Rightarrow> Account option
    \<Rightarrow> SystemLedger result \<Rightarrow> unit result" where
  "processNetworkAccountUpdates n tx url a ledger = (case url of None \<Rightarrow> Ok ()
     | Some u \<Rightarrow>
       if \<not> PrefixOf (PartitionUrl (Partition n)) u then Ok ()
       else if IsSystem (body_Type (Body tx)) then Ok ()
       else bind_result (case Body tx of
           UpdateKeyPageBody _ \<Rightarrow>
             if ToLower (Trim_slash (Path u)) = ''operators/1'' then
               (case a of Some (KeyPageOf page) \<Rightarrow>
                  if AcceptThreshold page \<noteq> OperatorThreshold n (length (Keys page))
                  then Err (Coded StatusBadRequest ''incorrect accept threshold'') else Ok ()
                | _ \<Rightarrow> Err (Coded StatusInternalError ''not a key page''))
             else Ok ()
         | UpdateAccountAuthBody _ \<Rightarrow>
             Err (Coded StatusBadRequest ''the authority set of a network account cannot be updated'')
         | _ \<Rightarrow> Ok ()) (\<lambda>_.
       pushUpdate n ledger))"

definition RemovePending :: "Transaction \<Rightarrow> Batch \<Rightarrow> Batch" where
  "RemovePending tx b = (let k = AccountID32 (Principal tx) in
     b \<lparr> pending := (pending b) (k := TxIdSet_Remove (WithTxID (Principal tx) (tx_GetHash tx)) (pending b k)) \<rparr>)"

text \<open>The outcome of a transaction: the database, what was produced, and the error it failed with.\<close>
record Outcome =
  out_batch :: Batch
  out_state :: ProcessTransactionState
  out_error :: "error option"

definition recordFailedTransaction ::
  "Node \<Rightarrow> nat \<Rightarrow> TransactionStatus \<Rightarrow> Transaction \<Rightarrow> error \<Rightarrow> Batch \<Rightarrow> Outcome result" where
  "recordFailedTransaction n sz status tx failure b =
     (let state = (case synth_origin (Body tx) of
            Some so \<Rightarrow> if FeeRefund so > 0
              then DidProduceTxn (so_Initiator so) (SyntheticDepositCreditsBody \<lparr> sdc_Origin = new_origin,
                sdc_Amount = FeeRefund so, AcmeRefundAmount = None, sdc_IsRefund = False \<rparr>) new_state
              else new_state
          | None \<Rightarrow> new_state) in
      bind_result (DidFail tx state) (\<lambda>state.
      let b = RemovePending tx b; out = \<lparr> out_batch = b, out_state = state, out_error = Some failure \<rparr> in
      if Initiator status = None \<or> \<not> IsUser (body_Type (Body tx)) then Ok out
      else bind_result (ComputeTransactionFee (Schedule n) tx sz) (\<lambda>paid.
      if paid \<le> FeeFailedMaximum then Ok out
      else Ok (out \<lparr> out_state := DidProduceTxn (Initiator status) (SyntheticDepositCreditsBody
        \<lparr> sdc_Origin = new_origin, sdc_Amount = paid - FeeFailedMaximum, AcmeRefundAmount = None,
          sdc_IsRefund = False \<rparr>) state \<rparr>))))"

definition recordSuccessfulTransaction :: "Transaction \<Rightarrow> StateManager \<Rightarrow> Outcome" where
  "recordSuccessfulTransaction tx st =
     (let st = AddChainEntry (Principal tx) (tx_GetHash tx) (st \<lparr> batch := RemovePending tx (batch st) \<rparr>)
      in \<lparr> out_batch = batch st, out_state = State st, out_error = None \<rparr>)"

text \<open>
  A transaction that is ready. The changes of the executor are committed to the batch before the
  network account checks, and a failed check does not take them back.
\<close>
definition ProcessTransaction ::
  "Node \<Rightarrow> nat \<Rightarrow> TransactionStatus \<Rightarrow> Transaction \<Rightarrow> Batch \<Rightarrow> Outcome result option" where
  "ProcessTransaction n sz status tx b =
     (let account = GetState (Principal tx) b; failed = recordFailedTransaction n sz status tx in
      if account = None \<and> \<not> AllowMissingPrincipal tx
      then Some (failed (Coded StatusNotFound ''missing principal'') b)
      else case LoadStateManager n b account tx status of
        Err e \<Rightarrow> Some (failed e b)
      | Panic p \<Rightarrow> Some (Panic p)
      | Ok st \<Rightarrow> (case Execute n tx st of
          None \<Rightarrow> None
        | Some (Err e) \<Rightarrow> Some (failed e b)
        | Some (Panic p) \<Rightarrow> Some (Panic p)
        | Some (Ok st) \<Rightarrow>
          (case processNetworkAccountUpdates n tx (map_option GetUrl account) (GetState (Principal tx) (batch st))
              (LoadUrlAs as_SystemLedger (NodeUrl [Ledger] st) st) of
             Err e \<Rightarrow> Some (failed e (batch st))
           | Panic p \<Rightarrow> Some (Panic p)
           | Ok _ \<Rightarrow> Some (Ok (recordSuccessfulTransaction tx st)))))"

end
