(* ===== verification/Supply.thy ===== *)
theory Supply
  imports Process
begin

text \<open>
  Conservation of tokens. Every account has a weight for a token: the balance of a token account,
  minus the issued amount of the issuer, and for ACME what a ledger has burnt; every transaction in
  flight has a weight too. Each executor keeps the sum, with the weight of the transaction it
  executes, and keeps the accounts well-formed.
\<close>

section \<open>Token URLs\<close>

text \<open>
  The URLs that name tokens: nothing but an ASCII authority without a slash and a path that needs no
  escaping.
\<close>
definition token_url :: "URL \<Rightarrow> bool" where
  "token_url u \<longleftrightarrow> UserInfo u = [] \<and> Query u = [] \<and> Fragment u = [] \<and> ascii (Authority u)
     \<and> slash \<notin> set (Authority u) \<and> (\<forall>c \<in> set (Path u). c = slash \<or> path_safe c)"

lemma PathEscape_safe: "\<forall>c \<in> set s. path_safe c \<Longrightarrow> PathEscape s = s"
  by (induction s) (auto simp: PathEscape_def)

lemma format_path_safe:
  "\<forall>c \<in> set p. c = slash \<or> path_safe c \<Longrightarrow> p = [] \<or> hd p = slash \<Longrightarrow> format_path True p = p"
proof (induction "length p" arbitrary: p rule: less_induct)
  case less
  show ?case
  proof (cases "p = []")
    case False
    let ?seg = "takeWhile (\<lambda>c. c \<noteq> slash) (tl p)" and ?rest = "dropWhile (\<lambda>c. c \<noteq> slash) (tl p)"
    have p: "p = slash # tl p" using False less.prems(2) by (cases p) auto
    have tl: "set (tl p) \<subseteq> set p" using False by (cases p) auto
    have "\<forall>c \<in> set ?seg. path_safe c"
      using less.prems(1) tl by (auto dest: set_takeWhileD)
    then have s: "PathEscape ?seg = ?seg" by (rule PathEscape_safe)
    have "length ?rest < length p" using False length_dropWhile_le [of "\<lambda>c. c \<noteq> slash" "tl p"] by (cases p) auto
    moreover have "\<forall>c \<in> set ?rest. c = slash \<or> path_safe c"
      using less.prems(1) tl by (auto dest: set_dropWhileD)
    moreover have "?rest = [] \<or> hd ?rest = slash" using hd_dropWhile [of "\<lambda>c. c \<noteq> slash" "tl p"] by blast
    ultimately have r: "format_path True ?rest = ?rest" by (rule less.hyps)
    have "format_path True p = slash # ?seg @ ?rest"
      using False s r by (subst format_path.simps) (simp add: Let_def)
    also have "\<dots> = p" using p by simp
    finally show ?thesis .
  qed (simp add: format_path.simps)
qed

lemma set_Trim_slash: "set (Trim_slash s) \<subseteq> set s"
proof -
  have d: "set (dropWhile P xs) \<subseteq> set xs" for P and xs :: string by (auto dest: set_dropWhileD)
  show ?thesis
    using d [of "\<lambda>c. c = slash" "rev (dropWhile (\<lambda>c. c = slash) s)"] d [of "\<lambda>c. c = slash" s]
    by (auto simp: Trim_slash_def)
qed

lemma normalizePath_shape: "normalizePath s = [] \<or> hd (normalizePath s) = slash"
  by (simp add: normalizePath_def Let_def)

lemma normalizePath_safe:
  "\<forall>c \<in> set s. c = slash \<or> path_safe c \<Longrightarrow> \<forall>c \<in> set (normalizePath s). c = slash \<or> path_safe c"
  using set_Trim_slash [of s] by (auto simp: normalizePath_def Let_def)

lemma token_url_String:
  assumes "token_url u"
  shows "String u = ''acc://'' @ Authority u @ normalizePath (Path u)"
  using assms format_path_safe [OF normalizePath_safe normalizePath_shape, of "Path u"]
  by (simp add: token_url_def String_def format_def)

lemma lower_split:
  assumes "slash \<notin> set a" "slash \<notin> set b" "p = [] \<or> hd p = slash" "q = [] \<or> hd q = slash"
    "ToLower (a @ p) = ToLower (b @ q)"
  shows "ToLower a = ToLower b \<and> ToLower p = ToLower q"
proof -
  have sl: "of_char slash < (65 :: nat)" by simp
  have h: "ToLower p = [] \<or> hd (ToLower p) = slash" if "p = [] \<or> hd p = slash" for p
    using that lower_char_special [OF sl, of slash] by (cases p) auto
  have t: "takeWhile (\<lambda>c. c \<noteq> slash) (ToLower (a @ p)) = ToLower a \<and>
      dropWhile (\<lambda>c. c \<noteq> slash) (ToLower (a @ p)) = ToLower p"
    if "slash \<notin> set a" "p = [] \<or> hd p = slash" for a p
  proof -
    have "\<forall>c \<in> set (ToLower a). c \<noteq> slash" using that(1) in_ToLower [OF sl] by auto
    moreover have "takeWhile (\<lambda>c. c \<noteq> slash) (ToLower p) = [] \<and> dropWhile (\<lambda>c. c \<noteq> slash) (ToLower p) = ToLower p"
      using h [OF that(2)] by (cases "ToLower p") auto
    ultimately show ?thesis by (simp add: takeWhile_append2 dropWhile_append2)
  qed
  note p = t [OF assms(1,3), unfolded assms(5)] and q = t [OF assms(2,4)]
  show ?thesis
    by (rule conjI [OF trans [OF conjunct1 [OF p, symmetric] conjunct1 [OF q]]
          trans [OF conjunct2 [OF p, symmetric] conjunct2 [OF q]]])
qed

lemma token_url_key:
  assumes "token_url u" "token_url v" "URL_Equal u v"
  shows "AccountID32 u = AccountID32 v"
proof -
  have "ToLower (Authority u @ normalizePath (Path u)) = ToLower (Authority v @ normalizePath (Path v))"
    using assms(3) by (simp add: URL_Equal_def EqualFold_def token_url_String [OF assms(1)] token_url_String [OF assms(2)])
  then have "ToLower (Authority u) = ToLower (Authority v)" "ToLower (normalizePath (Path u)) = ToLower (normalizePath (Path v))"
    using lower_split [OF _ _ normalizePath_shape normalizePath_shape] assms(1,2) by (auto simp: token_url_def)
  then show ?thesis using ToLower_Hostname [of u v] by (simp add: AccountID32_def url_id_def)
qed

section \<open>Weights\<close>

abbreviation acme :: bytes where "acme \<equiv> AccountID32 AcmeUrl"

fun weight :: "bytes \<Rightarrow> Account \<Rightarrow> int" where
  "weight k (TokenAccountOf a) = (if AccountID32 (ta_TokenUrl a) = k then ta_Balance a else 0)"
| "weight k (LiteTokenAccountOf a) = (if AccountID32 (lta_TokenUrl a) = k then lta_Balance a else 0)"
| "weight k (TokenIssuerOf a) = (if AccountID32 (ti_Url a) = k then - Issued a else 0)"
| "weight k (SystemLedgerOf l) = (if k = acme then AcmeBurnt l else 0)"
| "weight k _ = 0"

text \<open>The weight of a transaction on its way to a principal.\<close>
fun in_flight :: "bytes \<Rightarrow> URL option \<times> TransactionBody \<Rightarrow> int" where
  "in_flight k (p, SyntheticDepositTokensBody b) = (if AccountID32 (Token b) = k then sdt_Amount b else 0)"
| "in_flight k (p, SyntheticBurnTokensBody b) = (if map_option AccountID32 p = Some k then sbt_Amount b else 0)"
| "in_flight k (p, SyntheticDepositCreditsBody b) =
     (if k = acme then case AcmeRefundAmount b of None \<Rightarrow> 0 | Some n \<Rightarrow> n else 0)"
| "in_flight k (p, _) = 0"

definition total_weight :: "bytes \<Rightarrow> (bytes \<Rightarrow> Account option) \<Rightarrow> int" where
  "total_weight k m = (\<Sum>x \<in> dom m. weight k (the (m x)))"

definition flight_weight :: "bytes \<Rightarrow> (URL option \<times> TransactionBody) list \<Rightarrow> int" where
  "flight_weight k ps = sum_list (map (in_flight k) ps)"

lemma flight_weight_simps [simp]:
  "flight_weight k [] = 0" "flight_weight k (p # ps) = in_flight k p + flight_weight k ps"
  "flight_weight k (ps @ qs) = flight_weight k ps + flight_weight k qs"
  by (simp_all add: flight_weight_def)

lemma total_weight_upd:
  assumes "finite (dom m)"
  shows "total_weight k (m(x \<mapsto> a)) = total_weight k m + weight k a - (case m x of None \<Rightarrow> 0 | Some b \<Rightarrow> weight k b)"
proof -
  have "total_weight k (m(x \<mapsto> a)) = weight k a + (\<Sum>y \<in> dom m - {x}. weight k (the ((m(x \<mapsto> a)) y)))"
    using assms by (simp add: total_weight_def sum.insert_remove)
  also have "(\<Sum>y \<in> dom m - {x}. weight k (the ((m(x \<mapsto> a)) y))) = (\<Sum>y \<in> dom m - {x}. weight k (the (m y)))"
    by (rule sum.cong) auto
  also have "\<dots> = total_weight k m - (case m x of None \<Rightarrow> 0 | Some b \<Rightarrow> weight k b)"
  proof (cases "m x")
    case None
    then have "dom m - {x} = dom m" by auto
    then show ?thesis using None by (simp add: total_weight_def)
  next
    case (Some b)
    then have "x \<in> dom m" by auto
    then show ?thesis using assms Some by (simp add: total_weight_def sum.remove [of "dom m" x])
  qed
  finally show ?thesis by linarith
qed

section \<open>Well-formed databases\<close>

fun acct_ok :: "Account \<Rightarrow> bool" where
  "acct_ok (TokenAccountOf a) \<longleftrightarrow> token_url (ta_TokenUrl a) \<and> 0 \<le> ta_Balance a"
| "acct_ok (LiteTokenAccountOf a) \<longleftrightarrow> token_url (lta_TokenUrl a) \<and> 0 \<le> lta_Balance a"
| "acct_ok (TokenIssuerOf a) \<longleftrightarrow> token_url (ti_Url a) \<and> (\<forall>l. SupplyLimit a = Some l \<longrightarrow> Issued a \<le> l)"
| "acct_ok _ \<longleftrightarrow> True"

text \<open>
  Every account is kept under the ID of its own URL, token balances are not negative, no issuer is
  over its limit, and every full account has an authority.
\<close>
definition store_ok :: "(bytes \<Rightarrow> Account option) \<Rightarrow> bool" where
  "store_ok m \<longleftrightarrow> finite (dom m) \<and>
     (\<forall>x a. m x = Some a \<longrightarrow> AccountID32 (GetUrl a) = x \<and> acct_ok a \<and> storable a)"

lemma store_okD: "store_ok m \<Longrightarrow> m x = Some a \<Longrightarrow> AccountID32 (GetUrl a) = x \<and> acct_ok a \<and> storable a"
  by (simp add: store_ok_def)

lemma store_ok_upd:
  "store_ok m \<Longrightarrow> acct_ok a \<Longrightarrow> storable a \<Longrightarrow> store_ok (m(AccountID32 (GetUrl a) \<mapsto> a))"
  by (simp add: store_ok_def)

lemma store_ok_stored: "store_ok m \<Longrightarrow> \<forall>a \<in> set as. acct_ok a \<and> storable a \<Longrightarrow> store_ok (stored as m)"
  by (induction as arbitrary: m) (simp_all add: store_ok_upd)

lemma total_weight_stored_zero:
  assumes "finite (dom m)" "\<forall>a \<in> set as. weight k a = 0"
    "\<forall>a \<in> set as. (case m (AccountID32 (GetUrl a)) of None \<Rightarrow> 0 | Some b \<Rightarrow> weight k b) = 0"
  shows "total_weight k (stored as m) = total_weight k m"
  using assms
proof (induction as arbitrary: m)
  case (Cons a as)
  let ?m = "m(AccountID32 (GetUrl a) \<mapsto> a)"
  have f: "finite (dom ?m)" and w: "\<forall>b \<in> set as. weight k b = 0" using Cons.prems(1,2) by simp_all
  have z: "\<forall>b \<in> set as. (case ?m (AccountID32 (GetUrl b)) of None \<Rightarrow> 0 | Some c \<Rightarrow> weight k c) = 0"
    using Cons.prems(2,3) by simp
  have "total_weight k (stored as ?m) = total_weight k ?m" by (rule Cons.IH [OF f w z])
  also have "\<dots> = total_weight k m"
    using Cons.prems by (simp add: total_weight_upd)
  finally show ?case by simp
qed simp

text \<open>What an executor may produce for the transaction it executes.\<close>
fun produced_ok :: "URL \<Rightarrow> URL option \<times> TransactionBody \<Rightarrow> bool" where
  "produced_ok u (p, SyntheticDepositTokensBody d) \<longleftrightarrow> token_url (Token d) \<and> 0 \<le> sdt_Amount d
     \<and> (IsIssuer d \<longrightarrow> AccountID32 (Token d) = AccountID32 u)"
| "produced_ok u (p, SyntheticBurnTokensBody d) \<longleftrightarrow> 0 \<le> sbt_Amount d"
| "produced_ok u (p, SyntheticDepositCreditsBody d) \<longleftrightarrow> (\<forall>n. AcmeRefundAmount d = Some n \<longrightarrow> 0 \<le> n)"
| "produced_ok u (p, SyntheticCreateIdentityBody d) \<longleftrightarrow>
     (\<forall>a \<in> set (sci_Accounts d). acct_ok a \<and> (\<forall>k. weight k a = 0))"
| "produced_ok u (p, _) \<longleftrightarrow> False"

definition conserves :: "Transaction \<Rightarrow> StateManager \<Rightarrow> StateManager \<Rightarrow> bool" where
  "conserves tx st st' \<longleftrightarrow> store_ok (Main (batch st'))
     \<and> (\<forall>p \<in> set (ProducedTxns (State st')). produced_ok (Principal tx) p)
     \<and> (\<forall>k. total_weight k (Main (batch st')) + flight_weight k (ProducedTxns (State st'))
          = total_weight k (Main (batch st)) + in_flight k (Some (Principal tx), Body tx))"

text \<open>The state manager with which a transaction is executed.\<close>
definition loaded :: "Transaction \<Rightarrow> StateManager \<Rightarrow> bool" where
  "loaded tx st \<longleftrightarrow> \<not> Pretend st \<and> store_ok (Main (batch st)) \<and> ProducedTxns (State st) = []
     \<and> Origin st = Main (batch st) (AccountID32 (Principal tx)) \<and> OriginUrl st = Principal tx"

lemma loadedD:
  assumes "loaded tx st"
  shows "\<not> Pretend st" "store_ok (Main (batch st))" "finite (dom (Main (batch st)))" "ProducedTxns (State st) = []"
    "Origin st = Some a \<Longrightarrow> Main (batch st) (AccountID32 (GetUrl a)) = Some a"
    "Origin st = Some a \<Longrightarrow> AccountID32 (GetUrl a) = AccountID32 (Principal tx)"
    "Origin st = Some a \<Longrightarrow> acct_ok a"
  using assms store_okD [of "Main (batch st)" "AccountID32 (Principal tx)" a]
  by (auto simp: loaded_def store_ok_def)

text \<open>Storing an account, whether or not there is one under its URL.\<close>
lemma store_one:
  assumes "createOrUpdate isUpdate [a'] st = Ok st'" "\<not> Pretend st" "store_ok (Main (batch st))" "acct_ok a'"
  shows "store_ok (Main (batch st'))" "same_frame st st'" "ProducedTxns (State st') = ProducedTxns (State st)"
    "total_weight k (Main (batch st')) = total_weight k (Main (batch st)) + weight k a'
      - (case Main (batch st) (AccountID32 (GetUrl a')) of None \<Rightarrow> 0 | Some a \<Rightarrow> weight k a)"
    "Main (batch st') = (Main (batch st))(AccountID32 (GetUrl a') \<mapsto> a')"
proof -
  have u: "Main (batch st') = stored [a'] (Main (batch st)) \<and> same_frame st st' \<and>
      ProducedTxns (State st') = ProducedTxns (State st) \<and> (\<forall>a \<in> set [a']. storable a)"
    by (rule createOrUpdate_ok [OF assms(1,2)])
  then show m: "Main (batch st') = (Main (batch st))(AccountID32 (GetUrl a') \<mapsto> a')" by (simp only: stored_simps)
  show "store_ok (Main (batch st'))" unfolding m using u assms(3,4) by (intro store_ok_upd) simp_all
  show "same_frame st st'" "ProducedTxns (State st') = ProducedTxns (State st)" using u by blast+
  have "finite (dom (Main (batch st)))" using assms(3) by (simp add: store_ok_def)
  from total_weight_upd [OF this]
  show "total_weight k (Main (batch st')) = total_weight k (Main (batch st)) + weight k a'
      - (case Main (batch st) (AccountID32 (GetUrl a')) of None \<Rightarrow> 0 | Some a \<Rightarrow> weight k a)"
    unfolding m .
qed

lemmas Update_store = store_one [of True, folded Update_accounts_def]
lemmas Create_store = store_one [of False, folded Create_def]

lemma Update_one:
  assumes "Update_accounts [a'] st = Ok st'" "\<not> Pretend st" "store_ok (Main (batch st))"
    "Main (batch st) (AccountID32 (GetUrl a')) = Some a" "acct_ok a'"
  shows "store_ok (Main (batch st'))" "same_frame st st'" "ProducedTxns (State st') = ProducedTxns (State st)"
    "total_weight k (Main (batch st')) = total_weight k (Main (batch st)) + weight k a' - weight k a"
  using Update_store [OF assms(1-3,5)] assms(4) by simp_all

section \<open>Token accounts as one type\<close>

lemma as_tokens_Some: "as_tokens a = Some t \<longleftrightarrow> a = of_tokens t"
  by (cases a; cases t) auto

lemma DebitTokens_ok:
  assumes "DebitTokens (Some n) t = (t', True)"
  shows "n \<le> TokenBalance t" "GetUrl (of_tokens t') = GetUrl (of_tokens t)" "GetTokenUrl t' = GetTokenUrl t"
    "weight k (of_tokens t') = weight k (of_tokens t) - (if AccountID32 (GetTokenUrl t) = k then n else 0)"
    "acct_ok (of_tokens t) \<Longrightarrow> acct_ok (of_tokens t')" "GetLockHeight t' = GetLockHeight t"
  using assms
  by (cases t; auto simp: TokenAccount_DebitTokens_def TokenAccount_CanDebitTokens_def
      LiteTokenAccount_DebitTokens_def LiteTokenAccount_CanDebitTokens_def split: if_splits)+

lemma CreditTokens_ok:
  assumes "CreditTokens (Some n) t = (t', True)"
  shows "0 \<le> n" "GetUrl (of_tokens t') = GetUrl (of_tokens t)" "GetTokenUrl t' = GetTokenUrl t"
    "weight k (of_tokens t') = weight k (of_tokens t) + (if AccountID32 (GetTokenUrl t) = k then n else 0)"
    "acct_ok (of_tokens t) \<Longrightarrow> acct_ok (of_tokens t')"
  using assms
  by (cases t; auto simp: TokenAccount_CreditTokens_def LiteTokenAccount_CreditTokens_def split: if_splits)+

lemma acct_ok_token: "acct_ok (of_tokens t) \<Longrightarrow> token_url (GetTokenUrl t)"
  by (cases t) auto

lemma total_amount_ok:
  "total_amount ts acc = Ok n \<Longrightarrow> n = acc + sum_list (map tr_Amount ts) \<and> (\<forall>t \<in> set ts. 0 \<le> tr_Amount t)"
proof (induction ts arbitrary: acc)
  case (Cons t ts)
  then have "0 \<le> tr_Amount t" "total_amount ts (acc + tr_Amount t) = Ok n" by (auto split: if_splits)
  with Cons.IH [OF this(2)] show ?case by simp
qed simp

lemma Submit_ok:
  "Submit (Some u) b st = Ok st' \<longleftrightarrow>
    \<not> IsSynthetic (txType st) \<and> st' = st \<lparr> State := DidProduceTxn (Some u) b (State st) \<rparr>"
  by (auto simp: Submit_def)

lemma send_outputs_ok:
  "send_outputs token ts m st = Ok st' \<Longrightarrow> batch st' = batch st \<and> same_frame st st' \<and>
    ProducedTxns (State st') = ProducedTxns (State st) @ map (\<lambda>t. (tr_Url t, SyntheticDepositTokensBody
      \<lparr> sdt_Origin = new_origin, Token = token, sdt_Amount = tr_Amount t, IsIssuer = False, sdt_IsRefund = False \<rparr>)) ts"
proof (induction ts arbitrary: m st)
  case (Cons t ts)
  then obtain u m' where u: "tr_Url t = Some u" and
    r: "send_outputs token ts m' (st \<lparr> State := DidProduceTxn (Some u) (SyntheticDepositTokensBody
      \<lparr> sdt_Origin = new_origin, Token = token, sdt_Amount = tr_Amount t, IsIssuer = False, sdt_IsRefund = False \<rparr>) (State st) \<rparr>) = Ok st'"
    by (auto simp: Let_def result_simps Submit_ok split: option.splits if_splits)
  from Cons.IH [OF r] u show ?case by (simp add: DidProduceTxn_def same_frame_def)
qed simp

lemma issue_outputs_ok:
  "issue_outputs token ts m st = Ok st' \<Longrightarrow> batch st' = batch st \<and> same_frame st st' \<and>
    ProducedTxns (State st') = ProducedTxns (State st) @ map (\<lambda>t. (tr_Url t, SyntheticDepositTokensBody
      \<lparr> sdt_Origin = new_origin, Token = token, sdt_Amount = tr_Amount t, IsIssuer = True, sdt_IsRefund = False \<rparr>)) ts"
proof (induction ts arbitrary: m st)
  case (Cons t ts)
  then obtain u m' where u: "tr_Url t = Some u" and
    r: "issue_outputs token ts m' (st \<lparr> State := DidProduceTxn (Some u) (SyntheticDepositTokensBody
      \<lparr> sdt_Origin = new_origin, Token = token, sdt_Amount = tr_Amount t, IsIssuer = True, sdt_IsRefund = False \<rparr>) (State st) \<rparr>) = Ok st'"
    by (auto simp: Let_def result_simps Submit_ok split: option.splits if_splits)
  from Cons.IH [OF r] u show ?case by (simp add: DidProduceTxn_def same_frame_def)
qed simp

text \<open>The weight of the deposits for a list of recipients.\<close>
lemma deposits_weight:
  "flight_weight k (map (\<lambda>t. (tr_Url t, SyntheticDepositTokensBody
      \<lparr> sdt_Origin = og, Token = token, sdt_Amount = tr_Amount t, IsIssuer = i, sdt_IsRefund = r \<rparr>)) ts)
    = (if AccountID32 token = k then sum_list (map tr_Amount ts) else 0)"
  by (induction ts) auto

section \<open>Every executor conserves tokens\<close>

lemma SendTokens_cases:
  assumes "SendTokens_Validate tx st = Ok st'"
  obtains to t n t' st1 where "Body tx = SendTokensBody to" "Origin st = Some (of_tokens t)"
    "total_amount to 0 = Ok n" "DebitTokens (Some n) t = (t', True)" "Update_accounts [of_tokens t'] st = Ok st1"
    "send_outputs (GetTokenUrl t') to [] st1 = Ok st'"
    "\<And>h. GetLockHeight t' = Some h \<Longrightarrow> h = 0 \<or>
       (\<exists>i. LoadIndexEntryFromEnd (MajorBlockChain (batch st')) 1 = Ok (Some i) \<and> h \<le> i)"
proof -
  from assms obtain to o' t where b: "Body tx = SendTokensBody to" and o': "Origin st = Some o'" "as_tokens o' = Some t"
    by (auto simp: SendTokens_Validate_def split: TransactionBody.splits option.splits)
  obtain t' ok where d: "\<And>n. total_amount to 0 = Ok n \<Longrightarrow> DebitTokens (Some n) t = (t', ok)"
    by (cases "total_amount to 0") (auto intro: prod.exhaust)
  from assms b o' d obtain n st1 st2 where r: "total_amount to 0 = Ok n" "ok" "Update_accounts [of_tokens t'] st = Ok st1"
      "send_outputs (GetTokenUrl t') to [] st1 = Ok st2"
    and l: "(case GetLockHeight t' of None \<Rightarrow> Ok st2
        | Some h \<Rightarrow> if h = 0 then Ok st2
            else bind_result (LoadIndexEntryFromEnd (MajorBlockChain (batch st2)) 1) (\<lambda>entry.
              case entry of None \<Rightarrow> Err (Coded StatusNotAllowed ''account is locked'')
              | Some i \<Rightarrow> if i < h then Err (Coded StatusNotAllowed ''account is locked'') else Ok st2)) = Ok st'"
    by (auto simp: SendTokens_Validate_def result_simps split: if_splits)
  from l have "st' = st2" by (auto simp: result_simps split: option.splits if_splits)
  moreover from l have "h = 0 \<or> (\<exists>i. LoadIndexEntryFromEnd (MajorBlockChain (batch st')) 1 = Ok (Some i) \<and> h \<le> i)"
    if "GetLockHeight t' = Some h" for h
    using that calculation by (auto simp: result_simps split: option.splits if_splits)
  ultimately show ?thesis using that [of to t n t' st1] b o' d r by (simp add: as_tokens_Some)
qed

lemma SendTokens_conserves:
  assumes "SendTokens_Validate tx st = Ok st'" "loaded tx st"
  shows "conserves tx st st'"
  using assms(1)
proof (cases rule: SendTokens_cases)
  case (1 to t n t' st1)
  note l = loadedD [OF assms(2)] and d = DebitTokens_ok [OF 1(4)]
  have u: "Main (batch st) (AccountID32 (GetUrl (of_tokens t'))) = Some (of_tokens t)"
    using l(5) 1(2) d(2) by simp
  have ok: "acct_ok (of_tokens t)" "acct_ok (of_tokens t')" using l(7) 1(2) d(5) by simp_all
  note up = Update_one [OF 1(5) l(1,2) u ok(2)]
  note s = send_outputs_ok [OF 1(6)] and n = total_amount_ok [OF 1(3)]
  have "total_weight k (Main (batch st')) + flight_weight k (ProducedTxns (State st')) = total_weight k (Main (batch st))" for k
    using up(3) up(4) [of k] s n l(4) d(3) d(4) [of k] by (simp add: deposits_weight)
  moreover have "\<forall>p \<in> set (ProducedTxns (State st')). produced_ok (Principal tx) p"
    using s up(3) l(4) n acct_ok_token [OF ok(2)] by simp
  ultimately show ?thesis using up(1) s 1(1) by (simp add: conserves_def)
qed

lemma BurnTokens_conserves:
  assumes "BurnTokens_Validate tx st = Ok st'" "loaded tx st"
  shows "conserves tx st st'"
proof -
  from assms(1) obtain n t t' where b: "Body tx = BurnTokensBody n" and o': "Origin st = Some (of_tokens t)"
      and n: "0 \<le> n" and d: "DebitTokens (Some n) t = (t', True)"
      and u: "Update_accounts [of_tokens t'] (st \<lparr> State := DidProduceTxn (Some (GetTokenUrl t')) (SyntheticBurnTokensBody
               \<lparr> sbt_Origin = new_origin, sbt_Amount = n, sbt_IsRefund = False \<rparr>) (State st) \<rparr>) = Ok st'"
    by (auto simp: BurnTokens_Validate_def result_simps as_tokens_Some Submit_ok
        split: TransactionBody.splits option.splits if_splits prod.splits)
  note l = loadedD [OF assms(2)] and d' = DebitTokens_ok [OF d]
  have "Main (batch st) (AccountID32 (GetUrl (of_tokens t'))) = Some (of_tokens t)" "acct_ok (of_tokens t')"
    using l(5,7) o' d'(2,5) by simp_all
  note up = Update_one [OF u, simplified, OF l(1,2) this]
  show ?thesis using up(1,3,4) l(4) n b d'(3,4) by (simp add: conserves_def DidProduceTxn_def)
qed

lemma IssueTokens_conserves:
  assumes "IssueTokens_Validate tx st = Ok st'" "loaded tx st"
  shows "conserves tx st st'"
proof -
  from assms(1) obtain body i where b: "Body tx = IssueTokensBody body" and o': "Origin st = Some (TokenIssuerOf i)"
    by (auto simp: IssueTokens_Validate_def split: TransactionBody.splits option.splits Account.splits)
  define rs where "rs = (if Recipient body \<noteq> None
    then \<lparr> tr_Url = Recipient body, tr_Amount = it_Amount body \<rparr> # it_To body else it_To body)"
  have "IssueTokens_Validate tx st =
      (if list_ex (\<lambda>t. tr_Url t = None) rs then Err (Coded StatusBadRequest ''recipient URL is missing'')
       else bind_result (total_amount rs 0) (\<lambda>amount.
        let (issuer, ok) = Issue amount i in
        if \<not> ok then Err (Plain ''cannot exceed supply limit'')
        else bind_result (Update_accounts [TokenIssuerOf issuer] st)
               (\<lambda>st. issue_outputs (ti_Url issuer) rs [] st)))"
    by (simp only: IssueTokens_Validate_def b o' rs_def Let_def TransactionBody.case option.case Account.case)
  with assms(1) obtain n st1 where n: "total_amount rs 0 = Ok n" and lim: "snd (Issue n i)"
      and u: "Update_accounts [TokenIssuerOf (fst (Issue n i))] st = Ok st1"
      and s: "issue_outputs (ti_Url (fst (Issue n i))) rs [] st1 = Ok st'"
    by (auto simp: result_simps case_prod_unfold Let_def split: if_splits)
  note l = loadedD [OF assms(2)]
  have i: "fst (Issue m i) = i \<lparr> Issued := Issued i + m \<rparr>" for m by (simp add: Issue_def Let_def)
  have "Main (batch st) (AccountID32 (GetUrl (TokenIssuerOf (fst (Issue n i))))) = Some (TokenIssuerOf i)"
    using l(5) o' by (simp add: i)
  moreover have ok: "token_url (ti_Url i)" "acct_ok (TokenIssuerOf (fst (Issue n i)))"
    using l(7) [OF o'] lim by (auto simp: Issue_def Let_def)
  ultimately have up: "store_ok (Main (batch st1))" "ProducedTxns (State st1) = ProducedTxns (State st)"
      "total_weight k (Main (batch st1)) = total_weight k (Main (batch st)) + weight k (TokenIssuerOf (fst (Issue n i))) - weight k (TokenIssuerOf i)" for k
    using Update_one [OF u l(1,2)] by blast+
  note s' = issue_outputs_ok [OF s] and n' = total_amount_ok [OF n]
  have "total_weight k (Main (batch st')) + flight_weight k (ProducedTxns (State st')) = total_weight k (Main (batch st))" for k
    using up(2) up(3) [of k] s' n' l(4) by (simp add: deposits_weight i)
  moreover have "\<forall>p \<in> set (ProducedTxns (State st')). produced_ok (Principal tx) p"
    using s' up(2) l(4) n' ok(1) l(6) [OF o'] by (simp add: i)
  ultimately show ?thesis using up(1) s' b by (simp add: conserves_def)
qed

lemma LockAccount_conserves:
  assumes "LockAccount_Validate tx st = Ok st'" "loaded tx st"
  shows "conserves tx st st'"
proof -
  from assms(1) obtain h a where b: "Body tx = LockAccountBody h" and o': "Origin st = Some (LiteTokenAccountOf a)"
      and u: "Update_accounts [LiteTokenAccountOf (a \<lparr> LockHeight := h \<rparr>)] st = Ok st'"
    by (auto simp: LockAccount_Validate_def SetLockHeight_def result_simps
        split: TransactionBody.splits option.splits Account.splits if_splits)
  note l = loadedD [OF assms(2)]
  have "Main (batch st) (AccountID32 (GetUrl (LiteTokenAccountOf (a \<lparr> LockHeight := h \<rparr>)))) = Some (LiteTokenAccountOf a)"
    "acct_ok (LiteTokenAccountOf (a \<lparr> LockHeight := h \<rparr>))"
    using l(5,7) [OF o'] by simp_all
  note up = Update_one [OF u l(1,2) this]
  show ?thesis using up(1,3,4) l(4) b by (simp add: conserves_def)
qed

lemma SyntheticBurnTokens_conserves:
  assumes "SyntheticBurnTokens_Validate tx st = Ok st'" "loaded tx st"
  shows "conserves tx st st'"
proof -
  from assms(1) obtain body i where b: "Body tx = SyntheticBurnTokensBody body" and o': "Origin st = Some (TokenIssuerOf i)"
      and n: "0 \<le> sbt_Amount body" and u: "Update_accounts [TokenIssuerOf (i \<lparr> Issued := Issued i - sbt_Amount body \<rparr>)] st = Ok st'"
    by (auto simp: SyntheticBurnTokens_Validate_def split: TransactionBody.splits option.splits Account.splits if_splits)
  note l = loadedD [OF assms(2)]
  have "Main (batch st) (AccountID32 (GetUrl (TokenIssuerOf (i \<lparr> Issued := Issued i - sbt_Amount body \<rparr>)))) = Some (TokenIssuerOf i)"
    "acct_ok (TokenIssuerOf (i \<lparr> Issued := Issued i - sbt_Amount body \<rparr>))"
    using l(5,7) [OF o'] n by fastforce+
  note up = Update_one [OF u l(1,2) this]
  show ?thesis using up(1,3,4) l(4) l(6) [OF o'] b by (simp add: conserves_def)
qed

lemma token_url_Acme: "token_url AcmeUrl"
  by code_simp

lemma LoadUrlAs_ledger:
  "LoadUrlAs as_SystemLedger u st = Ok l \<Longrightarrow> Main (batch st) (AccountID32 u) = Some (SystemLedgerOf l)"
  by (auto simp: LoadUrlAs_def LoadUrl_def GetState_def result_simps split: option.splits Account.splits)

lemma AddCredits_conserves:
  assumes "AddCredits_Validate tx st = Ok (st', res)" "loaded tx st"
  shows "conserves tx st st'"
proof -
  from assms(1) obtain body r where b: "Body tx = AddCreditsBody body" "ac_Recipient body = Some r"
    by (auto simp: AddCredits_Validate_def split: TransactionBody.splits option.splits)
  define produced where "produced = (\<lambda>c m. SyntheticDepositCreditsBody \<lparr> sdc_Origin = new_origin, sdc_Amount = big_Uint64 c,
      AcmeRefundAmount = (if ac_Amount body > m then Some (ac_Amount body - m) else None), sdc_IsRefund = False \<rparr>)"
  define st1 where "st1 = (\<lambda>c m. st \<lparr> State := DidProduceTxn (Some (credit_recipient r)) (produced c m) (State st) \<rparr>)"
  have fold: "SyntheticDepositCreditsBody \<lparr> sdc_Origin = new_origin, sdc_Amount = big_Uint64 c,
      AcmeRefundAmount = (if ac_Amount body > m then Some (ac_Amount body - m) else None), sdc_IsRefund = False \<rparr> = produced c m"
    "st \<lparr> State := DidProduceTxn (Some (credit_recipient r)) (produced c m) (State st) \<rparr> = st1 c m" for c m
    by (simp_all add: produced_def st1_def)
  from assms(1) b obtain t where o': "Option.bind (Origin st) as_tokens = Some t"
    by (cases "Option.bind (Origin st) as_tokens") (auto simp: AddCredits_Validate_def result_simps split: if_splits)
  obtain t' ok where d: "DebitTokens (Some (ac_Amount body)) t = (t', ok)" by fastforce
  have t: "Origin st = Some (of_tokens t)" using o' by (auto simp: bind_eq_Some_conv as_tokens_Some)
  from assms(1) b o' d obtain m c l where m: "m \<le> ac_Amount body" and ok and acme: "URL_Equal AcmeUrl (GetTokenUrl t)"
      and l: "LoadUrlAs as_SystemLedger (NodeUrl [Ledger] (st1 c m)) (st1 c m) = Ok l"
      and u: "Update_accounts [of_tokens t', SystemLedgerOf (l \<lparr> AcmeBurnt := AcmeBurnt l + m \<rparr>)] (st1 c m) = Ok st'"
    by (auto simp: AddCredits_Validate_def result_simps Submit_ok fold map_ok_Ok if_Err_Ok not_less split del: if_split)
  note ld = loadedD [OF assms(2)] and d = DebitTokens_ok [OF d [unfolded eqTrueI [OF \<open>ok\<close>]]]
  let ?M = "Main (batch st)" and ?l = "SystemLedgerOf (l \<lparr> AcmeBurnt := AcmeBurnt l + m \<rparr>)"
  have ot: "?M (AccountID32 (GetUrl (of_tokens t'))) = Some (of_tokens t)" and ok: "acct_ok (of_tokens t')" "acct_ok (of_tokens t)"
    using ld(5,7) [OF t] d(2,5) by simp_all
  have ol: "?M (AccountID32 (GetUrl ?l)) = Some (SystemLedgerOf l)"
  proof -
    have "?M (AccountID32 (NodeUrl [Ledger] (st1 c m))) = Some (SystemLedgerOf l)"
      using LoadUrlAs_ledger [OF l] by (simp add: st1_def)
    with store_okD [OF ld(2) this] show ?thesis by simp
  qed
  have ne: "AccountID32 (GetUrl ?l) \<noteq> AccountID32 (GetUrl (of_tokens t'))"
    using ot ol by (cases t) auto
  have up: "Main (batch st') = ?M(AccountID32 (GetUrl (of_tokens t')) \<mapsto> of_tokens t', AccountID32 (GetUrl ?l) \<mapsto> ?l)"
    "ProducedTxns (State st') = [(Some (credit_recipient r), produced c m)]"
    "storable (of_tokens t')" "storable ?l"
    using Update_ok [OF u] ld(1,4) by (simp_all add: st1_def DidProduceTxn_def)
  have s: "store_ok (Main (batch st'))"
    unfolding up(1) using ld(2) ok up(3,4) by (intro store_ok_upd) simp_all
  have k: "AccountID32 (GetTokenUrl t) = acme"
    using token_url_key [OF token_url_Acme acct_ok_token [OF ok(2)] acme] by simp
  have "total_weight k (Main (batch st')) = total_weight k ?M + weight k (of_tokens t') - weight k (of_tokens t) + weight k ?l
      - weight k (SystemLedgerOf l)" for k
    unfolding up(1) using ne ot ol ld(3) by (simp add: total_weight_upd)
  then have "total_weight k (Main (batch st')) + flight_weight k (ProducedTxns (State st')) = total_weight k ?M" for k
    using d(4) [of k] k m by (simp add: up(2) produced_def)
  then show ?thesis using s up(2) b(1) by (simp add: conserves_def produced_def)
qed

text \<open>What a transaction must satisfy: the tokens it names are named by token URLs.\<close>
fun body_ok :: "URL \<Rightarrow> TransactionBody \<Rightarrow> bool" where
  "body_ok u (SyntheticDepositTokensBody d) \<longleftrightarrow> token_url (Token d)"
| "body_ok u (SyntheticCreateIdentityBody d) \<longleftrightarrow> (\<forall>a \<in> set (sci_Accounts d). acct_ok a \<and> (\<forall>k. weight k a = 0))"
| "body_ok u (CreateTokenBody d) \<longleftrightarrow> (\<forall>v. ct_Url d = Some v \<longrightarrow> token_url v)"
| "body_ok u (CreateTokenAccountBody d) \<longleftrightarrow> (\<forall>v. cta_TokenUrl d = Some v \<longrightarrow> token_url v)"
| "body_ok u CreateLiteTokenAccountBody \<longleftrightarrow> (\<forall>x v. ParseLiteTokenAddress u = Ok (Some (x, v)) \<longrightarrow> token_url v)"
| "body_ok u _ \<longleftrightarrow> True"

text \<open>The account a deposit goes to is the stored one, or a new one with nothing of weight under its URL.\<close>
lemma deposit_account_ok:
  assumes "deposit_account body tx st = Ok (t, st1)" "loaded tx st" "token_url (Token body)"
  shows "\<not> Pretend st1" "store_ok (Main (batch st1))" "ProducedTxns (State st1) = []" "acct_ok (of_tokens t)"
    "AccountID32 (GetTokenUrl t) = AccountID32 (Token body)"
    "total_weight k (Main (batch st1)) = total_weight k (Main (batch st))"
    "(case Main (batch st1) (AccountID32 (GetUrl (of_tokens t))) of None \<Rightarrow> 0 | Some a \<Rightarrow> weight k a) = weight k (of_tokens t)"
proof -
  note l = loadedD [OF assms(2)]
  have "\<not> Pretend st1 \<and> store_ok (Main (batch st1)) \<and> ProducedTxns (State st1) = [] \<and> acct_ok (of_tokens t) \<and>
    AccountID32 (GetTokenUrl t) = AccountID32 (Token body) \<and>
    total_weight k (Main (batch st1)) = total_weight k (Main (batch st)) \<and>
    (case Main (batch st1) (AccountID32 (GetUrl (of_tokens t))) of None \<Rightarrow> 0 | Some a \<Rightarrow> weight k a) = weight k (of_tokens t)"
  proof (cases "Origin st")
    case (Some a)
    with assms(1) have a: "a = of_tokens t" "URL_Equal (GetTokenUrl t) (Token body)" "st1 = st"
      by (auto simp: deposit_account_def as_tokens_Some split: option.splits if_splits)
    then have "acct_ok (of_tokens t)" using l(7) [OF Some] by simp
    then show ?thesis
      using token_url_key [OF acct_ok_token assms(3) a(2)] l(1,2,4) l(5) [OF Some] a by simp
  next
    case None
    let ?id = "RootIdentity (Principal tx)"
    let ?li = "LiteIdentityOf \<lparr> li_Url = ?id, li_CreditBalance = 0, li_LastUsedOn = 0 \<rparr>"
    have m: "Main (batch st) (AccountID32 (Principal tx)) = None" using assms(2) None by (simp add: loaded_def)
    from assms(1) None obtain st2 where
      t: "t = WithLiteTokens \<lparr> lta_Url = Principal tx, lta_TokenUrl = Token body, lta_Balance = 0, LockHeight = 0 \<rparr>"
      and st1: "st1 = AddDirectoryEntry ?id [Principal tx] st2"
      and st2: "st2 = st \<or> LoadUrlAs as_LiteIdentity ?id st = Err (Coded StatusNotFound ''load'') \<and> Update_accounts [?li] st = Ok st2"
      by (auto simp: deposit_account_def Let_def result_simps LoadUrlAs_def LoadUrl_def
          split: option.splits result.splits if_splits error.splits status.splits)
    have "\<not> Pretend st2 \<and> store_ok (Main (batch st2)) \<and> ProducedTxns (State st2) = [] \<and>
      total_weight k (Main (batch st2)) = total_weight k (Main (batch st)) \<and>
      (case Main (batch st2) (AccountID32 (Principal tx)) of None \<Rightarrow> 0 | Some a \<Rightarrow> weight k a) = 0"
      using st2
    proof
      assume s: "LoadUrlAs as_LiteIdentity ?id st = Err (Coded StatusNotFound ''load'') \<and> Update_accounts [?li] st = Ok st2"
      then have n: "Main (batch st) (AccountID32 ?id) = None"
        by (auto simp: LoadUrlAs_def LoadUrl_def GetState_def split: option.splits)
      note u = Update_store [OF conjunct2 [OF s] l(1,2)]
      show ?thesis using u(1) u(2) u(3) u(4) [of k] u(5) l(1,4) m n by (simp add: same_frame_def)
    qed (use l m in simp)
    then show ?thesis by (simp add: t st1 assms(3))
  qed
  then show "\<not> Pretend st1" "store_ok (Main (batch st1))" "ProducedTxns (State st1) = []" "acct_ok (of_tokens t)"
    "AccountID32 (GetTokenUrl t) = AccountID32 (Token body)"
    "total_weight k (Main (batch st1)) = total_weight k (Main (batch st))"
    "(case Main (batch st1) (AccountID32 (GetUrl (of_tokens t))) of None \<Rightarrow> 0 | Some a \<Rightarrow> weight k a) = weight k (of_tokens t)"
    by blast+
qed

lemma SyntheticDepositTokens_conserves:
  assumes "SyntheticDepositTokens_Validate tx st = Ok st'" "loaded tx st" "body_ok (Principal tx) (Body tx)"
  shows "conserves tx st st'"
proof -
  from assms(1) obtain body t st1 t' where b: "Body tx = SyntheticDepositTokensBody body"
      and d: "deposit_account body tx st = Ok (t, st1)" and c: "CreditTokens (Some (sdt_Amount body)) t = (t', True)"
      and u: "Update_accounts [of_tokens t'] st1 = Ok st'"
    by (auto simp: SyntheticDepositTokens_Validate_def result_simps
        split: TransactionBody.splits if_splits prod.splits)
  have k: "token_url (Token body)" using assms(3) b by simp
  note a = deposit_account_ok [OF d assms(2) k] and c' = CreditTokens_ok [OF c]
  note up = Update_store [OF u a(1,2) c'(5) [OF a(4)]]
  have "total_weight k (Main (batch st')) = total_weight k (Main (batch st)) + in_flight k (Some (Principal tx), Body tx)" for k
    using up(4) [of k] a(5) a(6,7) [of k] c'(4) [of k] by (simp add: b c'(2))
  then show ?thesis using up(1,3) a(3) by (simp add: conserves_def)
qed

lemma SyntheticDepositCredits_conserves:
  assumes "SyntheticDepositCredits_Validate tx st = Ok st'" "loaded tx st"
  shows "conserves tx st st'"
proof -
  from assms(1) obtain body a create l st1 where b: "Body tx = SyntheticDepositCreditsBody body"
      and c: "credited_signer body tx st = Ok (a, create)"
      and l: "LoadUrlAs as_SystemLedger (NodeUrl [Ledger] st) st = Ok l"
      and u: "(case AcmeRefundAmount body of None \<Rightarrow> Ok st
        | Some n \<Rightarrow> Update_accounts [SystemLedgerOf (l \<lparr> AcmeBurnt := AcmeBurnt l + n \<rparr>)] st) = Ok st1"
      and s: "(if create then Create [a] st1 else Update_accounts [a] st1) = Ok st'"
    by (auto simp: SyntheticDepositCredits_Validate_def result_simps split: TransactionBody.splits)
  note ld = loadedD [OF assms(2)]
  have lk: "Main (batch st) (AccountID32 (sl_Url l)) = Some (SystemLedgerOf l)"
    using LoadUrlAs_ledger [OF l] store_okD [OF ld(2)] by fastforce
  have a: "acct_ok a" "weight k a = 0" for k
    using c by (auto simp: credited_signer_def split: option.splits Account.splits result.splits)
  have old: "create \<or> (\<exists>o'. Origin st = Some o' \<and> GetUrl a = GetUrl o' \<and> (\<forall>k. weight k o' = 0) \<and> (\<forall>l. o' \<noteq> SystemLedgerOf l))"
    using c by (auto simp: credited_signer_def LiteIdentity_CreditCredits_def CreditCredits_def
        split: option.splits Account.splits result.splits)
  have one: "\<not> Pretend st1 \<and> store_ok (Main (batch st1)) \<and> ProducedTxns (State st1) = [] \<and>
      total_weight k (Main (batch st1)) = total_weight k (Main (batch st)) + in_flight k (Some (Principal tx), Body tx) \<and>
      (\<forall>x. x \<noteq> AccountID32 (sl_Url l) \<longrightarrow> Main (batch st1) x = Main (batch st) x)" for k
  proof (cases "AcmeRefundAmount body")
    case (Some n)
    with u have "Update_accounts [SystemLedgerOf (l \<lparr> AcmeBurnt := AcmeBurnt l + n \<rparr>)] st = Ok st1" by simp
    note up = Update_store [OF this ld(1,2)]
    show ?thesis using up(1) up(2) up(3) up(4) [of k] up(5) ld(1,4) lk Some by (simp add: same_frame_def b)
  qed (use u ld b in simp)
  have "(case Main (batch st1) (AccountID32 (GetUrl a)) of None \<Rightarrow> 0 | Some a \<Rightarrow> weight k a) = 0" for k
  proof (cases create)
    case True
    then show ?thesis using s one Create_fresh [of "[a]" st1 st' a] by simp
  next
    case False
    with old obtain o' where o': "Origin st = Some o'" "GetUrl a = GetUrl o'" "weight k o' = 0" "\<forall>l. o' \<noteq> SystemLedgerOf l" by blast
    have "Main (batch st) (AccountID32 (GetUrl a)) = Some o'" using ld(5) [OF o'(1)] o'(2) by simp
    moreover have "AccountID32 (GetUrl a) \<noteq> AccountID32 (sl_Url l)" using calculation lk o'(4) by auto
    ultimately show ?thesis using one o'(3) by simp
  qed
  moreover obtain isUpdate where s': "createOrUpdate isUpdate [a] st1 = Ok st'"
    using s by (auto simp: Create_def Update_accounts_def split: if_splits)
  ultimately have "store_ok (Main (batch st'))" "ProducedTxns (State st') = []"
    "total_weight k (Main (batch st')) = total_weight k (Main (batch st1))" for k
    using store_one [OF s'] one a by simp_all
  then show ?thesis using one by (simp add: conserves_def)
qed

subsection \<open>Creating accounts and changing authorities\<close>

lemma put_auth_simps [simp]:
  "GetUrl (put_auth x a) = GetUrl a" "weight k (put_auth x a) = weight k a"
  "acct_ok (put_auth x a) \<longleftrightarrow> acct_ok a" "put_auth x (put_auth y a) = put_auth x a"
  by (cases a; simp)+

lemma put_auth_GetAuth: "GetAuth a = Some x \<Longrightarrow> put_auth x a = a"
  by (cases a) auto

lemma add_authorities_put:
  "add_authorities us a m = Ok a' \<Longrightarrow> a' = a \<or> (\<exists>x. a' = put_auth x a)"
proof (induction us arbitrary: a)
  case (Cons u us)
  then obtain v a1 where v: "u = Some v" and a1: "st_AddAuthority a v m = Ok a1" and r: "add_authorities us a1 m = Ok a'"
    by (auto simp: result_simps split: option.splits)
  from a1 obtain x where "a1 = put_auth x a"
    by (auto simp: st_AddAuthority_def result_simps split: option.splits)
  with Cons.IH [OF r] show ?case by auto
qed simp

lemma SetAuth_put: "SetAuth a us m = Ok a' \<Longrightarrow> a' = a \<or> (\<exists>x. a' = put_auth x a)"
  by (auto simp: SetAuth_def InheritAuth_def add_authorities_put split: option.splits if_splits)

lemma SetAuth_keeps:
  assumes "SetAuth a us m = Ok a'"
  shows "GetUrl a' = GetUrl a" "weight k a' = weight k a" "acct_ok a' = acct_ok a"
  using SetAuth_put [OF assms] by auto

text \<open>New accounts of no weight.\<close>
lemma Create_weightless:
  assumes "Create as st = Ok st'" "\<not> Pretend st" "store_ok (Main (batch st))" "\<forall>a \<in> set as. acct_ok a \<and> (\<forall>k. weight k a = 0)"
  shows "store_ok (Main (batch st'))" "ProducedTxns (State st') = ProducedTxns (State st)" "same_frame st st'"
    "total_weight k (Main (batch st')) = total_weight k (Main (batch st))"
proof -
  note c = Create_ok [OF assms(1,2)]
  have f: "\<forall>a \<in> set as. (case Main (batch st) (AccountID32 (GetUrl a)) of None \<Rightarrow> 0 | Some b \<Rightarrow> weight k b) = 0"
    using Create_fresh [OF assms(1,2)] by simp
  have "finite (dom (Main (batch st)))" "\<forall>a \<in> set as. weight k a = 0" using assms(3,4) by (simp_all add: store_ok_def)
  from total_weight_stored_zero [OF this f]
  show "total_weight k (Main (batch st')) = total_weight k (Main (batch st))" using c by simp
  show "store_ok (Main (batch st'))" using c store_ok_stored [OF assms(3), of as] assms(4) by simp
  show "ProducedTxns (State st') = ProducedTxns (State st)" "same_frame st st'" using c by simp_all
qed

lemma Create_conserves:
  assumes "Create as st = Ok st'" "loaded tx st" "\<forall>a \<in> set as. acct_ok a \<and> (\<forall>k. weight k a = 0)"
    "\<And>k. in_flight k (Some (Principal tx), Body tx) = 0"
  shows "conserves tx st st'"
  using Create_weightless [OF assms(1) loadedD(1,2) [OF assms(2)] assms(3)] loadedD(4) [OF assms(2)] assms(4)
  by (simp add: conserves_def)

text \<open>An update of the principal that changes neither its URL nor its weight.\<close>
lemma Update_conserves:
  assumes "Update_accounts [a'] st = Ok st'" "loaded tx st" "Origin st = Some a" "GetUrl a' = GetUrl a"
    "acct_ok a'" "\<And>k. weight k a' = weight k a" "\<And>k. in_flight k (Some (Principal tx), Body tx) = 0"
  shows "conserves tx st st'"
proof -
  note l = loadedD [OF assms(2)]
  have "Main (batch st) (AccountID32 (GetUrl a')) = Some a" using l(5) [OF assms(3)] assms(4) by simp
  note u = Update_one [OF assms(1) l(1,2) this assms(5)]
  show ?thesis using u(1,3,4) l(4) assms(6,7) by (simp add: conserves_def)
qed

lemma CreateDataAccount_conserves:
  assumes "CreateDataAccount_Validate tx st = Ok st'" "loaded tx st"
  shows "conserves tx st st'"
proof -
  from assms(1) obtain body u a where b: "Body tx = CreateDataAccountBody body"
      and a: "SetAuth (DataAccountOf \<lparr> da_Url = u, da_Auth = new_auth \<rparr>) (cda_Authorities body) st = Ok a" and c: "Create [a] st = Ok st'"
    by (auto simp: CreateDataAccount_Validate_def result_simps split: TransactionBody.splits)
  show ?thesis using SetAuth_keeps [OF a] b by (intro Create_conserves [OF c assms(2)]) simp_all
qed

lemma CreateToken_conserves:
  assumes "CreateToken_Validate tx st = Ok st'" "loaded tx st" "body_ok (Principal tx) (Body tx)"
  shows "conserves tx st st'"
proof -
  from assms(1) obtain body where b: "Body tx = CreateTokenBody body"
    by (auto simp: CreateToken_Validate_def split: TransactionBody.splits)
  define i where "i = (\<lambda>u. TokenIssuerOf \<lparr> ti_Url = u, ti_Auth = new_auth, Symbol = ct_Symbol body,
         Precision = ct_Precision body, Properties = ct_Properties body, Issued = 0, SupplyLimit = ct_SupplyLimit body \<rparr>)"
  from assms(1) b obtain u a where u: "ct_Url body = Some u" and l: "\<not> (case ct_SupplyLimit body of None \<Rightarrow> False | Some l \<Rightarrow> l < 0)"
      and a: "SetAuth (i u) (ct_Authorities body) st = Ok a" and c: "Create [a] st = Ok st'"
    by (auto simp: CreateToken_Validate_def check_new_def i_def result_simps if_Err_Ok split: option.splits split del: if_split)
  have "acct_ok (i u)" "weight k (i u) = 0" for k using assms(3) b u l by (auto simp: i_def split: option.splits)
  then show ?thesis using SetAuth_keeps [OF a] b by (intro Create_conserves [OF c assms(2)]) simp_all
qed

lemma CreateTokenAccount_conserves:
  assumes "CreateTokenAccount_Validate marshal tx st = Ok st'" "loaded tx st" "body_ok (Principal tx) (Body tx)"
  shows "conserves tx st st'"
proof -
  from assms(1) obtain body u v a where b: "Body tx = CreateTokenAccountBody body" "cta_TokenUrl body = Some v"
      and a: "SetAuth (TokenAccountOf \<lparr> ta_Url = u, ta_Auth = new_auth, ta_TokenUrl = v, ta_Balance = 0 \<rparr>)
         (cta_Authorities body) st = Ok a" and c: "Create [a] st = Ok st'"
    by (auto simp: CreateTokenAccount_Validate_def result_simps split: TransactionBody.splits option.splits)
  show ?thesis using SetAuth_keeps [OF a] b assms(3) by (intro Create_conserves [OF c assms(2)]) simp_all
qed

lemma CreateLiteTokenAccount_conserves:
  assumes "CreateLiteTokenAccount_Validate tx st = Ok st'" "loaded tx st" "body_ok (Principal tx) (Body tx)"
  shows "conserves tx st st'"
proof -
  let ?li = "LiteIdentityOf \<lparr> li_Url = RootIdentity (Principal tx), li_CreditBalance = 0, li_LastUsedOn = 0 \<rparr>"
  from assms(1) obtain x v where b: "Body tx = CreateLiteTokenAccountBody" "ParseLiteTokenAddress (Principal tx) = Ok (Some (x, v))"
    by (auto simp: CreateLiteTokenAccount_Validate_def split: TransactionBody.splits result.splits option.splits)
  with assms(1) obtain st1 where
      c: "Create [LiteTokenAccountOf \<lparr> lta_Url = Principal tx, lta_TokenUrl = v, lta_Balance = 0, LockHeight = 0 \<rparr>] st = Ok st1"
      and r: "(case GetState (RootIdentity (Principal tx)) (batch st1) of Some (LiteIdentityOf _) \<Rightarrow> Ok st1
        | Some _ \<Rightarrow> Err (Coded StatusUnknownError ''load lite identity'') | None \<Rightarrow> Create [?li] st1) = Ok st'"
    by (auto simp: CreateLiteTokenAccount_Validate_def result_simps split: if_splits)
  have r: "st' = st1 \<or> Create [?li] st1 = Ok st'"
    using r by (auto split: option.splits Account.splits)
  have c1: "conserves tx st st1" using b assms(3) by (intro Create_conserves [OF c assms(2)]) simp_all
  have "same_frame st st1" using Create_ok [OF c loadedD(1) [OF assms(2)]] by simp
  then have p: "\<not> Pretend st1" using assms(2) by (simp add: loaded_def same_frame_def)
  from r show ?thesis
  proof
    assume "Create [?li] st1 = Ok st'"
    note w = Create_weightless [OF this p]
    show ?thesis using w c1 by (simp add: conserves_def)
  qed (use c1 in simp)
qed

lemma CreateKeyBook_conserves:
  assumes "CreateKeyBook_Validate tx st = Ok st'" "loaded tx st"
  shows "conserves tx st st'"
proof -
  from assms(1) obtain body u a where b: "Body tx = CreateKeyBookBody body"
      and a: "SetAuth (KeyBookOf \<lparr> kb_Url = u, BookType = BookTypeNormal, kb_Auth = fst (AddAuthority u new_auth),
        PageCount = 1 \<rparr>) (ckb_Authorities body) st = Ok a"
      and c: "Create [a, KeyPageOf (new_page (FormatKeyPageUrl u 0) 0 \<lparr> Keys := [new_key (ckb_PublicKeyHash body)] \<rparr>)] st = Ok st'"
    by (auto simp: CreateKeyBook_Validate_def result_simps split: TransactionBody.splits if_splits)
  show ?thesis using SetAuth_keeps [OF a] b by (intro Create_conserves [OF c assms(2)]) simp_all
qed

lemma CreateKeyPage_conserves:
  assumes "CreateKeyPage_Validate tx st = Ok st'" "loaded tx st"
  shows "conserves tx st st'"
proof -
  from assms(1) obtain book keys p st1 where o': "Origin st = Some (KeyBookOf book)" and b: "Body tx = CreateKeyPageBody keys"
      and u: "Update_accounts [KeyBookOf (book \<lparr> PageCount := PageCount book + 1 \<rparr>)] st = Ok st1"
      and c: "Create [KeyPageOf p] st1 = Ok st'"
    by (auto simp: CreateKeyPage_Validate_def Let_def result_simps split: TransactionBody.splits option.splits Account.splits if_splits)
  have c1: "conserves tx st st1" using b by (intro Update_conserves [OF u assms(2) o']) simp_all
  have "same_frame st st1" using Update_ok [OF u loadedD(1) [OF assms(2)]] by simp
  then have "\<not> Pretend st1" using assms(2) by (simp add: loaded_def same_frame_def)
  note w = Create_weightless [OF c this]
  show ?thesis using w c1 by (simp add: conserves_def)
qed

lemma CreateIdentity_conserves:
  assumes "CreateIdentity_Validate tx st = Ok st'" "loaded tx st"
  shows "conserves tx st st'"
proof -
  from assms(1) obtain body where b: "Body tx = CreateIdentityBody body"
    by (auto simp: CreateIdentity_Validate_def split: TransactionBody.splits)
  with assms(1) obtain u auth as a where a: "SetAuth (ADIOf \<lparr> adi_Url = u, adi_Auth = auth \<rparr>) (ci_Authorities body) st = Ok a"
      and as: "identity_book body u = Ok (auth, as)"
      and r: "(if \<not> LocalTo (Principal tx) u
        then Submit (Some u) (SyntheticCreateIdentityBody
          \<lparr> sci_Origin = \<lparr> Cause = None, so_Initiator = None, FeeRefund = 0 \<rparr>, sci_Accounts = a # as \<rparr>) st
        else Create (a # as) st) = Ok st'"
    by (auto simp: CreateIdentity_Validate_def result_simps if_Err_Ok split del: if_split)
  have a': "\<forall>b \<in> set (a # as). acct_ok b \<and> (\<forall>k. weight k b = 0)"
    using SetAuth_keeps [OF a] as by (auto simp: identity_book_def result_simps split: option.splits if_splits)
  show ?thesis
  proof (cases "LocalTo (Principal tx) u")
    case True
    with r have "Create (a # as) st = Ok st'" by simp
    then show ?thesis using b by (intro Create_conserves [OF _ assms(2) a']) simp_all
  next
    case False
    with r have "st' = st \<lparr> State := DidProduceTxn (Some u) (SyntheticCreateIdentityBody
          \<lparr> sci_Origin = \<lparr> Cause = None, so_Initiator = None, FeeRefund = 0 \<rparr>, sci_Accounts = a # as \<rparr>) (State st) \<rparr>"
      by (simp add: Submit_ok)
    then show ?thesis using a' b loadedD(2,4) [OF assms(2)] by (simp add: conserves_def DidProduceTxn_def)
  qed
qed

lemma SyntheticCreateIdentity_conserves:
  assumes "SyntheticCreateIdentity_Validate tx st = Ok st'" "loaded tx st" "body_ok (Principal tx) (Body tx)"
  shows "conserves tx st st'"
proof -
  from assms(1) obtain body where b: "Body tx = SyntheticCreateIdentityBody body" and c: "Create (sci_Accounts body) st = Ok st'"
    by (auto simp: SyntheticCreateIdentity_Validate_def result_simps split: TransactionBody.splits if_splits)
  show ?thesis using assms(3) b by (intro Create_conserves [OF c assms(2)]) simp_all
qed

lemma UpdateAccountAuth_conserves:
  assumes "UpdateAccountAuth_Validate tx st = Ok st'" "loaded tx st"
  shows "conserves tx st st'"
proof -
  from assms(1) obtain ops a x where b: "Body tx = UpdateAccountAuthBody ops" and o': "Origin st = Some a"
      and u: "Update_accounts [put_auth x a] st = Ok st'"
    by (auto simp: UpdateAccountAuth_Validate_def result_simps split: TransactionBody.splits option.splits)
  show ?thesis using b loadedD(7) [OF assms(2) o'] by (intro Update_conserves [OF u assms(2) o']) simp_all
qed

lemma UpdateKeyPage_conserves:
  assumes "UpdateKeyPage_Validate tx st = Ok st'" "loaded tx st"
  shows "conserves tx st st'"
proof -
  from assms(1) obtain ops page book page' where b: "Body tx = UpdateKeyPageBody ops" and o': "Origin st = Some (KeyPageOf page)"
      and e: "executeOperations book ops page = Ok page'" and u: "Update_accounts [KeyPageOf (didUpdateKeyPage page')] st = Ok st'"
    by (auto simp: UpdateKeyPage_Validate_def result_simps split: TransactionBody.splits option.splits Account.splits)
  have "kp_Url (didUpdateKeyPage page') = kp_Url page"
    using executeOperations_same [OF e] by (simp add: same_page_def didUpdateKeyPage_def)
  then show ?thesis using b by (intro Update_conserves [OF u assms(2) o']) simp_all
qed

lemma AcmeFaucet_conserves:
  assumes "AcmeFaucet_Validate u tx st = Ok st'" "loaded tx st"
    "\<And>a. GetState u (batch st) = Some (LiteTokenAccountOf a) \<Longrightarrow> AccountID32 (lta_TokenUrl a) = acme"
  shows "conserves tx st st'"
proof -
  define n where "n = int (AcmeFaucetAmount * AcmePrecision)"
  from assms(1) obtain r v a a' st1 where b: "Body tx = AcmeFaucetBody r"
      and a: "GetState u (batch st) = Some (LiteTokenAccountOf a)"
      and d: "LiteTokenAccount_DebitTokens (Some n) a = (a', True)" and up: "Update_accounts [LiteTokenAccountOf a'] st = Ok st1"
      and st': "st' = st1 \<lparr> State := DidProduceTxn (Some v) (SyntheticDepositTokensBody \<lparr> sdt_Origin = new_origin,
           Token = AcmeUrl, sdt_Amount = n, IsIssuer = False, sdt_IsRefund = False \<rparr>) (State st1) \<rparr>"
    by (auto simp: AcmeFaucet_Validate_def result_simps Submit_ok LoadUrlAs_def LoadUrl_def Let_def n_def
        split: TransactionBody.splits option.splits Account.splits if_splits prod.splits)
  note l = loadedD [OF assms(2)]
  have d': "DebitTokens (Some n) (WithLiteTokens a) = (WithLiteTokens a', True)" using d by simp
  have s: "acct_ok (LiteTokenAccountOf a)" "AccountID32 (lta_Url a) = AccountID32 u"
    using store_okD [OF l(2)] a by (fastforce simp: GetState_def)+
  have m: "Main (batch st) (AccountID32 (GetUrl (LiteTokenAccountOf a'))) = Some (LiteTokenAccountOf a)"
    using a s(2) DebitTokens_ok(2) [OF d'] by (simp add: GetState_def)
  have "acct_ok (LiteTokenAccountOf a')" using DebitTokens_ok(5) [OF d'] s(1) by simp
  note o' = Update_one [OF up l(1,2) m this]
  have "0 \<le> n" by (simp add: n_def)
  then show ?thesis using o'(1,3,4) l(4) b DebitTokens_ok(4) [OF d'] assms(3) [OF a] token_url_Acme
    by (simp add: conserves_def st' DidProduceTxn_def)
qed

text \<open>The account of the faucet, where there is one, is an account for ACME.\<close>
definition faucet_ok :: "Node \<Rightarrow> Batch \<Rightarrow> bool" where
  "faucet_ok n b \<longleftrightarrow> (case Faucet n of None \<Rightarrow> True | Some u \<Rightarrow>
     (case GetState u b of Some (LiteTokenAccountOf a) \<Rightarrow> AccountID32 (lta_TokenUrl a) = acme | _ \<Rightarrow> True))"

lemmas executor_conserves = SendTokens_conserves BurnTokens_conserves IssueTokens_conserves AddCredits_conserves
  LockAccount_conserves CreateIdentity_conserves CreateTokenAccount_conserves CreateDataAccount_conserves
  CreateToken_conserves CreateLiteTokenAccount_conserves CreateKeyPage_conserves CreateKeyBook_conserves
  UpdateKeyPage_conserves UpdateAccountAuth_conserves SyntheticCreateIdentity_conserves
  SyntheticDepositTokens_conserves SyntheticDepositCredits_conserves SyntheticBurnTokens_conserves

lemma Execute_conserves:
  assumes "Execute n tx st = Some (Ok st')" "loaded tx st" "body_ok (Principal tx) (Body tx)"
    "\<And>u. Body tx = AcmeFaucetBody u \<Longrightarrow> faucet_ok n (batch st)"
  shows "conserves tx st st'"
proof -
  have "\<exists>res. AddCredits_Validate tx st = Ok (st', res)" if "map_ok fst (AddCredits_Validate tx st) = Ok st'"
    using that by (cases "AddCredits_Validate tx st") auto
  moreover have "conserves tx st st'" if "AcmeFaucet_Validate u tx st = Ok st'" "Faucet n = Some u" "Body tx = AcmeFaucetBody v" for u v
    by (rule AcmeFaucet_conserves [OF that(1) assms(2)]) (use assms(4) [OF that(3)] that(2) in \<open>simp add: faucet_ok_def\<close>)
  ultimately show ?thesis using assms(1-3)
    by (cases "Body tx") (auto simp: Execute_def intro: executor_conserves split: option.splits)
qed

end
