(* ===== verification/Network.thy ===== *)
theory Network
  imports Supply
begin

text \<open>
  The network as a state machine: the databases of its partitions and the synthetic transactions in
  flight between them. A step processes a transaction of a user, or one in flight, on any
  partition, and puts what it produced in flight. Tokens are conserved: in every reachable state
  what is held, burnt and in flight of a token is what its issuer has issued, but for what failed
  refunds and burns lost, and what transactions that failed after they were executed lost or doubled.
\<close>

section \<open>Failed transactions\<close>

text \<open>What is lost of a token when a transaction fails: refunds and burns have no refund.\<close>
fun lost :: "bytes \<Rightarrow> URL option \<times> TransactionBody \<Rightarrow> int" where
  "lost k (p, SyntheticDepositTokensBody d) = (if sdt_IsRefund d then in_flight k (p, SyntheticDepositTokensBody d) else 0)"
| "lost k (p, SyntheticBurnTokensBody d) = in_flight k (p, SyntheticBurnTokensBody d)"
| "lost k (p, SyntheticDepositCreditsBody d) = (if sdc_IsRefund d then in_flight k (p, SyntheticDepositCreditsBody d) else 0)"
| "lost k (p, _) = 0"

text \<open>A transaction in flight: what it may carry, and that an issuer's deposit was caused by the issuer.\<close>
fun msg_ok :: "URL option \<times> TransactionBody \<Rightarrow> bool" where
  "msg_ok (p, SyntheticDepositTokensBody d) \<longleftrightarrow> token_url (Token d) \<and> 0 \<le> sdt_Amount d
     \<and> (\<exists>c. Cause (sdt_Origin d) = Some c \<and> (IsIssuer d \<longrightarrow> AccountID32 (tx_url c) = AccountID32 (Token d)))"
| "msg_ok (p, SyntheticBurnTokensBody d) \<longleftrightarrow> 0 \<le> sbt_Amount d"
| "msg_ok (p, SyntheticDepositCreditsBody d) \<longleftrightarrow> (\<forall>n. AcmeRefundAmount d = Some n \<longrightarrow> 0 \<le> n)"
| "msg_ok (p, SyntheticCreateIdentityBody d) \<longleftrightarrow> (\<forall>a \<in> set (sci_Accounts d). acct_ok a \<and> (\<forall>k. weight k a = 0))"
| "msg_ok (p, _) \<longleftrightarrow> False"

lemma msg_ok_body: "msg_ok (p, b) \<Longrightarrow> body_ok u b"
  by (cases b) auto

lemma lost_nonneg: "msg_ok m \<Longrightarrow> 0 \<le> lost k m"
  by (cases m; cases "snd m") (auto split: option.splits)

lemma in_flight_nonneg: "msg_ok m \<Longrightarrow> 0 \<le> in_flight k m"
  by (cases m; cases "snd m") (auto split: option.splits)

lemma produced_nonneg: "produced_ok u m \<Longrightarrow> 0 \<le> in_flight k m"
  by (cases m; cases "snd m") (auto split: option.splits)

text \<open>A user transaction carries nothing itself.\<close>
lemma user_body:
  assumes "IsUser (body_Type b)"
  shows "in_flight k (p, b) = 0" "lost k (p, b) = 0" "synth_origin b = None" "Body tx = b \<Longrightarrow> DidFail tx s = Ok s"
  using assms by (cases b; simp add: IsType_defs DidFail_def)+

lemma set_origin_keeps [simp]:
  "in_flight k (p, set_origin o' b) = in_flight k (p, b)"
  by (cases b) (simp_all del: map_option_eq_Some)

lemma produced_msg:
  "produced_ok u (p, b) \<Longrightarrow> Cause o' = Some c \<Longrightarrow> AccountID32 (tx_url c) = AccountID32 u \<Longrightarrow> msg_ok (p, set_origin o' b)"
  by (cases b) simp_all

lemma setSyntheticOrigin_ok:
  assumes "setSyntheticOrigin n sz status tx ps = Ok qs" "\<forall>p \<in> set ps. produced_ok (Principal tx) p"
  shows "\<forall>q \<in> set qs. msg_ok q" "flight_weight k qs = flight_weight k ps"
proof -
  define f where "f = (\<lambda>r. \<lambda>(u :: URL option, b). (u, set_origin \<lparr> Cause = Some (WithTxID (Principal tx) (tx_GetHash tx)),
          so_Initiator = Initiator status, FeeRefund = r \<rparr> b))"
  have o': "synth_origin (snd p) \<noteq> None" if "p \<in> set ps" for p
    using assms(2) that by (cases p; cases "snd p") auto
  have "qs = ps \<and> ps = [] \<or> (\<exists>r. qs = map (f r) ps)"
    using assms(1) o' by (auto simp: setSyntheticOrigin_def Let_def result_simps f_def filter_empty_conv set_empty [symmetric] simp del: set_empty split: if_splits)
  then obtain r where q: "qs = map (f r) ps" by auto
  have "msg_ok (f r p)" if "p \<in> set ps" for p
    using assms(2) that by (cases p) (auto simp: f_def WithTxID_def intro!: produced_msg)
  then show "\<forall>q \<in> set qs. msg_ok q" by (auto simp: q)
  show "flight_weight k qs = flight_weight k ps"
    unfolding q by (induction ps) (simp_all add: f_def split: prod.splits)
qed

text \<open>A failed transaction leaves the accounts alone and gives back what it carried, but for what is lost.\<close>
lemma DidProduceTxn_produced [simp]: "ProducedTxns (DidProduceTxn u b s) = ProducedTxns s @ [(u, b)]"
  by (simp add: DidProduceTxn_def)

lemma DidFail_ok:
  assumes "DidFail tx s = Ok s'" "IsUser (body_Type (Body tx)) \<or> msg_ok (Some (Principal tx), Body tx)"
  obtains ps where "ProducedTxns s' = ProducedTxns s @ ps" "\<forall>p \<in> set ps. produced_ok (Principal tx) p"
    "\<And>k. flight_weight k ps = in_flight k (Some (Principal tx), Body tx) - lost k (Some (Principal tx), Body tx)"
proof (cases "IsUser (body_Type (Body tx))")
  case True
  then have "DidFail tx s = Ok s" by (rule user_body(4)) simp
  then show ?thesis using assms(1) user_body(1,2) [OF True] that [of "[]"] by simp
next
  case False
  then have m: "msg_ok (Some (Principal tx), Body tx)" using assms(2) by simp
  define ps where "ps = drop (length (ProducedTxns s)) (ProducedTxns s')"
  show ?thesis
  proof (rule that [of ps])
    show "ProducedTxns s' = ProducedTxns s @ ps" "\<forall>p \<in> set ps. produced_ok (Principal tx) p"
      using assms(1) m by (cases "Body tx"; auto simp: ps_def DidFail_def SyntheticDepositTokens_DidFail_def
        SyntheticDepositCredits_DidFail_def token_url_Acme split: if_splits option.splits)+
    show "flight_weight k ps = in_flight k (Some (Principal tx), Body tx) - lost k (Some (Principal tx), Body tx)" for k
      using assms(1) m by (cases "Body tx"; auto simp: ps_def DidFail_def SyntheticDepositTokens_DidFail_def
        SyntheticDepositCredits_DidFail_def split: if_splits option.splits)
  qed
qed

lemma recordFailed_ok:
  assumes "recordFailedTransaction n sz status tx e b = Ok out"
    "IsUser (body_Type (Body tx)) \<or> msg_ok (Some (Principal tx), Body tx)"
  shows "Main (out_batch out) = Main b" "out_error out = Some e"
    "\<forall>p \<in> set (ProducedTxns (out_state out)). produced_ok (Principal tx) p"
    "flight_weight k (ProducedTxns (out_state out)) = in_flight k (Some (Principal tx), Body tx) - lost k (Some (Principal tx), Body tx)"
proof -
  have new: "ProducedTxns new_state = []" by (simp add: new_state_def)
  obtain s0 s1 q where r: "DidFail tx s0 = Ok s1" "out_batch out = RemovePending tx b" "out_error out = Some e"
      "ProducedTxns (out_state out) = ProducedTxns s1 @ q"
    and s0: "\<forall>p \<in> set (ProducedTxns s0 @ q). \<exists>u d. p = (u, SyntheticDepositCreditsBody d) \<and> AcmeRefundAmount d = None"
    using assms(1) unfolding recordFailedTransaction_def Let_def
    by (force simp: result_simps new split: option.splits if_splits)
  show "Main (out_batch out) = Main b" "out_error out = Some e" using r by (simp_all add: RemovePending_def Let_def)
  obtain ps where ps: "ProducedTxns s1 = ProducedTxns s0 @ ps" "\<forall>p \<in> set ps. produced_ok (Principal tx) p"
    "\<And>k. flight_weight k ps = in_flight k (Some (Principal tx), Body tx) - lost k (Some (Principal tx), Body tx)"
    using DidFail_ok [OF r(1) assms(2)] by metis
  show "\<forall>p \<in> set (ProducedTxns (out_state out)). produced_ok (Principal tx) p"
  proof
    fix p assume "p \<in> set (ProducedTxns (out_state out))"
    then have "p \<in> set (ProducedTxns s0 @ q) \<or> p \<in> set ps" by (auto simp: r(4) ps(1))
    then show "produced_ok (Principal tx) p"
    proof
      assume "p \<in> set (ProducedTxns s0 @ q)"
      then obtain u d where "p = (u, SyntheticDepositCreditsBody d)" "AcmeRefundAmount d = None" using s0 by blast
      then show ?thesis by simp
    qed (use ps(2) in blast)
  qed
  have "flight_weight k xs = 0"
    if "\<forall>p \<in> set xs. \<exists>u d. p = (u, SyntheticDepositCreditsBody d) \<and> AcmeRefundAmount d = None" for xs
    using that by (induction xs) auto
  then show "flight_weight k (ProducedTxns (out_state out)) = in_flight k (Some (Principal tx), Body tx) - lost k (Some (Principal tx), Body tx)"
    using s0 ps(3) [of k] by (simp add: r(4) ps(1))
qed

section \<open>Processing a transaction\<close>

lemma LoadStateManager_loaded:
  assumes "LoadStateManager n b (GetState (Principal tx) b) tx status = Ok st" "store_ok (Main b)"
  shows "loaded tx st" "batch st = b"
  using assms by (auto simp: LoadStateManager_def NewStateManager_def loaded_def GetState_def new_state_def Let_def result_simps
      split: if_splits option.splits Account.splits)

text \<open>
  A transaction whose principal is an account of the partition itself can fail after the changes of
  its executor were committed: then the transactions that the executor produced are dropped.
\<close>
definition dropped :: "Node \<Rightarrow> TransactionStatus \<Rightarrow> Transaction \<Rightarrow> Batch \<Rightarrow> (URL option \<times> TransactionBody) list option" where
  "dropped n status tx b = (let account = GetState (Principal tx) b in
     if account = None \<and> \<not> AllowMissingPrincipal tx then None
     else case LoadStateManager n b account tx status of
       Ok st \<Rightarrow> (case Execute n tx st of
         Some (Ok st) \<Rightarrow>
           (case processNetworkAccountUpdates n tx (map_option GetUrl account) (GetState (Principal tx) (batch st))
                 (LoadUrlAs as_SystemLedger (NodeUrl [Ledger] st) st) of
              Err e \<Rightarrow> Some (ProducedTxns (State st))
            | _ \<Rightarrow> None)
       | _ \<Rightarrow> None)
     | _ \<Rightarrow> None)"

text \<open>
  What is lost of a token by processing a transaction: what a failed refund or burn carried, and
  what was dropped. What is doubled: what a transaction carried that failed after its changes were
  committed, so that it was executed and refunded.
\<close>
definition loss :: "Node \<Rightarrow> TransactionStatus \<Rightarrow> Transaction \<Rightarrow> Batch \<Rightarrow> Outcome \<Rightarrow> bytes \<Rightarrow> int" where
  "loss n status tx b out k = (if out_error out = None then 0 else lost k (Some (Principal tx), Body tx))
     + (case dropped n status tx b of None \<Rightarrow> 0 | Some ps \<Rightarrow> flight_weight k ps)"

definition doubled :: "Node \<Rightarrow> TransactionStatus \<Rightarrow> Transaction \<Rightarrow> Batch \<Rightarrow> bytes \<Rightarrow> int" where
  "doubled n status tx b k = (case dropped n status tx b of None \<Rightarrow> 0 | Some ps \<Rightarrow> in_flight k (Some (Principal tx), Body tx))"

text \<open>What a transaction that was processed did.\<close>
definition processed :: "Node \<Rightarrow> TransactionStatus \<Rightarrow> Transaction \<Rightarrow> Batch \<Rightarrow> Outcome \<Rightarrow> bool" where
  "processed n status tx b out \<longleftrightarrow> store_ok (Main (out_batch out))
     \<and> (\<forall>p \<in> set (ProducedTxns (out_state out)). produced_ok (Principal tx) p)
     \<and> (\<forall>k. 0 \<le> loss n status tx b out k \<and> 0 \<le> doubled n status tx b k
         \<and> total_weight k (Main (out_batch out)) + flight_weight k (ProducedTxns (out_state out)) + loss n status tx b out k
          = total_weight k (Main b) + in_flight k (Some (Principal tx), Body tx) + doubled n status tx b k)"

text \<open>What may be processed: a transaction of a user, or one that was in flight.\<close>
definition tx_ok :: "Node \<Rightarrow> Batch \<Rightarrow> Transaction \<Rightarrow> bool" where
  "tx_ok n b tx \<longleftrightarrow> msg_ok (Some (Principal tx), Body tx) \<or> IsUser (body_Type (Body tx)) \<and> body_ok (Principal tx) (Body tx)
     \<and> (case Body tx of AcmeFaucetBody _ \<Rightarrow> faucet_ok n b | _ \<Rightarrow> True)"

lemma tx_okD:
  assumes "tx_ok n b tx"
  shows "body_ok (Principal tx) (Body tx)" "IsUser (body_Type (Body tx)) \<or> msg_ok (Some (Principal tx), Body tx)"
    "0 \<le> lost k (Some (Principal tx), Body tx)" "0 \<le> in_flight k (Some (Principal tx), Body tx)"
    "Body tx = AcmeFaucetBody u \<Longrightarrow> faucet_ok n b"
  using assms msg_ok_body lost_nonneg in_flight_nonneg user_body by (auto simp: tx_ok_def)

lemma ProcessTransaction_cases:
  assumes "ProcessTransaction n sz status tx b = Some (Ok out)"
  obtains (failed) e where "recordFailedTransaction n sz status tx e b = Ok out" "dropped n status tx b = None"
  | (executed) st st' where "LoadStateManager n b (GetState (Principal tx) b) tx status = Ok st"
      "Execute n tx st = Some (Ok st')" "out = recordSuccessfulTransaction tx st'" "dropped n status tx b = None"
  | (rejected) st st' e where "LoadStateManager n b (GetState (Principal tx) b) tx status = Ok st"
      "Execute n tx st = Some (Ok st')" "recordFailedTransaction n sz status tx e (batch st') = Ok out"
      "dropped n status tx b = Some (ProducedTxns (State st'))"
  using assms unfolding ProcessTransaction_def dropped_def Let_def
  by (auto split: if_splits result.splits option.splits)

lemma ProcessTransaction_processed:
  assumes p: "ProcessTransaction n sz status tx b = Some (Ok out)" and b: "store_ok (Main b)" and ok: "tx_ok n b tx"
  shows "processed n status tx b out"
proof -
  note t = tx_okD [OF ok]
  have c: "conserves tx st st'" "batch st = b"
    if "LoadStateManager n b (GetState (Principal tx) b) tx status = Ok st" "Execute n tx st = Some (Ok st')" for st st'
    using Execute_conserves [OF that(2) _ t(1)] LoadStateManager_loaded [OF that(1) b] t(5) by simp_all
  from p show ?thesis
  proof (cases rule: ProcessTransaction_cases)
    case (failed e)
    then show ?thesis using recordFailed_ok [OF failed(1) t(2)] b t(3)
      by (simp add: processed_def loss_def doubled_def)
  next
    case (executed st st')
    note c = c [OF executed(1,2)]
    then show ?thesis
      by (simp add: processed_def loss_def doubled_def conserves_def executed(3,4) recordSuccessfulTransaction_def
          AddChainEntry_def DidAddChainEntry_def RemovePending_def Let_def)
  next
    case (rejected st st' e)
    note c = c [OF rejected(1,2)] and r = recordFailed_ok [OF rejected(3) t(2)]
    have "0 \<le> flight_weight k (ProducedTxns (State st'))" for k
      using c(1) by (auto simp: conserves_def flight_weight_def intro!: sum_list_nonneg produced_nonneg)
    then show ?thesis using c r t(3,4)
      by (simp add: processed_def loss_def doubled_def conserves_def rejected(4) algebra_simps) (smt (verit))
  qed
qed

section \<open>The network\<close>

text \<open>The partitions, each with its database, and the synthetic transactions in flight.\<close>
record Network =
  parts :: "(Node \<times> Batch) list"
  flight :: "(URL option \<times> TransactionBody) list"

text \<open>The database of a partition after a transaction, and what was put in flight.\<close>
definition process_at :: "nat \<Rightarrow> nat \<Rightarrow> TransactionStatus \<Rightarrow> Transaction \<Rightarrow> Network \<Rightarrow> (Outcome \<times> Network) option" where
  "process_at p sz status tx s = (if p < length (parts s) then
     (let (n, b) = parts s ! p in
        (case ProcessTransaction n sz status tx b of
           Some (Ok out) \<Rightarrow>
             (case setSyntheticOrigin n sz status tx (ProducedTxns (out_state out)) of
                Ok ps \<Rightarrow> Some (out, s \<lparr> parts := (parts s)[p := (n, out_batch out)], flight := flight s @ ps \<rparr>)
              | _ \<Rightarrow> None)
         | _ \<Rightarrow> None)) else None)"

text \<open>
  One step, with what it loses and doubles of each token. A transaction of a user names tokens by
  token URLs, and the faucet holds ACME. A synthetic transaction may be processed at any time and in
  any order, whether it succeeds or fails. Anchors, which carry what was burnt to the issuer of ACME,
  are not modelled.
\<close>
inductive step :: "Network \<Rightarrow> (bytes \<Rightarrow> int) \<Rightarrow> (bytes \<Rightarrow> int) \<Rightarrow> Network \<Rightarrow> bool" where
  user: "parts s ! p = (n, b) \<Longrightarrow> IsUser (body_Type (Body tx)) \<Longrightarrow> tx_ok n b tx
    \<Longrightarrow> process_at p sz status tx s = Some (out, s') \<Longrightarrow> step s (loss n status tx b out) (doubled n status tx b) s'"
| synthetic: "parts s ! p = (n, b) \<Longrightarrow> flight s = xs @ (Some (Principal tx), Body tx) # ys
    \<Longrightarrow> process_at p sz status tx (s \<lparr> flight := xs @ ys \<rparr>) = Some (out, s')
    \<Longrightarrow> step s (loss n status tx b out) (doubled n status tx b) s'"

text \<open>A run, with what was lost and doubled during it.\<close>
inductive run :: "Network \<Rightarrow> (bytes \<Rightarrow> int) \<Rightarrow> (bytes \<Rightarrow> int) \<Rightarrow> Network \<Rightarrow> bool" where
  refl: "run s (\<lambda>k. 0) (\<lambda>k. 0) s"
| step: "run s l d s' \<Longrightarrow> step s' l' d' s'' \<Longrightarrow> run s (\<lambda>k. l k + l' k) (\<lambda>k. d k + d' k) s''"

definition net_ok :: "Network \<Rightarrow> bool" where
  "net_ok s \<longleftrightarrow> (\<forall>(n, b) \<in> set (parts s). store_ok (Main b)) \<and> (\<forall>m \<in> set (flight s). msg_ok m)"

definition net_weight :: "bytes \<Rightarrow> Network \<Rightarrow> int" where
  "net_weight k s = (\<Sum>(n, b) \<leftarrow> parts s. total_weight k (Main b)) + flight_weight k (flight s)"

lemma sum_list_update:
  "p < length xs \<Longrightarrow> sum_list (map f (xs[p := x])) = sum_list (map f xs) + f x - (f (xs ! p) :: int)"
  by (induction xs arbitrary: p) (auto simp: nth_Cons split: nat.splits)

lemma process_at_ok:
  assumes "process_at p sz status tx s = Some (out, s')" "net_ok s" "parts s ! p = (n, b)" "tx_ok n b tx"
  shows "net_ok s' \<and> 0 \<le> loss n status tx b out k \<and> 0 \<le> doubled n status tx b k
    \<and> net_weight k s' + loss n status tx b out k
      = net_weight k s + in_flight k (Some (Principal tx), Body tx) + doubled n status tx b k"
proof -
  obtain ps where r: "p < length (parts s)" "ProcessTransaction n sz status tx b = Some (Ok out)"
      "setSyntheticOrigin n sz status tx (ProducedTxns (out_state out)) = Ok ps"
      "s' = s \<lparr> parts := (parts s)[p := (n, out_batch out)], flight := flight s @ ps \<rparr>"
    using assms(1) by (auto simp: process_at_def assms(3) split: if_splits option.splits result.splits)
  have "(n, b) \<in> set (parts s)" using r(1) assms(3) by (metis nth_mem)
  then have "store_ok (Main b)" using assms(2) by (auto simp: net_ok_def)
  then have q: "processed n status tx b out" by (rule ProcessTransaction_processed [OF r(2) _ assms(4)])
  then have q': "\<forall>p \<in> set (ProducedTxns (out_state out)). produced_ok (Principal tx) p" by (simp add: processed_def)
  note so = setSyntheticOrigin_ok [OF r(3) q']
  have "net_ok s'" using assms(2) q so(1)
    by (auto simp: net_ok_def r(4) processed_def dest!: set_update_subset_insert [THEN subsetD])
  then show ?thesis
    using q [unfolded processed_def, THEN conjunct2, THEN conjunct2, rule_format, of k]
    by (simp add: net_weight_def r(4) sum_list_update [OF r(1)] assms(3) so(2))
qed

lemma step_ok:
  assumes "step s l d s'" "net_ok s"
  shows "net_ok s' \<and> 0 \<le> l k \<and> 0 \<le> d k \<and> net_weight k s' + l k = net_weight k s + d k"
  using assms
proof cases
  case (user p n b tx sz status out)
  then show ?thesis using process_at_ok [OF user(6) assms(2) user(3,5), of k] by (simp add: user_body)
next
  case (synthetic p n b xs tx ys sz status out)
  let ?m = "(Some (Principal tx), Body tx)" and ?s = "s \<lparr> flight := xs @ ys \<rparr>"
  have m: "msg_ok ?m" and n: "net_ok ?s" using assms(2) synthetic(4) by (auto simp: net_ok_def)
  have w: "net_weight k s = net_weight k ?s + in_flight k ?m" by (simp add: net_weight_def synthetic(4))
  have "parts ?s ! p = (n, b)" "tx_ok n b tx" using synthetic(3) m by (simp_all add: tx_ok_def)
  then show ?thesis using process_at_ok [OF synthetic(5) n, of n b k] w by (simp add: synthetic(1,2))
qed

lemma network_run_ok:
  "run s l d s' \<Longrightarrow> net_ok s \<Longrightarrow> net_ok s' \<and> 0 \<le> l k \<and> 0 \<le> d k \<and> net_weight k s' + l k = net_weight k s + d k"
proof (induction rule: run.induct)
  case (step s l d s' l' d' s'')
  then show ?case using step_ok [of s' l' d' s'' k] by simp
qed simp

section \<open>The supply of tokens\<close>

text \<open>What the accounts of the network hold of a token, what its issuer issued, and what was burnt for credits.\<close>
fun balance_of :: "bytes \<Rightarrow> Account \<Rightarrow> int" where
  "balance_of k (TokenAccountOf a) = (if AccountID32 (ta_TokenUrl a) = k then ta_Balance a else 0)"
| "balance_of k (LiteTokenAccountOf a) = (if AccountID32 (lta_TokenUrl a) = k then lta_Balance a else 0)"
| "balance_of k _ = 0"

fun issued_by :: "bytes \<Rightarrow> Account \<Rightarrow> int" where
  "issued_by k (TokenIssuerOf a) = (if AccountID32 (ti_Url a) = k then Issued a else 0)"
| "issued_by k _ = 0"

fun burnt_by :: "bytes \<Rightarrow> Account \<Rightarrow> int" where
  "burnt_by k (SystemLedgerOf l) = (if k = acme then AcmeBurnt l else 0)"
| "burnt_by k _ = 0"

definition over_accounts :: "(Account \<Rightarrow> int) \<Rightarrow> Network \<Rightarrow> int" where
  "over_accounts f s = (\<Sum>(n, b) \<leftarrow> parts s. \<Sum>x \<in> dom (Main b). f (the (Main b x)))"

definition held :: "bytes \<Rightarrow> Network \<Rightarrow> int" where "held k = over_accounts (balance_of k)"
definition issued :: "bytes \<Rightarrow> Network \<Rightarrow> int" where "issued k = over_accounts (issued_by k)"
definition burnt :: "bytes \<Rightarrow> Network \<Rightarrow> int" where "burnt k = over_accounts (burnt_by k)"

lemma net_weight_split:
  "net_weight k s = held k s + burnt k s + flight_weight k (flight s) - issued k s"
proof -
  have w: "weight k a = balance_of k a + burnt_by k a - issued_by k a" for a by (cases a) auto
  have "(\<Sum>(n, b) \<leftarrow> ps. total_weight k (Main b)) =
     (\<Sum>(n, b) \<leftarrow> ps. \<Sum>x \<in> dom (Main b). balance_of k (the (Main b x)))
     + (\<Sum>(n, b) \<leftarrow> ps. \<Sum>x \<in> dom (Main b). burnt_by k (the (Main b x)))
     - (\<Sum>(n, b) \<leftarrow> ps. \<Sum>x \<in> dom (Main b). issued_by k (the (Main b x)))" for ps :: "(Node \<times> Batch) list"
    by (induction ps) (auto simp: total_weight_def w sum.distrib sum_subtractf)
  then show ?thesis by (simp add: net_weight_def held_def issued_def burnt_def over_accounts_def)
qed

text \<open>A network of two partitions: the issuer of a token, and an account to which a deposit is on its way.\<close>
definition sample_node :: "string \<Rightarrow> Node" where
  "sample_node p = \<lparr> Partition = p, IsDirectory = False, Price = 500, Schedule = None, Marshal = (\<lambda>_. []),
     OperatorThreshold = (\<lambda>_. 1), WasProducedByPushedUpdate = False, Faucet = None \<rparr>"

definition sample_url :: "string \<Rightarrow> URL" where
  "sample_url s = new_URL \<lparr> Authority := ''alice.acme'', Path := s \<rparr>"

definition sample_auth :: AccountAuth where
  "sample_auth = \<lparr> Authorities = [\<lparr> ae_Url = sample_url ''/book'', Disabled = False \<rparr>] \<rparr>"

definition sample_store :: "Account \<Rightarrow> Batch" where
  "sample_store a = \<lparr> Main = [AccountID32 (GetUrl a) \<mapsto> a], main_chain = (\<lambda>_. []), directory = (\<lambda>_. []),
     pending = (\<lambda>_. \<lparr> Entries_ids = [] \<rparr>), MajorBlockChain = [], AnchorChain = [] \<rparr>"

definition sample_issuer :: Account where
  "sample_issuer = TokenIssuerOf \<lparr> ti_Url = sample_url ''/coin'', ti_Auth = sample_auth, Symbol = ''COIN'',
     Precision = 8, Properties = None, Issued = 10, SupplyLimit = Some 50 \<rparr>"

definition sample_tokens :: "string \<Rightarrow> int \<Rightarrow> Account" where
  "sample_tokens u n = TokenAccountOf \<lparr> ta_Url = sample_url u, ta_Auth = sample_auth, ta_TokenUrl = sample_url ''/coin'',
     ta_Balance = n \<rparr>"

definition sample_deposit :: "int \<Rightarrow> TransactionBody" where
  "sample_deposit n = SyntheticDepositTokensBody \<lparr> sdt_Origin = \<lparr> Cause = Some \<lparr> tx_url = sample_url ''/savings'', tx_hash = [] \<rparr>,
     so_Initiator = None, FeeRefund = 0 \<rparr>, Token = sample_url ''/coin'', sdt_Amount = n, IsIssuer = False, sdt_IsRefund = False \<rparr>"

definition sample_status :: TransactionStatus where
  "sample_status = \<lparr> ts_TxID = None, Code = None, Error = None, ts_Received = 0, Initiator = None, Signers = [], AnchorSigners = [] \<rparr>"

definition sample_network :: Network where
  "sample_network = \<lparr> parts = [(sample_node ''Apollo'', sample_store sample_issuer),
      (sample_node ''Chandrayaan'', sample_store (sample_tokens ''/tokens'' 7))],
     flight = [(Some (sample_url ''/tokens''), sample_deposit 3)] \<rparr>"

lemmas sample_defs = sample_node_def sample_auth_def sample_store_def sample_issuer_def sample_tokens_def
  sample_deposit_def sample_status_def sample_network_def

lemma sample_facts [simp]:
  "token_url (sample_url ''/coin'')" "URL_Equal (sample_url ''/coin'') (sample_url ''/coin'')"
  "\<not> PrefixOf (PartitionUrl ''Chandrayaan'') (sample_url ''/tokens'')"
  "length (String (sample_url ''/tokens'')) \<le> AccountUrlMaxLength"
  "\<not> AccountUrlMaxLength < length (String (sample_url ''/lite''))"
  by code_simp+

lemma sample_net_ok: "net_ok sample_network"
  by (simp add: net_ok_def sample_defs store_ok_def storable_def)

text \<open>A deposit to a token account that is there.\<close>
lemma deposit_executes:
  assumes "Body tx = SyntheticDepositTokensBody d" "0 \<le> sdt_Amount d" "GetState (Principal tx) b = Some (TokenAccountOf a)"
    "ta_Url a = Principal tx" "Authorities (ta_Auth a) \<noteq> []" "URL_Equal (ta_TokenUrl a) (Token d)"
    "length (String (ta_Url a)) \<le> AccountUrlMaxLength"
  obtains st st' where "LoadStateManager n b (GetState (Principal tx) b) tx status = Ok st" "Execute n tx st = Some (Ok st')"
    "Main (batch st') = (Main b)(AccountID32 (Principal tx) \<mapsto> TokenAccountOf (a \<lparr> ta_Balance := ta_Balance a + sdt_Amount d \<rparr>))"
    "ProducedTxns (State st') = []"
proof -
  let ?st = "NewStateManager (Partition n) (Price n) b (Some (TokenAccountOf a)) tx"
  let ?a = "TokenAccountOf (a \<lparr> ta_Balance := ta_Balance a + sdt_Amount d \<rparr>)"
  have "Execute n tx ?st = Some (Update_accounts [?a] ?st)"
    using assms by (simp add: Execute_def SyntheticDepositTokens_Validate_def deposit_account_def NewStateManager_def
        TokenAccount_CreditTokens_def)
  moreover obtain st' where u: "Update_accounts [?a] ?st = Ok st'"
    using assms by (simp add: Update_accounts_def NewStateManager_def Let_def IsType_defs PutState_def)
  moreover have "LoadStateManager n b (GetState (Principal tx) b) tx status = Ok ?st"
    using assms by (simp add: LoadStateManager_def IsType_defs)
  moreover have "Main (batch st') = (Main b)(AccountID32 (Principal tx) \<mapsto> ?a)" "ProducedTxns (State st') = []"
    using Update_ok [OF u] assms by (simp_all add: NewStateManager_def new_state_def)
  ultimately show ?thesis using that by metis
qed

text \<open>
  C17. On a partition other than the directory, a deposit to a token account of the partition
  itself is reported as failed after the account was credited, and the same amount is sent back:
  the tokens exist twice.
\<close>
theorem network_deposit_doubled:
  assumes "Body tx = SyntheticDepositTokensBody d" "0 \<le> sdt_Amount d" "\<not> sdt_IsRefund d" "\<not> IsIssuer d"
    "Cause (sdt_Origin d) = Some c" "GetState (Principal tx) b = Some (TokenAccountOf a)"
    "ta_Url a = Principal tx" "Authorities (ta_Auth a) \<noteq> []" "URL_Equal (ta_TokenUrl a) (Token d)"
    "length (String (ta_Url a)) \<le> AccountUrlMaxLength" "PrefixOf (PartitionUrl (Partition n)) (ta_Url a)"
    "\<not> IsDirectory n" "\<not> WasProducedByPushedUpdate n"
  shows "\<exists>out. ProcessTransaction n sz status tx b = Some (Ok out) \<and> out_error out \<noteq> None
    \<and> GetState (Principal tx) (out_batch out) = Some (TokenAccountOf (a \<lparr> ta_Balance := ta_Balance a + sdt_Amount d \<rparr>))
    \<and> (Some (tx_url c), SyntheticDepositTokensBody \<lparr> sdt_Origin = new_origin, Token = Token d,
         sdt_Amount = sdt_Amount d, IsIssuer = False, sdt_IsRefund = True \<rparr>) \<in> set (ProducedTxns (out_state out))"
proof -
  obtain st st' where r: "LoadStateManager n b (GetState (Principal tx) b) tx status = Ok st" "Execute n tx st = Some (Ok st')"
    "Main (batch st') = (Main b)(AccountID32 (Principal tx) \<mapsto> TokenAccountOf (a \<lparr> ta_Balance := ta_Balance a + sdt_Amount d \<rparr>))"
    by (rule deposit_executes [OF assms(1,2,6-10)])
  have "processNetworkAccountUpdates n tx (map_option GetUrl (GetState (Principal tx) b)) x y
      = Err (Coded StatusBadRequest ''cannot be updated directly'')" for x y
    using assms by (simp add: processNetworkAccountUpdates_def pushUpdate_def IsType_defs)
  then have "ProcessTransaction n sz status tx b = Some (recordFailedTransaction n sz status tx
      (Coded StatusBadRequest ''cannot be updated directly'') (batch st'))"
    using r(1,2) assms(6) by (simp add: ProcessTransaction_def)
  then show ?thesis using assms(1-5) r(3)
    by (simp add: recordFailedTransaction_def DidFail_def SyntheticDepositTokens_DidFail_def IsType_defs
        RemovePending_def GetState_def Let_def)
qed

text \<open>A deposit that succeeds in the network above.\<close>
lemma sample_step:
  "\<exists>s' n b. step sample_network (\<lambda>k. 0) (\<lambda>k. 0) s' \<and> held (AccountID32 (sample_url ''/coin'')) s' = 10
    \<and> (n, b) \<in> set (parts s') \<and> Main b (AccountID32 (sample_url ''/tokens'')) = Some (sample_tokens ''/tokens'' 10)"
proof -
  let ?tx = "\<lparr> Principal = sample_url ''/tokens'', Body = sample_deposit 3, tx_GetHash = [] \<rparr>"
  let ?n = "sample_node ''Chandrayaan''" and ?b = "sample_store (sample_tokens ''/tokens'' 7)"
  let ?a = "\<lparr> ta_Url = sample_url ''/tokens'', ta_Auth = sample_auth, ta_TokenUrl = sample_url ''/coin'', ta_Balance = 7 \<rparr>"
  obtain d where d: "sample_deposit 3 = SyntheticDepositTokensBody d" "sdt_Amount d = 3" "Token d = sample_url ''/coin''"
    by (simp add: sample_deposit_def)
  have g: "GetState (Principal ?tx) ?b = Some (TokenAccountOf ?a)" by (simp add: sample_defs GetState_def)
  then have o': "processNetworkAccountUpdates ?n ?tx (map_option GetUrl (GetState (Principal ?tx) ?b)) x y = Ok ()" for x y
    by (simp add: processNetworkAccountUpdates_def sample_node_def)
  obtain st st' where r: "LoadStateManager ?n ?b (GetState (Principal ?tx) ?b) ?tx sample_status = Ok st"
    "Execute ?n ?tx st = Some (Ok st')" "ProducedTxns (State st') = []"
    "Main (batch st') = (Main ?b)(AccountID32 (Principal ?tx) \<mapsto> TokenAccountOf (?a \<lparr> ta_Balance := ta_Balance ?a + sdt_Amount d \<rparr>))"
    by (rule deposit_executes [of ?tx d ?b ?a ?n sample_status]) (use d g in \<open>simp_all add: sample_auth_def\<close>)
  have m: "Main (batch st') = [AccountID32 (sample_url ''/tokens'') \<mapsto> sample_tokens ''/tokens'' 10]"
    using r(4) d(2) by (simp add: sample_store_def sample_tokens_def)
  let ?out = "recordSuccessfulTransaction ?tx st'"
  have p: "ProcessTransaction ?n 1 sample_status ?tx ?b = Some (Ok ?out)" and n: "dropped ?n sample_status ?tx ?b = None"
    using r(1,2) o' g by (simp_all add: ProcessTransaction_def dropped_def)
  have out: "ProducedTxns (out_state ?out) = []" "out_error ?out = None"
    "Main (out_batch ?out) = [AccountID32 (sample_url ''/tokens'') \<mapsto> sample_tokens ''/tokens'' 10]"
    by (simp_all add: recordSuccessfulTransaction_def AddChainEntry_def DidAddChainEntry_def RemovePending_def Let_def r(3) m)
  let ?s = "\<lparr> parts = [(sample_node ''Apollo'', sample_store sample_issuer), (?n, out_batch ?out)], flight = [] \<rparr>"
  have "process_at 1 1 sample_status ?tx (sample_network \<lparr> flight := [] @ [] \<rparr>) = Some (?out, ?s)"
    using p out(1) by (simp add: process_at_def sample_network_def setSyntheticOrigin_def)
  then have "step sample_network (loss ?n sample_status ?tx ?b ?out) (doubled ?n sample_status ?tx ?b) ?s"
    by (intro step.synthetic [of _ 1 _ _ "[]" _ "[]"]) (simp_all add: sample_network_def)
  moreover have "loss ?n sample_status ?tx ?b ?out = (\<lambda>k. 0)" "doubled ?n sample_status ?tx ?b = (\<lambda>k. 0)"
    using n out(2) by (auto simp: loss_def doubled_def)
  moreover have "held (AccountID32 (sample_url ''/coin'')) ?s = 10"
    by (simp add: held_def over_accounts_def out(3)) (simp add: sample_defs)
  ultimately show ?thesis using out(3)
    by (intro exI [of _ ?s] exI [of _ ?n] exI [of _ "out_batch ?out"]) simp
qed

lemma sample_run:
  "\<exists>s' n b. run sample_network (\<lambda>k. 0) (\<lambda>k. 0) s' \<and> held (AccountID32 (sample_url ''/coin'')) s' = 10
    \<and> (n, b) \<in> set (parts s') \<and> Main b (AccountID32 (sample_url ''/tokens'')) = Some (sample_tokens ''/tokens'' 10)"
proof -
  have "run sample_network (\<lambda>k. 0) (\<lambda>k. 0) s'" if "step sample_network (\<lambda>k. 0) (\<lambda>k. 0) s'" for s'
    using run.step [OF run.refl that] by simp
  then show ?thesis using sample_step by blast
qed

lemma sample_supply:
  "held (AccountID32 (sample_url ''/coin'')) sample_network + burnt (AccountID32 (sample_url ''/coin'')) sample_network
    + flight_weight (AccountID32 (sample_url ''/coin'')) (flight sample_network)
    = issued (AccountID32 (sample_url ''/coin'')) sample_network"
  by (simp add: held_def burnt_def issued_def over_accounts_def sample_defs)

theorem network_deposit_doubled_witness:
  "\<exists>tx b out. ProcessTransaction (sample_node ''Chandrayaan'') 1 sample_status tx b = Some (Ok out) \<and> out_error out \<noteq> None
    \<and> GetState (Principal tx) b \<noteq> GetState (Principal tx) (out_batch out) \<and> ProducedTxns (out_state out) \<noteq> []"
proof -
  let ?u = "PartitionUrl ''Chandrayaan'' \<lparr> Path := ''/tokens'' \<rparr>"
  let ?a = "\<lparr> ta_Url = ?u, ta_Auth = sample_auth, ta_TokenUrl = sample_url ''/coin'', ta_Balance = 7 \<rparr>"
  let ?tx = "\<lparr> Principal = ?u, Body = sample_deposit 3, tx_GetHash = [] \<rparr>" and ?b = "sample_store (TokenAccountOf ?a)"
  have u: "PrefixOf (PartitionUrl ''Chandrayaan'') ?u" "length (String ?u) \<le> AccountUrlMaxLength" by code_simp+
  have g: "GetState ?u ?b = Some (TokenAccountOf ?a)" by (simp add: sample_store_def GetState_def)
  obtain d where d: "Body ?tx = SyntheticDepositTokensBody d" "0 \<le> sdt_Amount d" "\<not> sdt_IsRefund d" "\<not> IsIssuer d"
      "Cause (sdt_Origin d) = Some \<lparr> tx_url = sample_url ''/savings'', tx_hash = [] \<rparr>" "Token d = sample_url ''/coin''" "sdt_Amount d = 3"
    by (simp add: sample_deposit_def)
  obtain out where "ProcessTransaction (sample_node ''Chandrayaan'') 1 sample_status ?tx ?b = Some (Ok out)" "out_error out \<noteq> None"
      "GetState ?u (out_batch out) = Some (TokenAccountOf (?a \<lparr> ta_Balance := 7 + 3 \<rparr>))" "ProducedTxns (out_state out) \<noteq> []"
    using network_deposit_doubled [OF d(1-5), of ?b ?a "sample_node ''Chandrayaan''" 1 sample_status] d(6,7) u g
    by (fastforce simp: sample_auth_def sample_node_def)
  then show ?thesis using g by fastforce
qed

text \<open>
  C1. Conservation of tokens. Take any run, between any number of partitions, of transactions of users
  that the modelled executors handle, and of synthetic transactions, delivered in any order, succeeding
  or failing. It starts in a well-formed state (as for \<open>accounts_well_formed\<close>), in which what is held,
  burnt and in flight of a token is what its issuer has issued; the URLs by which users name tokens
  have only an ASCII authority and a path that needs no escaping; and the faucet, where there is one,
  holds ACME. Then at the end what is held, burnt, in flight and lost of the token is what is issued
  and doubled of it. What is lost is what refunds and burns that failed carried, and what was dropped
  by transactions that failed after their changes were committed; what is doubled is what such
  transactions carried themselves. Neither is negative.
\<close>
theorem supply_conserved:
  assumes "run s l d s'" "net_ok s" "held k s + burnt k s + flight_weight k (flight s) = issued k s"
  shows "held k s' + burnt k s' + flight_weight k (flight s') + l k = issued k s' + d k \<and> 0 \<le> l k \<and> 0 \<le> d k"
  using network_run_ok [OF assms(1,2), of k] assms(3) by (simp add: net_weight_split algebra_simps)

theorem supply_conserved_witness:
  "\<exists>s'. run sample_network (\<lambda>k. 0) (\<lambda>k. 0) s' \<and> held (AccountID32 (sample_url ''/coin'')) s' = 10
    \<and> 10 + burnt (AccountID32 (sample_url ''/coin'')) s' + flight_weight (AccountID32 (sample_url ''/coin'')) (flight s')
      = issued (AccountID32 (sample_url ''/coin'')) s'"
  using sample_run supply_conserved [OF _ sample_net_ok sample_supply] by fastforce

text \<open>
  C6. Well-formed accounts. In every state that is reached by such a run from a well-formed state,
  every account is stored under the ID of its own URL; no token account has a negative balance; no
  issuer has issued more than its supply limit; and every account that has authorities has at least
  one. Well-formed is a state in which the accounts satisfy this and name tokens as the transactions
  of the run do, and in which what is in flight is what executors produce: deposits, burns and credits
  of amounts that are not negative, a deposit with its cause, which is the issuer when it says so, and
  new accounts that hold nothing.
\<close>
theorem accounts_well_formed:
  assumes "run s l d s'" "net_ok s" "(n, b) \<in> set (parts s')" "Main b x = Some a"
  shows "AccountID32 (GetUrl a) = x
    \<and> (case as_tokens a of Some t \<Rightarrow> 0 \<le> TokenBalance t | None \<Rightarrow> True)
    \<and> (case a of TokenIssuerOf i \<Rightarrow> (case SupplyLimit i of Some m \<Rightarrow> Issued i \<le> m | None \<Rightarrow> True) | _ \<Rightarrow> True)
    \<and> (case GetAuth a of Some h \<Rightarrow> Authorities h \<noteq> [] | None \<Rightarrow> True)"
proof -
  have "net_ok s'" using network_run_ok [OF assms(1,2)] by blast
  then have "store_ok (Main b)" using assms(3) by (auto simp: net_ok_def)
  note s = store_okD [OF this assms(4)]
  then show ?thesis by (cases a) (simp_all add: storable_def split: option.splits)
qed

theorem accounts_well_formed_witness:
  "\<exists>s' n b. run sample_network (\<lambda>k. 0) (\<lambda>k. 0) s' \<and> (n, b) \<in> set (parts s')
    \<and> Main b (AccountID32 (sample_url ''/tokens'')) = Some (sample_tokens ''/tokens'' 10)
    \<and> AccountID32 (GetUrl (sample_tokens ''/tokens'' 10)) = AccountID32 (sample_url ''/tokens'')
    \<and> (case as_tokens (sample_tokens ''/tokens'' 10) of Some t \<Rightarrow> 0 \<le> TokenBalance t | None \<Rightarrow> True)"
proof -
  obtain s' n b where r: "run sample_network (\<lambda>k. 0) (\<lambda>k. 0) s'" "(n, b) \<in> set (parts s')"
      "Main b (AccountID32 (sample_url ''/tokens'')) = Some (sample_tokens ''/tokens'' 10)"
    using sample_run by blast
  from accounts_well_formed [OF r(1) sample_net_ok r(2,3)] r show ?thesis by blast
qed

text \<open>Tokens leave an account only when it is not locked.\<close>
lemma SendTokens_unlocked:
  assumes "SendTokens_Validate tx st = Ok st'" "Origin st = Some (LiteTokenAccountOf a)" "\<not> Pretend st" "LockHeight a \<noteq> 0"
  shows "MajorBlockChain (batch st) \<noteq> [] \<and> LockHeight a \<le> last (MajorBlockChain (batch st))"
proof -
  from SendTokens_cases [OF assms(1)] obtain to t n t' st1 where
    r: "Origin st = Some (of_tokens t)" "DebitTokens (Some n) t = (t', True)" "Update_accounts [of_tokens t'] st = Ok st1"
      "send_outputs (GetTokenUrl t') to [] st1 = Ok st'"
    and l: "\<And>h. GetLockHeight t' = Some h \<Longrightarrow> h = 0 \<or>
       (\<exists>i. LoadIndexEntryFromEnd (MajorBlockChain (batch st')) 1 = Ok (Some i) \<and> h \<le> i)"
    by metis
  have "t = WithLiteTokens a" using r(1) assms(2) by (cases t) auto
  then have "GetLockHeight t' = Some (LockHeight a)"
    using r(2) by (auto simp: LiteTokenAccount_DebitTokens_def LiteTokenAccount_CanDebitTokens_def split: if_splits)
  moreover have "MajorBlockChain (batch st') = MajorBlockChain (batch st)"
    using send_outputs_ok [OF r(4)] Update_ok [OF r(3) assms(3)] by (simp add: same_frame_def)
  ultimately show ?thesis using l [of "LockHeight a"] assms(4)
    by (auto simp: LoadIndexEntryFromEnd_def last_conv_nth split: if_splits)
qed

text \<open>
  C18. A locked lite token account. While the last major block is before the lock height of the
  account, sending tokens from it fails, and every account stays as it was.
\<close>
theorem SendTokens_locked:
  assumes "ProcessTransaction n sz status tx b = Some (Ok out)" "Body tx = SendTokensBody to"
    "GetState (Principal tx) b = Some (LiteTokenAccountOf a)" "LockHeight a \<noteq> 0"
    "MajorBlockChain b = [] \<or> last (MajorBlockChain b) < LockHeight a"
  shows "out_error out \<noteq> None \<and> Main (out_batch out) = Main b"
proof -
  have u: "IsUser (body_Type (Body tx))" by (simp add: assms(2) IsType_defs)
  have st: "batch st = b \<and> Origin st = Some (LiteTokenAccountOf a) \<and> \<not> Pretend st"
    if "LoadStateManager n b (Some (LiteTokenAccountOf a)) tx status = Ok st" for st
    using that by (auto simp: LoadStateManager_def NewStateManager_def Let_def split: if_splits option.splits Account.splits)
  have "Execute n tx st \<noteq> Some (Ok st')" if "LoadStateManager n b (Some (LiteTokenAccountOf a)) tx status = Ok st" for st st'
    using SendTokens_unlocked [of tx st st' a] st [OF that] assms(2,4,5) by (auto simp: Execute_def)
  then obtain e where "recordFailedTransaction n sz status tx e b = Ok out"
    using assms(1,3) unfolding ProcessTransaction_def Let_def by (auto split: if_splits result.splits option.splits)
  then show ?thesis using recordFailed_ok(1,2) u by blast
qed

definition sample_lite :: LiteTokenAccount where
  "sample_lite = \<lparr> lta_Url = sample_url ''/lite'', lta_TokenUrl = sample_url ''/coin'', lta_Balance = 7, LockHeight = 5 \<rparr>"

definition sample_locked :: Batch where
  "sample_locked = \<lparr> Main = [AccountID32 (sample_url ''/page'') \<mapsto> LiteIdentityOf \<lparr> li_Url = sample_url ''/page'',
       li_CreditBalance = 0, li_LastUsedOn = 0 \<rparr>, AccountID32 (sample_url ''/lite'') \<mapsto> LiteTokenAccountOf sample_lite],
     main_chain = (\<lambda>_. []), directory = (\<lambda>_. []), pending = (\<lambda>_. \<lparr> Entries_ids = [] \<rparr>), MajorBlockChain = [3, 4], AnchorChain = [] \<rparr>"

theorem SendTokens_locked_witness:
  "\<exists>tx status out. ProcessTransaction (sample_node ''Apollo'') 1 status tx sample_locked = Some (Ok out)
    \<and> Body tx = SendTokensBody [\<lparr> tr_Url = Some (sample_url ''/tokens''), tr_Amount = 2 \<rparr>]
    \<and> out_error out \<noteq> None \<and> Main (out_batch out) = Main sample_locked"
proof -
  let ?to = "[\<lparr> tr_Url = Some (sample_url ''/tokens''), tr_Amount = 2 \<rparr>]"
  let ?tx = "\<lparr> Principal = sample_url ''/lite'', Body = SendTokensBody ?to, tx_GetHash = [] \<rparr>"
  let ?status = "sample_status \<lparr> Initiator := Some (sample_url ''/page'') \<rparr>" and ?n = "sample_node ''Apollo''"
  have g: "GetState (Principal ?tx) sample_locked = Some (LiteTokenAccountOf sample_lite)"
    by (simp add: sample_locked_def GetState_def)
  have "\<exists>out. recordFailedTransaction ?n 1 ?status ?tx e sample_locked = Ok out" for e
    by (simp add: recordFailedTransaction_def DidFail_def ComputeTransactionFee_def IsType_defs sample_status_def
        TransactionSizeMax_def Let_def)
  moreover have "\<exists>e. ProcessTransaction ?n 1 ?status ?tx sample_locked = Some (recordFailedTransaction ?n 1 ?status ?tx e sample_locked)"
    using g by (cases "AccountID32 (sample_url ''/page'') = AccountID32 (sample_url ''/lite'')")
      (auto simp: ProcessTransaction_def LoadStateManager_def Execute_def SendTokens_Validate_def NewStateManager_def
        sample_status_def sample_lite_def sample_locked_def GetState_def IsType_defs LiteTokenAccount_DebitTokens_def
        LiteTokenAccount_CanDebitTokens_def Update_accounts_def PutState_def Submit_def LoadIndexEntryFromEnd_def Let_def)
  ultimately obtain out where "ProcessTransaction ?n 1 ?status ?tx sample_locked = Some (Ok out)" by metis
  then show ?thesis using SendTokens_locked [OF _ _ g, of ?n 1 ?status out ?to]
    by (force simp: sample_locked_def sample_lite_def)
qed

end
