(* ===== verification/Exchange.thy ===== *)
theory Exchange
  imports Process
begin

text \<open>
  The exchange of synthetic transactions between partitions (\<open>protocol/ledger.go\<close>,
  \<open>protocol/system.go\<close> and the sequencing of \<open>internal/block\<close>). The ledger keeps, per source, the
  numbers of the last transaction received and delivered and the IDs of those in between; a
  transaction is executed only when it is the next of its source. Transactions are delivered exactly
  once and in order, whatever the order in which they arrive.
\<close>

section \<open>The ledger of one source\<close>

record TransactionExchangeLedger =
  tel_Url :: URL
  Produced :: "64 word"
  Acknowledged :: "64 word"
  Received :: "64 word"
  Delivered :: "64 word"
  tel_Pending :: "TxID option list"

text \<open>Memory is unlimited: the slice of pending transactions can have any length.\<close>
definition TransactionExchangeLedger_Add ::
  "bool \<Rightarrow> 64 word \<Rightarrow> TxID \<Rightarrow> TransactionExchangeLedger \<Rightarrow> (TransactionExchangeLedger \<times> bool) result" where
  "TransactionExchangeLedger_Add delivered sequenceNumber txid s =
     (let dirty = sequenceNumber > Received s; s = (if dirty then s \<lparr> Received := sequenceNumber \<rparr> else s) in
      if delivered then
        let (s, dirty) = (if sequenceNumber > Delivered s then (s \<lparr> Delivered := sequenceNumber \<rparr>, True) else (s, dirty));
            (s, dirty) = (if length (tel_Pending s) > 0 then (s \<lparr> tel_Pending := drop 1 (tel_Pending s) \<rparr>, True) else (s, dirty))
        in Ok (s, dirty)
      else
        let n = Received s - Delivered s - of_nat (length (tel_Pending s));
            (s, dirty) = (if n > 0 then (s \<lparr> tel_Pending := tel_Pending s @ replicate (unat n) None \<rparr>, True) else (s, dirty))
        in if sequenceNumber \<le> Delivered s then Panic ''already delivered''
        else let i = unat (sequenceNumber - Delivered s - 1) in
        if i \<ge> length (tel_Pending s) then Panic ''index out of range''
        else if tel_Pending s ! i = None then Ok (s \<lparr> tel_Pending := (tel_Pending s)[i := Some txid] \<rparr>, True)
        else Ok (s, dirty))"

definition TransactionExchangeLedger_Get :: "64 word \<Rightarrow> TransactionExchangeLedger \<Rightarrow> TxID option result" where
  "TransactionExchangeLedger_Get sequenceNumber s =
     (if sequenceNumber \<le> Delivered s \<or> sequenceNumber > Received s then Ok None
      else let i = unat (sequenceNumber - Delivered s - 1) in
      if i \<ge> length (tel_Pending s) then Panic ''index out of range'' else Ok (tel_Pending s ! i))"

section \<open>The ledger of all sources\<close>

definition new_exchange :: "URL \<Rightarrow> TransactionExchangeLedger" where
  "new_exchange u = \<lparr> tel_Url = u, Produced = 0, Acknowledged = 0, Received = 0, Delivered = 0, tel_Pending = [] \<rparr>"

text \<open>The slice with the entry of the partition, and the place of the entry.\<close>
definition SyntheticLedger_Partition :: "URL \<Rightarrow> TransactionExchangeLedger list \<Rightarrow> TransactionExchangeLedger list \<times> nat" where
  "SyntheticLedger_Partition u ex =
     (let (l, i, create) = BinaryInsert (new_exchange new_URL) ex (\<lambda>entry. URL_Compare (tel_Url entry) u)
      in if create then (l[i := new_exchange u], i) else (l, i))"

section \<open>Sequencing\<close>

text \<open>
  A synthetic transaction with what its status records of it: where it comes from, its number, and
  the anchor of its proof. The delivery and the status have the source and the number from the
  same signature of the partition (\<^verbatim>\<open>LoadSyntheticMetadata\<close>), so one record stands for both.
\<close>
record Delivery =
  dl_Transaction :: Transaction
  SourceNetwork :: URL
  SequenceNumber :: "64 word"
  ProofAnchor :: "bytes option"
  GotDirectoryReceipt :: bool

definition dl_ID :: "Delivery \<Rightarrow> TxID" where
  "dl_ID d = WithTxID (Principal (dl_Transaction d)) (tx_GetHash (dl_Transaction d))"

text \<open>
  What the database holds of the exchange: the ledger and the transactions received. The sources and
  numbers of the transactions delivered are kept to state what was done.
\<close>
record ExchangeState =
  Exchange :: "TransactionExchangeLedger list"
  received :: "TxID \<Rightarrow> Delivery option"
  delivered :: "(string \<times> 64 word) list"

text \<open>\<^term>\<open>anchors\<close> is the chain of the directory's anchors, \<^term>\<open>account\<close> the principal of the transaction.\<close>
definition synthTransactionIsReady ::
  "bytes list \<Rightarrow> TransactionExchangeLedger list \<Rightarrow> Delivery \<Rightarrow> Account option \<Rightarrow> bool result" where
  "synthTransactionIsReady anchors ledger d account =
     (if ProofAnchor d = None \<or> \<not> GotDirectoryReceipt d then Ok False
      else if the (ProofAnchor d) \<notin> set anchors then Ok False
      else let (l, i) = SyntheticLedger_Partition (SourceNetwork d) ledger; partitionLedger = l ! i in
      if SequenceNumber d \<le> Delivered partitionLedger
      then Err (Coded StatusDelivered ''synthetic transaction has been delivered'')
      else if Delivered partitionLedger + 1 \<noteq> SequenceNumber d then Ok False
      else if account \<noteq> None then Ok True
      else if \<not> AllowMissingPrincipal (dl_Transaction d) then Err (Coded StatusNotFound ''missing principal'')
      else Ok True)"

text \<open>The next transaction of the source is returned when it has been received.\<close>
definition recordTransaction :: "bool \<Rightarrow> Delivery \<Rightarrow> ExchangeState \<Rightarrow> (ExchangeState \<times> TxID option) result" where
  "recordTransaction isPending d st =
     (let st = st \<lparr> received := (received st)(dl_ID d \<mapsto> d) \<rparr>;
          (l, i) = SyntheticLedger_Partition (SourceNetwork d) (Exchange st); partLedger = l ! i in
      if isPending \<and> SequenceNumber d \<le> Delivered partLedger
      then Err (Coded StatusFatalError ''synthetic transactions executed out of order'')
      else bind_result (TransactionExchangeLedger_Add (\<not> isPending) (SequenceNumber d) (dl_ID d) partLedger) (\<lambda>(partLedger, dirty).
        let st = (if dirty then st \<lparr> Exchange := l[i := partLedger] \<rparr> else st);
            st = (if isPending then st
              else st \<lparr> delivered := delivered st @ [(ToLower (String (SourceNetwork d)), SequenceNumber d)] \<rparr>)
        in bind_result (TransactionExchangeLedger_Get (SequenceNumber d + 1) partLedger) (\<lambda>next. Ok (st, next))))"

text \<open>
  A transaction that is not ready is recorded as pending; one that is ready is executed, and
  recorded as delivered whether it succeeds or fails.
\<close>
definition ProcessSynthetic ::
  "bytes list \<Rightarrow> Account option \<Rightarrow> Delivery \<Rightarrow> ExchangeState \<Rightarrow> (ExchangeState \<times> TxID option) result" where
  "ProcessSynthetic anchors account d st =
     (case synthTransactionIsReady anchors (Exchange st) d account of
        Err (Coded StatusDelivered _) \<Rightarrow> Ok (st, None)
      | Err e \<Rightarrow> recordTransaction False d st
      | Panic p \<Rightarrow> Panic p
      | Ok ready \<Rightarrow> recordTransaction (\<not> ready) d st)"

text \<open>
  The loop that processes the transactions that follow the one that was submitted. Of
  \<^verbatim>\<open>executeEnvelope\<close> this is the part that sequences: its signatures, the routing of what the
  transaction produced and their errors are left out. A transaction whose status says that it was
  delivered is returned before it is processed; here it is refused by its number, with the same effect.
\<close>
partial_function (option) additional ::
  "bytes list \<Rightarrow> (URL \<Rightarrow> Account option) \<Rightarrow> TxID option \<Rightarrow> ExchangeState \<Rightarrow> ExchangeState result option" where
  "additional anchors principals next st = (case next of None \<Rightarrow> Some (Ok st)
     | Some txid \<Rightarrow> (case received st txid of
         None \<Rightarrow> Some (Err (Coded StatusNotFound ''transaction not found''))
       | Some d \<Rightarrow> (case ProcessSynthetic anchors (principals (Principal (dl_Transaction d))) d st of
           Ok (st, next) \<Rightarrow> additional anchors principals next st
         | Err e \<Rightarrow> Some (Err e)
         | Panic p \<Rightarrow> Some (Panic p))))"

definition ExecuteEnvelope ::
  "bytes list \<Rightarrow> (URL \<Rightarrow> Account option) \<Rightarrow> Delivery \<Rightarrow> ExchangeState \<Rightarrow> ExchangeState result option" where
  "ExecuteEnvelope anchors principals d st =
     (case ProcessSynthetic anchors (principals (Principal (dl_Transaction d))) d st of
        Ok (st, next) \<Rightarrow> additional anchors principals next st
      | Err e \<Rightarrow> Some (Err e)
      | Panic p \<Rightarrow> Some (Panic p))"

section \<open>Invariants\<close>

text \<open>There is a place for every transaction received and not delivered.\<close>
definition exchange_inv :: "TransactionExchangeLedger \<Rightarrow> bool" where
  "exchange_inv l \<longleftrightarrow> Delivered l \<le> Received l \<and> length (tel_Pending l) = unat (Received l) - unat (Delivered l)"

lemma unat_pred: "(d :: 64 word) < q \<Longrightarrow> unat (q - d - 1) = unat q - unat d - 1"
  using unat_sub [of d q] unat_minus_one [of "q - d"] by auto

lemma unat_next: "(d :: 64 word) < d + 1 \<Longrightarrow> unat (d + 1) = Suc (unat d)"
proof -
  assume "d < d + 1"
  then have "1 + d \<noteq> 0" by (auto simp: add.commute)
  then show ?thesis using unatSuc [of d] by (simp add: add.commute)
qed

lemma less_next: "(d :: 64 word) < r \<Longrightarrow> d < d + 1 \<and> d + 1 \<le> r"
  by unat_arith

lemma next_nonzero: "(d :: 64 word) + 1 \<noteq> 0 \<Longrightarrow> d < d + 1"
  by unat_arith

lemma pred_less: "(d :: 64 word) < q + 1 \<Longrightarrow> q < q + 1"
  by unat_arith

lemma Add_pending:
  assumes "exchange_inv l" "Delivered l < q"
  obtains l' dirty where "TransactionExchangeLedger_Add False q t l = Ok (l', dirty)" "exchange_inv l'" "\<not> dirty \<Longrightarrow> l' = l"
    "tel_Url l' = tel_Url l" "Delivered l' = Delivered l" "Received l' = max (Received l) q"
    "\<And>i u. i < length (tel_Pending l') \<Longrightarrow> tel_Pending l' ! i = Some u \<Longrightarrow>
       i < length (tel_Pending l) \<and> tel_Pending l ! i = Some u \<or> u = t \<and> i = unat (q - Delivered l - 1)"
    "\<exists>u. tel_Pending l' ! unat (q - Delivered l - 1) = Some u"
    "\<And>i u. i < length (tel_Pending l) \<Longrightarrow> tel_Pending l ! i = Some u \<Longrightarrow> tel_Pending l' ! i = Some u"
proof -
  let ?R = "max (Received l) q" and ?i = "unat (q - Delivered l - 1)"
  let ?n = "?R - Delivered l - of_nat (length (tel_Pending l))"
  define ps where "ps = tel_Pending l @ replicate (unat ?n) None"
  define l' where "l' = l \<lparr> Received := ?R, tel_Pending := (if ps ! ?i = None then ps[?i := Some t] else ps) \<rparr>"
  have "length (tel_Pending l) = unat (Received l - Delivered l)" using assms(1) by (simp add: exchange_inv_def unat_sub)
  then have n0: "?n = ?R - Received l" by simp
  have n: "unat ?n = unat ?R - unat (Received l)" unfolding n0 by (simp add: unat_sub)
  have len: "length ps = unat ?R - unat (Delivered l)"
    using assms(1) unfolding ps_def length_append length_replicate n by (auto simp: exchange_inv_def max_def word_le_nat_alt)
  have i: "?i < length ps" using unat_pred [OF assms(2)] assms(2) by (auto simp: len max_def word_less_nat_alt word_le_nat_alt)
  have r: "(if Received l < q then l \<lparr> Received := q \<rparr> else l) = l \<lparr> Received := ?R \<rparr>" by (auto simp: max_def)
  define dirty where "dirty \<longleftrightarrow> ps ! ?i = None \<or> 0 < ?n \<or> Received l < q"
  have "TransactionExchangeLedger_Add False q t l = Ok (l', dirty)"
  proof (cases "0 < ?n")
    case True
    then show ?thesis using assms(2) i
      by (auto simp: TransactionExchangeLedger_Add_def Let_def r l'_def dirty_def not_le simp flip: ps_def)
  next
    case False
    then have "ps = tel_Pending l" by (simp add: ps_def word_gt_0)
    then show ?thesis using assms(2) i False
      by (auto simp: TransactionExchangeLedger_Add_def Let_def r l'_def dirty_def not_le simp flip: ps_def)
  qed
  moreover have "l' = l" if "\<not> dirty" using that by (auto simp: dirty_def l'_def ps_def max_def word_gt_0)
  moreover have "exchange_inv l'" using len assms by (auto simp: l'_def exchange_inv_def max_def)
  moreover have "i < length (tel_Pending l) \<and> tel_Pending l ! i = Some u \<or> u = t \<and> i = ?i"
    if "i < length (tel_Pending l')" "tel_Pending l' ! i = Some u" for i u
    using that i by (auto simp: l'_def ps_def nth_append nth_list_update split: if_splits)
  moreover have "\<exists>u. tel_Pending l' ! ?i = Some u" using i by (auto simp: l'_def)
  moreover have "tel_Pending l' ! i = Some u" if "i < length (tel_Pending l)" "tel_Pending l ! i = Some u" for i u
    using that i by (auto simp: l'_def ps_def nth_append nth_list_update)
  ultimately show ?thesis using that [of l' dirty] by (simp add: l'_def)
qed

lemma Add_delivered:
  assumes "exchange_inv l" "Delivered l < q" "q = Delivered l + 1"
  obtains l' where "TransactionExchangeLedger_Add True q t l = Ok (l', True)" "exchange_inv l'" "tel_Url l' = tel_Url l"
    "Delivered l' = q" "Received l' = max (Received l) q" "tel_Pending l' = drop 1 (tel_Pending l)"
proof -
  let ?l = "l \<lparr> Received := max (Received l) q, Delivered := q, tel_Pending := drop 1 (tel_Pending l) \<rparr>"
  have "TransactionExchangeLedger_Add True q t l = Ok (?l, True)"
    using assms(1,2) by (auto simp: TransactionExchangeLedger_Add_def Let_def max_def not_less split: if_splits)
  moreover have "unat q = Suc (unat (Delivered l))" using unat_next assms(2,3) by simp
  then have "exchange_inv ?l" using assms(1) by (auto simp: exchange_inv_def max_def word_le_nat_alt)
  ultimately show ?thesis using that [of ?l] by simp
qed

lemma Get_ok:
  assumes "exchange_inv l"
  shows "TransactionExchangeLedger_Get q l = Ok (if Delivered l < q \<and> q \<le> Received l
     then tel_Pending l ! unat (q - Delivered l - 1) else None)"
    "Delivered l < q \<Longrightarrow> q \<le> Received l \<Longrightarrow> unat (q - Delivered l - 1) < length (tel_Pending l)"
  using assms unat_pred [of "Delivered l" q]
  by (auto simp: TransactionExchangeLedger_Get_def exchange_inv_def word_le_nat_alt word_less_nat_alt Let_def)

interpretation exchanges: keyed "\<lambda>e. url_key (tel_Url e)" "\<lambda>k e. cmp3 (url_key (tel_Url e)) k"
  by (rule keyed_cmp3)

lemma Partition_ok:
  assumes "exchanges.ordered ex" "SyntheticLedger_Partition u ex = (l, i)"
  shows "l ! i = (case exchanges.lookup ex (url_key u) of None \<Rightarrow> new_exchange u | Some e \<Rightarrow> e)"
    "url_key (tel_Url x) = url_key u \<Longrightarrow> exchanges.ordered (l[i := x])"
    "url_key (tel_Url x) = url_key u \<Longrightarrow> exchanges.lookup (l[i := x]) = (exchanges.lookup ex)(url_key u \<mapsto> x)"
proof -
  let ?z = "new_exchange new_URL" and ?c = "\<lambda>e. cmp3 (url_key (tel_Url e)) (url_key u)"
  obtain l0 c where b: "BinaryInsert ?z ex ?c = (l0, i, c)" and l: "l = (if c then l0[i := new_exchange u] else l0)"
    using assms(2) by (auto simp: SyntheticLedger_Partition_def URL_Compare_key Let_def split: prod.splits if_splits)
  note p = exchanges.BinaryInsert_put [OF assms(1) b]
  have e: "url_key (tel_Url (new_exchange u)) = url_key u" by (simp add: new_exchange_def)
  have x: "l[i := x] = l0[i := x]" for x by (simp add: l)
  show "url_key (tel_Url x) = url_key u \<Longrightarrow> exchanges.ordered (l[i := x])"
    "url_key (tel_Url x) = url_key u \<Longrightarrow> exchanges.lookup (l[i := x]) = (exchanges.lookup ex)(url_key u \<mapsto> x)"
    unfolding x using p(1,2) by simp_all
  obtain f where s: "Search ex ?c = (i, f)" "f = (\<not> c)"
    using b by (auto simp: BinaryInsert_def Let_def split: prod.splits if_splits)
  show "l ! i = (case exchanges.lookup ex (url_key u) of None \<Rightarrow> new_exchange u | Some e \<Rightarrow> e)"
    using exchanges.lookup_Search [OF assms(1) s(1)] p(5) [OF e] b s
    by (auto simp: l BinaryInsert_found)
qed

section \<open>Delivery in order\<close>

definition last_delivered :: "string \<Rightarrow> ExchangeState \<Rightarrow> 64 word" where
  "last_delivered k st = (case exchanges.lookup (Exchange st) k of None \<Rightarrow> 0 | Some l \<Rightarrow> Delivered l)"

text \<open>The numbers of the transactions of a source that were delivered.\<close>
definition delivered_from :: "string \<Rightarrow> ExchangeState \<Rightarrow> 64 word list" where
  "delivered_from k st = map snd (filter (\<lambda>e. fst e = k) (delivered st))"

text \<open>
  The source and the number are covered by the hash of a synthetic transaction, through its
  initiator: \<^term>\<open>ident\<close> is the function that gives them.
\<close>
definition genuine :: "(TxID \<Rightarrow> string \<times> 64 word) \<Rightarrow> Delivery \<Rightarrow> bool" where
  "genuine ident d \<longleftrightarrow> ident (dl_ID d) = (url_key (SourceNetwork d), SequenceNumber d)"

definition exchange_state_inv :: "(TxID \<Rightarrow> string \<times> 64 word) \<Rightarrow> ExchangeState \<Rightarrow> bool" where
  "exchange_state_inv ident st \<longleftrightarrow> exchanges.ordered (Exchange st)
     \<and> (\<forall>k l. exchanges.lookup (Exchange st) k = Some l \<longrightarrow> exchange_inv l \<and>
          (\<forall>i t. i < length (tel_Pending l) \<longrightarrow> tel_Pending l ! i = Some t \<longrightarrow>
             received st t \<noteq> None \<and> ident t = (k, Delivered l + 1 + of_nat i)))
     \<and> (\<forall>t d. received st t = Some d \<longrightarrow> dl_ID d = t \<and> genuine ident d)
     \<and> (\<forall>k. delivered_from k st = map of_nat [1..<Suc (unat (last_delivered k st))])"

lemma exchange_put:
  assumes inv: "exchange_state_inv ident st" and ex: "exchanges.ordered ex'"
      "exchanges.lookup ex' = (exchanges.lookup (Exchange st))(k \<mapsto> x)" "exchange_inv x"
    and x: "\<And>i t. i < length (tel_Pending x) \<Longrightarrow> tel_Pending x ! i = Some t \<Longrightarrow>
      (received st t \<noteq> None \<or> t = dl_ID d) \<and> ident t = (k, Delivered x + 1 + of_nat i)"
    and d: "genuine ident d"
    and log: "ds = delivered st \<and> Delivered x = last_delivered k st
      \<or> ds = delivered st @ [(k, Delivered x)] \<and> Delivered x = last_delivered k st + 1 \<and>
        unat (Delivered x) = Suc (unat (last_delivered k st))"
  shows "exchange_state_inv ident \<lparr> Exchange = ex', received = (received st)(dl_ID d \<mapsto> d), delivered = ds \<rparr>"
proof -
  let ?st = "\<lparr> Exchange = ex', received = (received st)(dl_ID d \<mapsto> d), delivered = ds \<rparr>"
  note i = inv [unfolded exchange_state_inv_def]
  note i2 = i [THEN conjunct2, THEN conjunct1, rule_format] and i3 = i [THEN conjunct2, THEN conjunct2, THEN conjunct1, rule_format]
  have l: "last_delivered k' ?st = (if k' = k then Delivered x else last_delivered k' st)" for k'
    by (simp add: last_delivered_def ex(2))
  have a: "delivered_from k' ?st = map of_nat [1..<Suc (unat (last_delivered k' ?st))]" for k'
  proof -
    have j: "delivered_from k' st = map of_nat [1..<Suc (unat (last_delivered k' st))]" using i by blast
    from log show ?thesis
    proof
      assume "ds = delivered st \<and> Delivered x = last_delivered k st"
      then show ?thesis unfolding l using j by (simp add: delivered_from_def del: upt_Suc)
    next
      assume n: "ds = delivered st @ [(k, Delivered x)] \<and> Delivered x = last_delivered k st + 1 \<and>
        unat (Delivered x) = Suc (unat (last_delivered k st))"
      then have u: "unat (Delivered x) = Suc (unat (last_delivered k st))" by blast
      have "[1..<Suc (unat (Delivered x))] = [1..<Suc (unat (last_delivered k st))] @ [unat (Delivered x)]"
        unfolding u by simp
      then show ?thesis unfolding l using j n by (cases "k' = k") (simp_all add: delivered_from_def u del: upt_Suc)
    qed
  qed
  have b: "exchange_inv l' \<and> (\<forall>i t. i < length (tel_Pending l') \<longrightarrow> tel_Pending l' ! i = Some t \<longrightarrow>
             received ?st t \<noteq> None \<and> ident t = (k', Delivered l' + 1 + of_nat i))"
    if "exchanges.lookup ex' k' = Some l'" for k' l'
    using that i2 [of k' l'] ex(3) x by (cases "k' = k") (auto simp: ex(2))
  have c: "dl_ID d' = t \<and> genuine ident d'" if "received ?st t = Some d'" for t d'
    using that i3 [of t d'] d by (auto split: if_splits)
  show ?thesis unfolding exchange_state_inv_def ExchangeState.simps(1) using ex(1) a b c by blast
qed

text \<open>The ledger entry of a source, a new one when there is none yet.\<close>
definition entry_of :: "Delivery \<Rightarrow> ExchangeState \<Rightarrow> TransactionExchangeLedger" where
  "entry_of d st = (case exchanges.lookup (Exchange st) (url_key (SourceNetwork d)) of
     None \<Rightarrow> new_exchange (SourceNetwork d) | Some l \<Rightarrow> l)"

lemma entry_of_inv:
  assumes "exchange_state_inv ident st"
  shows "exchange_inv (entry_of d st)" "Delivered (entry_of d st) = last_delivered (url_key (SourceNetwork d)) st"
    "url_key (tel_Url (entry_of d st)) = url_key (SourceNetwork d)"
    "i < length (tel_Pending (entry_of d st)) \<Longrightarrow> tel_Pending (entry_of d st) ! i = Some t \<Longrightarrow>
      received st t \<noteq> None \<and> ident t = (url_key (SourceNetwork d), Delivered (entry_of d st) + 1 + of_nat i)"
proof -
  note i = assms [unfolded exchange_state_inv_def]
  show "exchange_inv (entry_of d st)" using i by (auto simp: entry_of_def new_exchange_def exchange_inv_def split: option.split)
  show "Delivered (entry_of d st) = last_delivered (url_key (SourceNetwork d)) st"
    by (simp add: entry_of_def last_delivered_def new_exchange_def split: option.split)
  show "url_key (tel_Url (entry_of d st)) = url_key (SourceNetwork d)"
    using exchanges.lookup_Some i by (auto simp: entry_of_def new_exchange_def split: option.split)
  show "i < length (tel_Pending (entry_of d st)) \<Longrightarrow> tel_Pending (entry_of d st) ! i = Some t \<Longrightarrow>
      received st t \<noteq> None \<and> ident t = (url_key (SourceNetwork d), Delivered (entry_of d st) + 1 + of_nat i)"
    using i by (auto simp: entry_of_def new_exchange_def split: option.splits)
qed

text \<open>
  Recording a transaction as pending, or the next one as delivered: the invariant holds again, and
  what follows it, when it has been received, is the transaction with the next number.
\<close>
lemma recordTransaction_ok:
  fixes d st
  defines "k \<equiv> url_key (SourceNetwork d)" and "q \<equiv> SequenceNumber d" and "l \<equiv> entry_of d st"
  assumes inv: "exchange_state_inv ident st" and d: "genuine ident d" and q: "Delivered l < q" "\<not> p \<Longrightarrow> q = Delivered l + 1"
  obtains st' l' nxt where "recordTransaction p d st = Ok (st', nxt)" "exchange_state_inv ident st'"
    "exchanges.lookup (Exchange st') k = Some l'" "exchange_inv l'" "Received l' = max (Received l) q" "Delivered l' = (if p then Delivered l else q)"
    "received st' = (received st)(dl_ID d \<mapsto> d)"
    "nxt = (if Delivered l' < q + 1 \<and> q + 1 \<le> Received l' then tel_Pending l' ! unat (q - Delivered l') else None)"
    "\<And>u. nxt = Some u \<Longrightarrow> \<exists>d'. received st' u = Some d' \<and> genuine ident d' \<and> url_key (SourceNetwork d') = k \<and> SequenceNumber d' = q + 1"
proof -
  obtain ex i where part: "SyntheticLedger_Partition (SourceNetwork d) (Exchange st) = (ex, i)" by fastforce
  note P = Partition_ok [OF inv [unfolded exchange_state_inv_def, THEN conjunct1] part]
  note E = entry_of_inv [OF inv, where d = d, folded l_def k_def]
  have l: "ex ! i = l" by (simp add: P(1) l_def entry_of_def)
  obtain l' dirty where add: "TransactionExchangeLedger_Add (\<not> p) q (dl_ID d) l = Ok (l', dirty)" "\<not> dirty \<Longrightarrow> l' = l"
    and l': "exchange_inv l'" "tel_Url l' = tel_Url l" "Delivered l' = (if p then Delivered l else q)" "Received l' = max (Received l) q"
      "\<And>j u. j < length (tel_Pending l') \<Longrightarrow> tel_Pending l' ! j = Some u \<Longrightarrow>
        (received st u \<noteq> None \<or> u = dl_ID d) \<and> ident u = (k, Delivered l' + 1 + of_nat j)"
  proof (cases p)
    case True
    obtain l' dirty where a: "TransactionExchangeLedger_Add False q (dl_ID d) l = Ok (l', dirty)" "exchange_inv l'" "\<not> dirty \<Longrightarrow> l' = l"
      "tel_Url l' = tel_Url l" "Delivered l' = Delivered l" "Received l' = max (Received l) q"
      and old: "\<And>i u. i < length (tel_Pending l') \<Longrightarrow> tel_Pending l' ! i = Some u \<Longrightarrow>
       i < length (tel_Pending l) \<and> tel_Pending l ! i = Some u \<or> u = dl_ID d \<and> i = unat (q - Delivered l - 1)"
      by (rule Add_pending [OF E(1) q(1)]) blast
    have "(received st u \<noteq> None \<or> u = dl_ID d) \<and> ident u = (k, Delivered l' + 1 + of_nat j)"
      if "j < length (tel_Pending l')" "tel_Pending l' ! j = Some u" for j u
      using old [OF that] E(4) d by (auto simp: a(5) genuine_def k_def q_def)
    then show ?thesis using that [of l' dirty] a True by simp
  next
    case False
    obtain l' where a: "TransactionExchangeLedger_Add True q (dl_ID d) l = Ok (l', True)" "exchange_inv l'" "tel_Url l' = tel_Url l"
      "Delivered l' = q" "Received l' = max (Received l) q" "tel_Pending l' = drop 1 (tel_Pending l)"
      by (rule Add_delivered [OF E(1) q(1) q(2) [OF False]]) blast
    have "received st u \<noteq> None \<and> ident u = (k, Delivered l' + 1 + of_nat j)"
      if "j < length (tel_Pending l')" "tel_Pending l' ! j = Some u" for j u
      using E(4) [of "Suc j" u] that q(2) [OF False] by (simp add: a(4,6) add.commute)
    then show ?thesis using that [of l' True] a False by simp
  qed
  have key: "url_key (tel_Url l') = url_key (SourceNetwork d)" using E(3) l'(2) by (simp add: k_def)
  define st' where "st' = \<lparr> Exchange = (if dirty then ex[i := l'] else Exchange st), received = (received st)(dl_ID d \<mapsto> d),
    delivered = (if p then delivered st else delivered st @ [(k, q)]) \<rparr>"
  have "exchanges.lookup (Exchange st') = (exchanges.lookup (Exchange st))(k \<mapsto> l') \<and> exchanges.ordered (Exchange st')"
  proof (cases dirty)
    case False
    then have "l' = l" by (rule add(2))
    then have "\<not> Received l < q" using l'(4) by (auto simp: max_def split: if_splits)
    then have "exchanges.lookup (Exchange st) k = Some l"
      using q(1) by (auto simp: l_def k_def entry_of_def new_exchange_def split: option.splits)
    then show ?thesis
      using False \<open>l' = l\<close> inv by (auto simp: st'_def exchange_state_inv_def)
  qed (use P(2,3) [OF key] in \<open>simp_all add: st'_def k_def\<close>)
  then have look: "exchanges.lookup (Exchange st') = (exchanges.lookup (Exchange st))(k \<mapsto> l')" "exchanges.ordered (Exchange st')"
    by blast+
  have inv': "exchange_state_inv ident st'"
  proof -
    have "delivered st' = delivered st \<and> Delivered l' = last_delivered k st
      \<or> delivered st' = delivered st @ [(k, Delivered l')] \<and> Delivered l' = last_delivered k st + 1 \<and>
        unat (Delivered l') = Suc (unat (last_delivered k st))"
      using E(2) l'(3) q unat_next [of "Delivered l"] by (auto simp: st'_def)
    from exchange_put [OF inv look(2) look(1) l'(1) l'(5) d this] show ?thesis by (simp add: st'_def)
  qed
  have e: "exchanges.lookup (Exchange st') k = Some l'" using look(1) by simp
  define nxt where "nxt = (if Delivered l' < q + 1 \<and> q + 1 \<le> Received l' then tel_Pending l' ! unat (q - Delivered l') else None)"
  have get: "TransactionExchangeLedger_Get (q + 1) l' = Ok nxt" using Get_ok(1) [OF l'(1), of "q + 1"] by (simp add: nxt_def)
  have "recordTransaction p d st = Ok (st', nxt)"
    using q(1) add(1) get by (simp add: not_le recordTransaction_def part l Let_def st'_def q_def k_def url_key_def)
  moreover have "\<exists>d'. received st' u = Some d' \<and> genuine ident d' \<and> url_key (SourceNetwork d') = k \<and> SequenceNumber d' = q + 1"
    if "nxt = Some u" for u
  proof -
    from that have c: "Delivered l' < q + 1" "q + 1 \<le> Received l'" "tel_Pending l' ! unat (q - Delivered l') = Some u"
      by (auto simp: nxt_def split: if_splits)
    have "unat (q - Delivered l') < length (tel_Pending l')" using Get_ok(2) [OF l'(1) c(1,2)] by simp
    from l'(5) [OF this c(3)] have u: "received st' u \<noteq> None" "ident u = (k, q + 1)" by (auto simp: st'_def)
    then obtain d' where d': "received st' u = Some d'" by blast
    moreover have "dl_ID d' = u \<and> genuine ident d'" using inv' d' by (simp add: exchange_state_inv_def)
    ultimately show ?thesis using u(2) by (auto simp: genuine_def)
  qed
  moreover have "received st' = (received st)(dl_ID d \<mapsto> d)" by (simp add: st'_def)
  ultimately show ?thesis using that [OF _ inv' e l'(1,4,3) _ nxt_def] by simp
qed

text \<open>The proof of a transaction ends at an anchor of the directory.\<close>
definition proven :: "bytes list \<Rightarrow> Delivery \<Rightarrow> bool" where
  "proven anchors d \<longleftrightarrow> GotDirectoryReceipt d \<and> (case ProofAnchor d of None \<Rightarrow> False | Some a \<Rightarrow> a \<in> set anchors)"

lemma ProcessSynthetic_cases:
  assumes "exchange_state_inv ident st"
  obtains (again) "SequenceNumber d \<le> Delivered (entry_of d st)" "ProcessSynthetic anchors account d st = Ok (st, None)"
  | (disordered) e where "SequenceNumber d \<le> Delivered (entry_of d st)" "ProcessSynthetic anchors account d st = Err e"
  | (recorded) p where "Delivered (entry_of d st) < SequenceNumber d" "\<not> p \<Longrightarrow> SequenceNumber d = Delivered (entry_of d st) + 1"
      "proven anchors d \<Longrightarrow> SequenceNumber d = Delivered (entry_of d st) + 1 \<Longrightarrow> \<not> p"
      "ProcessSynthetic anchors account d st = recordTransaction p d st"
proof -
  obtain ex i where part: "SyntheticLedger_Partition (SourceNetwork d) (Exchange st) = (ex, i)" by fastforce
  have l: "ex ! i = entry_of d st"
    using Partition_ok(1) [OF assms [unfolded exchange_state_inv_def, THEN conjunct1] part] by (simp add: entry_of_def)
  let ?D = "Delivered (entry_of d st)" and ?q = "SequenceNumber d"
  have r: "synthTransactionIsReady anchors (Exchange st) d account = (if \<not> proven anchors d then Ok False
      else if ?q \<le> ?D then Err (Coded StatusDelivered ''synthetic transaction has been delivered'')
      else if ?D + 1 \<noteq> ?q then Ok False
      else if account \<noteq> None then Ok True
      else if \<not> AllowMissingPrincipal (dl_Transaction d) then Err (Coded StatusNotFound ''missing principal'') else Ok True)"
    by (cases "ProofAnchor d") (simp_all add: synthTransactionIsReady_def proven_def part l)
  show ?thesis
  proof (cases "?q \<le> ?D")
    case True
    then have "recordTransaction True d st = Err (Coded StatusFatalError ''synthetic transactions executed out of order'')"
      by (simp add: recordTransaction_def part l Let_def)
    then show ?thesis using True that(1,2) by (cases "proven anchors d") (simp_all add: ProcessSynthetic_def r)
  next
    case False
    define p where "p \<longleftrightarrow> \<not> proven anchors d \<or> ?D + 1 \<noteq> ?q"
    have "ProcessSynthetic anchors account d st = recordTransaction p d st"
      using False by (auto simp: ProcessSynthetic_def r p_def)
    then show ?thesis using that(3) [of p] False by (auto simp: p_def not_le)
  qed
qed

lemma ProcessSynthetic_ahead:
  assumes "exchange_state_inv ident st" "Delivered (entry_of d st) < SequenceNumber d"
  shows "\<exists>p. (\<not> p \<longrightarrow> SequenceNumber d = Delivered (entry_of d st) + 1)
    \<and> (proven anchors d \<longrightarrow> SequenceNumber d = Delivered (entry_of d st) + 1 \<longrightarrow> \<not> p)
    \<and> ProcessSynthetic anchors account d st = recordTransaction p d st"
  using assms(1)
proof (cases rule: ProcessSynthetic_cases [of ident st d anchors account])
  case (recorded p)
  then show ?thesis by blast
qed (use assms(2) in \<open>simp_all add: not_le [symmetric]\<close>)

inductive exchange_run :: "(TxID \<Rightarrow> string \<times> 64 word) \<Rightarrow> ExchangeState \<Rightarrow> bool" for ident where
  start: "exchange_run ident \<lparr> Exchange = [], received = (\<lambda>_. None), delivered = [] \<rparr>"
| receive: "exchange_run ident st \<Longrightarrow> genuine ident d \<Longrightarrow> ProcessSynthetic anchors account d st = Ok (st', following)
    \<Longrightarrow> exchange_run ident st'"

lemma ProcessSynthetic_inv:
  assumes "exchange_state_inv ident st" "genuine ident d" "ProcessSynthetic anchors account d st = Ok (st', following)"
  shows "exchange_state_inv ident st'"
  using assms(1)
proof (cases rule: ProcessSynthetic_cases [of ident st d anchors account])
  case (recorded p)
  obtain st1 n where "recordTransaction p d st = Ok (st1, n)" "exchange_state_inv ident st1"
    by (rule recordTransaction_ok [OF assms(1,2) recorded(1,2)])
  then show ?thesis using assms(3) recorded(4) by simp
qed (use assms(1,3) in simp_all)

text \<open>When the next transaction of a source was not received, its place is empty or there is none.\<close>
lemma nothing_follows:
  assumes "exchange_inv l" "q = Delivered l"
    "(if Delivered l < q + 1 \<and> q + 1 \<le> Received l then tel_Pending l ! unat (q - Delivered l) else None) = None"
  shows "tel_Pending l = [] \<or> tel_Pending l ! 0 = None"
proof (cases "Delivered l < Received l")
  case True
  then show ?thesis using assms(2,3) less_next by simp
qed (use assms(1) in \<open>simp add: exchange_inv_def word_less_nat_alt\<close>)

lemma exchange_run_inv: "exchange_run ident st \<Longrightarrow> exchange_state_inv ident st"
proof (induction rule: exchange_run.induct)
  case start
  show ?case by (simp add: exchange_state_inv_def delivered_from_def last_delivered_def)
qed (rule ProcessSynthetic_inv)

text \<open>The loop ends, and it delivers what can be delivered.\<close>
lemma additional_ok:
  assumes "exchange_state_inv ident st" "exchanges.lookup (Exchange st) k = Some l"
    "\<And>u. nxt = Some u \<Longrightarrow> Delivered l < q + 1 \<and> q + 1 \<le> Received l \<and>
       (\<exists>d. received st u = Some d \<and> genuine ident d \<and> url_key (SourceNetwork d) = k \<and> SequenceNumber d = q + 1)"
    "nxt = None \<Longrightarrow> q = Delivered l \<Longrightarrow> tel_Pending l = [] \<or> tel_Pending l ! 0 = None"
  shows "\<exists>st' l'. additional anchors accounts nxt st = Some (Ok st') \<and> exchange_state_inv ident st'
     \<and> exchanges.lookup (Exchange st') k = Some l' \<and> Delivered l \<le> Delivered l'
     \<and> (q = Delivered l \<and> (\<forall>t d. received st t = Some d \<longrightarrow> proven anchors d) \<longrightarrow>
          tel_Pending l' = [] \<or> tel_Pending l' ! 0 = None)"
  using assms
proof (induction "unat (Received l) - unat q" arbitrary: st l nxt q rule: less_induct)
  case less
  show ?case
  proof (cases nxt)
    case None
    then show ?thesis using less.prems by (subst additional.simps) auto
  next
    case (Some u)
    obtain d where c: "Delivered l < q + 1" "q + 1 \<le> Received l" and
      d: "received st u = Some d" "genuine ident d" "url_key (SourceNetwork d) = k" "SequenceNumber d = q + 1"
      using less.prems(3) [OF Some] by blast
    have l: "entry_of d st = l" using less.prems(2) d(3) by (simp add: entry_of_def)
    have unfold: "additional anchors accounts nxt st = (case ProcessSynthetic anchors (accounts (Principal (dl_Transaction d))) d st of
        Ok (st, nxt) \<Rightarrow> additional anchors accounts nxt st | Err e \<Rightarrow> Some (Err e) | Panic p \<Rightarrow> Some (Panic p))"
      by (subst additional.simps) (simp add: Some d(1))
    obtain p where p: "\<not> p \<Longrightarrow> q + 1 = Delivered l + 1" "proven anchors d \<Longrightarrow> q + 1 = Delivered l + 1 \<Longrightarrow> \<not> p"
        "ProcessSynthetic anchors (accounts (Principal (dl_Transaction d))) d st = recordTransaction p d st"
      using ProcessSynthetic_ahead [OF less.prems(1), of d, unfolded l d(4), OF c(1)] by metis
    obtain st1 l1 nxt1 where r: "recordTransaction p d st = Ok (st1, nxt1)" "exchange_state_inv ident st1"
      "exchanges.lookup (Exchange st1) k = Some l1" "exchange_inv l1" "Received l1 = max (Received l) (q + 1)"
      "Delivered l1 = (if p then Delivered l else q + 1)" "received st1 = (received st)(dl_ID d \<mapsto> d)"
      and n1: "nxt1 = (if Delivered l1 < q + 1 + 1 \<and> q + 1 + 1 \<le> Received l1 then tel_Pending l1 ! unat (q + 1 - Delivered l1) else None)"
        "\<And>u. nxt1 = Some u \<Longrightarrow> \<exists>d'. received st1 u = Some d' \<and> genuine ident d' \<and> url_key (SourceNetwork d') = k \<and> SequenceNumber d' = q + 1 + 1"
      apply (rule recordTransaction_ok [OF less.prems(1) d(2), of p, unfolded d(3,4) l, OF c(1)])
       apply (erule p(1))
      apply (rule that; assumption)
      done
    have rec: "Received l1 = Received l" using c(2) r(5) by (simp add: max_def)
    have "q < q + 1" using c(1) by (rule pred_less)
    then have m: "unat (Received l1) - unat (q + 1) < unat (Received l) - unat q"
      using c(2) unat_next [of q] rec by (simp add: word_le_nat_alt)
    obtain st' l' where i: "additional anchors accounts nxt1 st1 = Some (Ok st')" "exchange_state_inv ident st'"
      "exchanges.lookup (Exchange st') k = Some l'" "Delivered l1 \<le> Delivered l'"
      "q + 1 = Delivered l1 \<and> (\<forall>t d. received st1 t = Some d \<longrightarrow> proven anchors d) \<longrightarrow>
          tel_Pending l' = [] \<or> tel_Pending l' ! 0 = None"
    proof -
      have "Delivered l1 < q + 1 + 1 \<and> q + 1 + 1 \<le> Received l1" if "nxt1 = Some u" for u
        using that n1(1) by (auto split: if_splits)
      then have a: "\<And>u. nxt1 = Some u \<Longrightarrow> Delivered l1 < q + 1 + 1 \<and> q + 1 + 1 \<le> Received l1 \<and>
         (\<exists>d. received st1 u = Some d \<and> genuine ident d \<and> url_key (SourceNetwork d) = k \<and> SequenceNumber d = q + 1 + 1)"
        using n1(2) by blast
      have b: "nxt1 = None \<Longrightarrow> q + 1 = Delivered l1 \<Longrightarrow> tel_Pending l1 = [] \<or> tel_Pending l1 ! 0 = None"
        using nothing_follows [OF r(4), of "q + 1"] n1(1) by simp
      show ?thesis using less.hyps [OF m r(2,3) a b] that by blast
    qed
    have "Delivered l \<le> Delivered l1" using r(6) c(1) by (cases p) simp_all
    then have le: "Delivered l \<le> Delivered l'" using i(4) by (rule order_trans)
    have all: "q + 1 = Delivered l1 \<and> (\<forall>t d. received st1 t = Some d \<longrightarrow> proven anchors d)"
      if "q = Delivered l" "\<forall>t d. received st t = Some d \<longrightarrow> proven anchors d"
    proof
      have v: "proven anchors d" using that(2) d(1) by blast
      then have "\<not> p" by (rule p(2)) (simp add: that(1))
      then show "q + 1 = Delivered l1" by (simp add: r(6))
      show "\<forall>t d. received st1 t = Some d \<longrightarrow> proven anchors d" unfolding r(7) using that(2) v by simp
    qed
    have "additional anchors accounts nxt st = Some (Ok st')" using i(1) by (simp add: unfold p(3) r(1))
    moreover have "q = Delivered l \<and> (\<forall>t d. received st t = Some d \<longrightarrow> proven anchors d) \<longrightarrow>
        tel_Pending l' = [] \<or> tel_Pending l' ! 0 = None"
      using mp [OF i(5) all] by (intro impI) (elim conjE, assumption)
    ultimately show ?thesis using i(2,3) le by (intro exI [of _ st'] exI [of _ l'] conjI)
  qed
qed

text \<open>
  C3. Exactly once and in order. Whatever transactions arrive, in whatever order, proven or not and
  any number of times, the transactions of a source that were delivered are those numbered from 1 up
  to the number the ledger has for the source, each once and in this order.
\<close>
theorem delivered_in_order:
  assumes "exchange_run ident st"
  shows "delivered_from k st = map of_nat [1..<Suc (unat (last_delivered k st))]"
  using exchange_run_inv [OF assms] unfolding exchange_state_inv_def by blast

text \<open>The first step of processing a transaction and the loop that follows it.\<close>
lemma ExecuteEnvelope_ok:
  assumes "exchange_state_inv ident st" "genuine ident d" "Delivered (entry_of d st) < SequenceNumber d"
  shows "\<exists>st' l'. ExecuteEnvelope anchors accounts d st = Some (Ok st')
     \<and> exchanges.lookup (Exchange st') (url_key (SourceNetwork d)) = Some l'
     \<and> (SequenceNumber d = Delivered (entry_of d st) + 1 \<and> proven anchors d
          \<and> (\<forall>t d. received st t = Some d \<longrightarrow> proven anchors d) \<longrightarrow>
        SequenceNumber d \<le> Delivered l' \<and> (tel_Pending l' = [] \<or> tel_Pending l' ! 0 = None))"
proof -
  let ?q = "SequenceNumber d"
  obtain p where p: "\<not> p \<Longrightarrow> ?q = Delivered (entry_of d st) + 1" "proven anchors d \<Longrightarrow> ?q = Delivered (entry_of d st) + 1 \<Longrightarrow> \<not> p"
      "ProcessSynthetic anchors (accounts (Principal (dl_Transaction d))) d st = recordTransaction p d st"
    using ProcessSynthetic_ahead [OF assms(1,3)] by metis
  obtain st1 l1 nxt1 where r: "recordTransaction p d st = Ok (st1, nxt1)" "exchange_state_inv ident st1"
    "exchanges.lookup (Exchange st1) (url_key (SourceNetwork d)) = Some l1" "exchange_inv l1"
    "Delivered l1 = (if p then Delivered (entry_of d st) else ?q)" "received st1 = (received st)(dl_ID d \<mapsto> d)"
    and n: "nxt1 = (if Delivered l1 < ?q + 1 \<and> ?q + 1 \<le> Received l1 then tel_Pending l1 ! unat (?q - Delivered l1) else None)"
      "\<And>u. nxt1 = Some u \<Longrightarrow> \<exists>d'. received st1 u = Some d' \<and> genuine ident d' \<and>
         url_key (SourceNetwork d') = url_key (SourceNetwork d) \<and> SequenceNumber d' = ?q + 1"
    apply (rule recordTransaction_ok [OF assms, of p])
     apply (erule p(1))
    apply (rule that; assumption)
    done
  have a: "Delivered l1 < ?q + 1 \<and> ?q + 1 \<le> Received l1 \<and> (\<exists>d'. received st1 u = Some d' \<and> genuine ident d' \<and>
      url_key (SourceNetwork d') = url_key (SourceNetwork d) \<and> SequenceNumber d' = ?q + 1)" if "nxt1 = Some u" for u
    using that n(1) n(2) [OF that] by (auto split: if_splits)
  have b: "nxt1 = None \<Longrightarrow> ?q = Delivered l1 \<Longrightarrow> tel_Pending l1 = [] \<or> tel_Pending l1 ! 0 = None"
    using nothing_follows [OF r(4), of ?q] n(1) by simp
  obtain st' l' where i: "additional anchors accounts nxt1 st1 = Some (Ok st')"
      "exchanges.lookup (Exchange st') (url_key (SourceNetwork d)) = Some l'" "Delivered l1 \<le> Delivered l'"
      "?q = Delivered l1 \<and> (\<forall>t d. received st1 t = Some d \<longrightarrow> proven anchors d) \<longrightarrow> tel_Pending l' = [] \<or> tel_Pending l' ! 0 = None"
    using additional_ok [where nxt = nxt1 and q = ?q and anchors = anchors and accounts = accounts, OF r(2,3) a b] by metis
  have "?q = Delivered l1 \<and> (\<forall>t d. received st1 t = Some d \<longrightarrow> proven anchors d)"
    if "?q = Delivered (entry_of d st) + 1" "proven anchors d" "\<forall>t d. received st t = Some d \<longrightarrow> proven anchors d"
    using p(2) [OF that(2,1)] that(2,3) by (simp add: r(5,6))
  then have "?q \<le> Delivered l' \<and> (tel_Pending l' = [] \<or> tel_Pending l' ! 0 = None)"
    if "?q = Delivered (entry_of d st) + 1 \<and> proven anchors d \<and> (\<forall>t d. received st t = Some d \<longrightarrow> proven anchors d)"
    using that i(3,4) by auto
  moreover have "ExecuteEnvelope anchors accounts d st = Some (Ok st')" by (simp add: ExecuteEnvelope_def p(3) r(1) i(1))
  ultimately show ?thesis using i(2) by (intro exI [of _ st'] exI [of _ l'] conjI impI) simp_all
qed

text \<open>
  C11. The loop over the transactions that follow ends, no access to the pending transactions is out
  of range, and a transaction is refused only when its number was delivered already.
\<close>
theorem ExecuteEnvelope_returns:
  assumes "exchange_run ident st" "genuine ident d"
  shows "(\<exists>st'. ExecuteEnvelope anchors accounts d st = Some (Ok st')) \<or>
    SequenceNumber d \<le> last_delivered (url_key (SourceNetwork d)) st \<and> (\<exists>e. ExecuteEnvelope anchors accounts d st = Some (Err e))"
proof -
  note inv = exchange_run_inv [OF assms(1)]
  note e = entry_of_inv(2) [OF inv, of d]
  from inv show ?thesis
  proof (cases rule: ProcessSynthetic_cases [of ident st d anchors "accounts (Principal (dl_Transaction d))"])
    case again
    then show ?thesis by (simp add: ExecuteEnvelope_def additional.simps)
  next
    case (disordered x)
    then show ?thesis by (simp add: ExecuteEnvelope_def e)
  next
    case (recorded p)
    then show ?thesis using ExecuteEnvelope_ok [OF inv assms(2)] by blast
  qed
qed

text \<open>
  C10. Progress. When the next transaction of a source arrives, and it and what was received before
  are proven, then it is delivered, and so is everything received that follows it without a gap: no
  transaction that could be delivered is left waiting.
\<close>
theorem next_is_delivered:
  assumes "exchange_run ident st" "genuine ident d" "proven anchors d" "\<forall>t d. received st t = Some d \<longrightarrow> proven anchors d"
    "SequenceNumber d = last_delivered (url_key (SourceNetwork d)) st + 1" "SequenceNumber d \<noteq> 0"
  shows "\<exists>st' l. ExecuteEnvelope anchors accounts d st = Some (Ok st')
    \<and> exchanges.lookup (Exchange st') (url_key (SourceNetwork d)) = Some l \<and> SequenceNumber d \<le> Delivered l
    \<and> (tel_Pending l = [] \<or> tel_Pending l ! 0 = None)"
proof -
  note inv = exchange_run_inv [OF assms(1)]
  have q: "SequenceNumber d = Delivered (entry_of d st) + 1" using entry_of_inv(2) [OF inv, of d] assms(5) by simp
  then have "Delivered (entry_of d st) < SequenceNumber d"
    using assms(6) next_nonzero by metis
  from ExecuteEnvelope_ok [OF inv assms(2) this, of anchors accounts] q assms(3,4) show ?thesis by metis
qed

text \<open>The second transaction of a source arrives before the first.\<close>
definition sample_delivery :: "8 word \<Rightarrow> 64 word \<Rightarrow> Delivery" where
  "sample_delivery h n = \<lparr> dl_Transaction = \<lparr> Principal = AcmeUrl, Body = SyntheticBurnTokensBody
       \<lparr> sbt_Origin = new_origin, sbt_Amount = 1, sbt_IsRefund = False \<rparr>, tx_GetHash = [h] \<rparr>,
     SourceNetwork = PartitionUrl ''Apollo'', SequenceNumber = n, ProofAnchor = Some [7], GotDirectoryReceipt = True \<rparr>"

definition sample_ident :: "TxID \<Rightarrow> string \<times> 64 word" where
  "sample_ident t = (url_key (PartitionUrl ''Apollo''), ucast (hd (tx_hash t)))"

definition sample_pending :: ExchangeState where
  "sample_pending = \<lparr> Exchange = [(new_exchange (PartitionUrl ''Apollo'')) \<lparr> Received := 2,
       tel_Pending := [None, Some (dl_ID (sample_delivery 2 2))] \<rparr>],
     received = [dl_ID (sample_delivery 2 2) \<mapsto> sample_delivery 2 2], delivered = [] \<rparr>"

lemma sample_genuine: "genuine sample_ident (sample_delivery 1 1)" "genuine sample_ident (sample_delivery 2 2)"
  by (simp_all add: genuine_def sample_ident_def sample_delivery_def dl_ID_def WithTxID_def)

lemma sample_pending_run: "exchange_run sample_ident sample_pending"
proof -
  have two: "replicate 2 x = [x, x]" for x :: "TxID option" by (simp add: numeral_2_eq_2)
  have "ProcessSynthetic [[7]] None (sample_delivery 2 2) \<lparr> Exchange = [], received = (\<lambda>_. None), delivered = [] \<rparr>
      = Ok (sample_pending, None)"
    by (simp add: ProcessSynthetic_def synthTransactionIsReady_def recordTransaction_def SyntheticLedger_Partition_def
        BinaryInsert_def Search_def sort_search.simps sample_delivery_def sample_pending_def new_exchange_def
        TransactionExchangeLedger_Add_def TransactionExchangeLedger_Get_def two Let_def)
  from exchange_run.receive [OF exchange_run.start sample_genuine(2) this] show ?thesis .
qed

theorem delivered_in_order_witness:
  "\<exists>st. exchange_run sample_ident st \<and> delivered_from (url_key (PartitionUrl ''Apollo'')) st = [1]"
proof -
  let ?l = "new_exchange (PartitionUrl ''Apollo'') \<lparr> Received := 1, Delivered := 1 \<rparr>"
  let ?st = "\<lparr> Exchange = [?l], received = [dl_ID (sample_delivery 1 1) \<mapsto> sample_delivery 1 1],
    delivered = [(ToLower (String (PartitionUrl ''Apollo'')), 1)] \<rparr>"
  have "ProcessSynthetic [[7]] None (sample_delivery 1 1) \<lparr> Exchange = [], received = (\<lambda>_. None), delivered = [] \<rparr>
      = Ok (?st, None)"
    by (simp add: ProcessSynthetic_def synthTransactionIsReady_def recordTransaction_def SyntheticLedger_Partition_def
        BinaryInsert_def Search_def sort_search.simps sample_delivery_def new_exchange_def
        TransactionExchangeLedger_Add_def TransactionExchangeLedger_Get_def Let_def)
  note run = exchange_run.receive [OF exchange_run.start sample_genuine(1) this]
  have "last_delivered (url_key (PartitionUrl ''Apollo'')) ?st = 1" by (simp add: last_delivered_def new_exchange_def)
  then show ?thesis using delivered_in_order [OF run, of "url_key (PartitionUrl ''Apollo'')"] run
    by (intro exI [of _ ?st]) simp
qed

theorem ExecuteEnvelope_returns_witness:
  "\<exists>st'. ExecuteEnvelope [] (\<lambda>_. None) (sample_delivery 1 1) sample_pending = Some (Ok st')"
  using ExecuteEnvelope_returns [OF sample_pending_run sample_genuine(1), of "[]" "\<lambda>_. None"]
  by (simp add: last_delivered_def sample_pending_def new_exchange_def sample_delivery_def)

theorem next_is_delivered_witness:
  "\<exists>st' l. ExecuteEnvelope [[7]] (\<lambda>_. None) (sample_delivery 1 1) sample_pending = Some (Ok st')
    \<and> exchanges.lookup (Exchange st') (url_key (PartitionUrl ''Apollo'')) = Some l \<and> 1 \<le> Delivered l
    \<and> (tel_Pending l = [] \<or> tel_Pending l ! 0 = None)"
  using next_is_delivered [OF sample_pending_run sample_genuine(1), of "[[7]]" "\<lambda>_. None"]
  by (simp add: last_delivered_def sample_pending_def new_exchange_def sample_delivery_def proven_def)

end
