(* ===== verification/Pages.thy ===== *)
theory Pages
  imports Governance
begin

text \<open>
  What the operations on a key page keep: its keys stay sorted, no two entries are for the same key,
  and no two entries without a key for the same delegate, its threshold is not above the number of its
  entries, and the first page of a book keeps an entry. Delegates that are pages themselves are the
  exception, see \<open>updateKey_locks_page\<close>.
\<close>

text \<open>
  Two entries clash when they have the same key, or the same delegate and both no key. Entries with
  different keys do not clash, even when they have the same delegate.
\<close>
definition clash :: "KeySpec \<Rightarrow> KeySpec \<Rightarrow> bool" where
  "clash a b \<longleftrightarrow> spec_key a = spec_key b \<or> PublicKeyHash a = PublicKeyHash b \<and> PublicKeyHash a \<noteq> []"

definition apart :: "KeySpec list \<Rightarrow> bool" where
  "apart l \<longleftrightarrow> sorted_wrt (\<lambda>a b. \<not> clash a b) l"

lemma clash_sym: "clash a b \<longleftrightarrow> clash b a"
  by (auto simp: clash_def)

lemma apart_mid: "apart (xs @ n # ys) \<longleftrightarrow> apart (xs @ ys) \<and> (\<forall>e \<in> set (xs @ ys). \<not> clash n e)"
  using clash_sym by (auto simp: apart_def sorted_wrt_append)

lemma apart_nth: "apart l \<Longrightarrow> i < length l \<Longrightarrow> j < length l \<Longrightarrow> clash (l ! i) (l ! j) \<Longrightarrow> i = j"
  using clash_sym unfolding apart_def sorted_wrt_iff_nth_less by (metis linorder_neqE_nat)

definition page_ok :: "KeyPage \<Rightarrow> bool" where
  "page_ok p \<longleftrightarrow> page_sorted p \<and> apart (Keys p) \<and> unat (AcceptThreshold p) \<le> length (Keys p)"

lemma takeWhile_holds: "j < length (takeWhile P xs) \<Longrightarrow> P (xs ! j)"
  by (metis nth_mem set_takeWhileD takeWhile_nth)

text \<open>An entry that would clash with one of the page is found there.\<close>
lemma findKeyPageEntry_clash:
  assumes p: "page_sorted p" "apart (Keys p)"
    and n: "PublicKeyHash n = KeyHash s" "Delegate n = ksp_Delegate s" "\<not> KeySpecParams_IsEmpty s"
    and d: "\<And>d. ksp_Delegate s = Some d \<Longrightarrow> ParseKeyPageUrl d = None"
    and j: "j < length (Keys p)" "clash n (Keys p ! j)"
  shows "findKeyPageEntry p s = Some j"
proof (cases "KeyHash s = []")
  case False
  then have "PublicKeyHash (Keys p ! j) = KeyHash s" using j(2) n(1) by (auto simp: clash_def spec_key_def)
  then have "EntryByKeyHash (KeyHash s) p \<noteq> None" using EntryByKeyHash_sorted(1) [OF p(1)] j(1) by (metis imageI nth_mem)
  then obtain i where i: "EntryByKeyHash (KeyHash s) p = Some i" by blast
  note i' = EntryByKeyHash_sorted(2) [OF p(1) i]
  then have "clash (Keys p ! i) (Keys p ! j)"
    using \<open>PublicKeyHash (Keys p ! j) = KeyHash s\<close> False by (simp add: clash_def)
  then have "i = j" using apart_nth [OF p(2)] i' j(1) by blast
  then show ?thesis using i False by (simp add: findKeyPageEntry_def)
next
  case True
  then obtain e where e: "ksp_Delegate s = Some e" using n(3) by (auto simp: KeySpecParams_IsEmpty_def)
  let ?P = "\<lambda>k. \<not> (case Delegate k of None \<Rightarrow> False | Some d \<Rightarrow> URL_Equal e d)"
  let ?i = "length (takeWhile ?P (Keys p))"
  have "spec_key n = spec_key (Keys p ! j)" using j(2) n(1) True by (simp add: clash_def)
  moreover have "spec_key n = ([], True, url_key e)" by (simp add: spec_key_def n(1,2) True e)
  ultimately have sj: "spec_key (Keys p ! j) = ([], True, url_key e)" by simp
  then have "\<not> ?P (Keys p ! j)" by (cases "Delegate (Keys p ! j)") (simp_all add: spec_key_def URL_Equal_key)
  then have ij: "?i \<le> j" using takeWhile_holds [of j ?P "Keys p"] by (rule contrapos_np) simp
  then have "?i < length (Keys p)" using j(1) by simp
  from nth_length_takeWhile [OF this] have si: "snd (spec_key (Keys p ! ?i)) = (True, url_key e)" by (cases "Delegate (Keys p ! ?i)") (simp_all add: spec_key_def URL_Equal_key)
  have "spec_key (Keys p ! ?i) \<le> spec_key (Keys p ! j)"
    using p(1) sorted_nth_mono [OF _ ij, of "map spec_key (Keys p)"] j(1) ij by (simp add: page_sorted_def)
  then have "spec_key (Keys p ! ?i) = spec_key (Keys p ! j)"
    using si sj by (cases "spec_key (Keys p ! ?i)") (simp add: less_eq_prod_simp)
  then have "?i = j" using apart_nth [OF p(2), of ?i j] ij j(1) by (auto simp: clash_def)
  then show ?thesis using True e d [OF e] j(1)
    by (simp add: findKeyPageEntry_def EntryByDelegate.simps Let_def)
qed

lemma AddKeySpec_apart:
  assumes "page_sorted p" "\<forall>e \<in> set (Keys p). \<not> clash k e"
  shows "apart (Keys p) \<Longrightarrow> apart (Keys (AddKeySpec k p))" "length (Keys (AddKeySpec k p)) = Suc (length (Keys p))"
proof -
  obtain i found where s: "Search (Keys p) (key_spec_cmp k) = (i, found)" by fastforce
  note c = AddKeySpec_cases [OF assms(1) s]
  have f: "\<not> found" using c(4) assms(2) by (auto simp: clash_def)
  then have e: "Keys (AddKeySpec k p) = take i (Keys p) @ k # drop i (Keys p)"
    using BinaryInsert_new [of "Keys p" "key_spec_cmp k" i k] s c(1) by (simp add: AddKeySpec_def list_update_append)
  have "apart (take i (Keys p) @ k # drop i (Keys p)) \<longleftrightarrow> apart (Keys p)"
    using assms(2) by (simp add: apart_mid flip: set_append)
  then show "apart (Keys p) \<Longrightarrow> apart (Keys (AddKeySpec k p))" by (simp add: e)
  show "length (Keys (AddKeySpec k p)) = Suc (length (Keys p))" using c(1) by (simp add: e)
qed

lemma RemoveKeySpecAt_ok:
  assumes "RemoveKeySpecAt i p = Ok p'"
  shows "i < length (Keys p)" "p' = p \<lparr> Keys := take i (Keys p) @ drop (Suc i) (Keys p) \<rparr>"
    "page_sorted p \<Longrightarrow> page_sorted p'" "apart (Keys p) \<Longrightarrow> apart (Keys p')" "Suc (length (Keys p')) = length (Keys p)"
proof -
  show i: "i < length (Keys p)" using assms by (auto simp: RemoveKeySpecAt_def RemoveAt_def split: if_splits)
  then show p': "p' = p \<lparr> Keys := take i (Keys p) @ drop (Suc i) (Keys p) \<rparr>"
    using assms by (simp add: RemoveKeySpecAt_def RemoveAt_spec)
  have k: "Keys p = take i (Keys p) @ Keys p ! i # drop (Suc i) (Keys p)" by (rule id_take_nth_drop [OF i])
  show "page_sorted p'" if "page_sorted p"
    using that unfolding page_sorted_def by (subst (asm) k) (simp add: p' sorted_append)
  show "apart (Keys p')" if "apart (Keys p)"
    using that by (subst (asm) k) (simp add: p' apart_mid)
  show "Suc (length (Keys p')) = length (Keys p)" using i by (simp add: p')
qed

lemma removed_nth:
  assumes "i < length l" "e \<in> set (take i l @ drop (Suc i) l)"
  shows "\<exists>j < length l. j \<noteq> i \<and> e = l ! j"
proof -
  from assms(2) consider (before) "e \<in> set (take i l)" | (after) "e \<in> set (drop (Suc i) l)" by auto
  then show ?thesis
  proof cases
    case before
    then obtain j where "j < i" "e = l ! j" by (auto simp: in_set_conv_nth)
    then show ?thesis using assms(1) by (intro exI [of _ j]) simp
  next
    case after
    then obtain j where "j < length l - Suc i" "e = l ! (Suc i + j)" by (auto simp: in_set_conv_nth)
    then show ?thesis by (intro exI [of _ "Suc i + j"]) simp
  qed
qed

lemma kept_nth: "j < length l \<Longrightarrow> i \<noteq> j \<Longrightarrow> l ! j \<in> set (take i l @ drop (Suc i) l)"
proof (cases "j < i")
  case True
  moreover assume "j < length l"
  ultimately have "take i l ! j = l ! j" "j < length (take i l)" by simp_all
  then show ?thesis by (metis UnCI nth_mem set_append)
next
  case False
  moreover assume "j < length l" "i \<noteq> j"
  ultimately have "drop (Suc i) l ! (j - Suc i) = l ! j" "j - Suc i < length (drop (Suc i) l)" by simp_all
  then show ?thesis by (metis UnCI nth_mem set_append)
qed

text \<open>The entry of an operation is not for a delegate that is a page.\<close>
definition plain_entry :: "KeySpecParams \<Rightarrow> bool" where
  "plain_entry s \<longleftrightarrow> (case ksp_Delegate s of None \<Rightarrow> True | Some d \<Rightarrow> ParseKeyPageUrl d = None)"

fun plain_operation :: "KeyPageOperation \<Rightarrow> bool" where
  "plain_operation (AddKeyOperation s) \<longleftrightarrow> plain_entry s"
| "plain_operation (UpdateKeyOperation old new) \<longleftrightarrow> plain_entry new"
| "plain_operation _ \<longleftrightarrow> True"

text \<open>Adding an entry that was looked for in vain, or found only where it replaces the old one.\<close>
lemma no_clash:
  assumes "page_ok p" "plain_entry s" "\<not> KeySpecParams_IsEmpty s" "PublicKeyHash n = KeyHash s" "Delegate n = ksp_Delegate s"
    "j < length (Keys p)" "findKeyPageEntry p s \<noteq> Some j"
  shows "\<not> clash n (Keys p ! j)"
proof
  assume "clash n (Keys p ! j)"
  moreover have "\<And>d. ksp_Delegate s = Some d \<Longrightarrow> ParseKeyPageUrl d = None" using assms(2) by (simp add: plain_entry_def)
  ultimately have "findKeyPageEntry p s = Some j"
    using findKeyPageEntry_clash [of p n s j] assms(1,3-6) by (simp add: page_ok_def)
  then show False using assms(7) by simp
qed

lemma AddKeySpec_page_ok:
  assumes "page_sorted p" "apart (Keys p)" "unat (AcceptThreshold p) \<le> Suc (length (Keys p))" "\<forall>e \<in> set (Keys p). \<not> clash k e"
  shows "page_ok (AddKeySpec k p)" "length (Keys (AddKeySpec k p)) = Suc (length (Keys p))"
proof -
  have "AcceptThreshold (AddKeySpec k p) = AcceptThreshold p" by (simp add: AddKeySpec_def split: prod.split)
  then show "page_ok (AddKeySpec k p)"
    using AddKeySpec_apart [OF assms(1,4)] AddKeySpec_sorted(1) [OF assms(1)] assms(2,3) by (simp add: page_ok_def)
qed (rule AddKeySpec_apart(2) [OF assms(1,4)])

text \<open>The first page of a book.\<close>
definition first_page :: "KeyPage \<Rightarrow> bool" where
  "first_page p \<longleftrightarrow> (case ParseKeyPageUrl (kp_Url p) of None \<Rightarrow> False | Some (_, n) \<Rightarrow> n = 1)"

lemma AddKey_ok:
  assumes "executeOperation book (AddKeyOperation s) p = Ok p'" "page_ok p" "plain_entry s"
  shows "page_ok p' \<and> length (Keys p') = Suc (length (Keys p))"
proof -
  let ?k = "\<lparr> PublicKeyHash = KeyHash s, LastUsedOn = 0, Delegate = ksp_Delegate s \<rparr>"
  have a: "\<not> KeySpecParams_IsEmpty s" "findKeyPageEntry p s = None" "p' = AddKeySpec ?k p"
    using assms(1) by (auto simp: result_simps split: if_splits)
  have "\<forall>e \<in> set (Keys p). \<not> clash ?k e"
    using no_clash [OF assms(2,3) a(1), of ?k] a(2) by (auto simp: in_set_conv_nth)
  then show ?thesis using AddKeySpec_page_ok [of p ?k] assms(2) a(3) by (simp add: page_ok_def)
qed

lemma updateKey_ok:
  assumes "updateKey book old new False p = Ok p'" "page_ok p" "plain_entry new"
  shows "page_ok p' \<and> length (Keys p') = length (Keys p)"
proof -
  obtain i k q where a: "\<not> KeySpecParams_IsEmpty new" "RemoveKeySpecAt i p = Ok q" "p' = AddKeySpec k q"
      "PublicKeyHash k = KeyHash new" "Delegate k = ksp_Delegate new" "\<And>j. findKeyPageEntry p new = Some j \<Longrightarrow> j = i"
    using assms(1) by (auto simp: updateKey_def result_simps Let_def map_ok_Ok split: if_splits option.splits)
  note r = RemoveKeySpecAt_ok [OF a(2)]
  have "\<forall>e \<in> set (Keys q). \<not> clash k e"
  proof
    fix e assume "e \<in> set (Keys q)"
    then obtain j where j: "j < length (Keys p)" "j \<noteq> i" "e = Keys p ! j"
      using removed_nth [OF r(1)] by (auto simp: r(2))
    then show "\<not> clash k e" using no_clash [OF assms(2,3) a(1,4,5) j(1)] a(6) by blast
  qed
  moreover have "AcceptThreshold q = AcceptThreshold p" by (simp add: r(2))
  ultimately show ?thesis using AddKeySpec_page_ok [of q k] assms(2) r(3-5) a(3) by (simp add: page_ok_def)
qed

lemma RemoveKey_ok:
  assumes "executeOperation book (RemoveKeyOperation s) p = Ok p'" "page_ok p" "length (Keys p) < 2 ^ 64"
  shows "page_ok p' \<and> length (Keys p) = Suc (length (Keys p')) \<and> (first_page p \<longrightarrow> length (Keys p) \<noteq> 1)"
proof -
  obtain i q b n where a: "RemoveKeySpecAt i p = Ok q" "ParseKeyPageUrl (kp_Url p) = Some (b, n)"
      "\<not> (length (Keys p) = 1 \<and> n = 1)"
      "p' = (if AcceptThreshold q > word_of_nat (length (Keys q)) then q \<lparr> AcceptThreshold := word_of_nat (length (Keys q)) \<rparr> else q)"
    using assms(1) by (auto simp: result_simps map_ok_Ok split: if_splits option.splits)
  note r = RemoveKeySpecAt_ok [OF a(1)]
  have "unat (word_of_nat (length (Keys q)) :: 64 word) = length (Keys q)"
    using r(5) assms(3) by (simp add: unsigned_of_nat take_bit_nat_eq_self)
  then have "page_ok p'" using assms(2) r(3,4) by (auto simp: page_ok_def page_sorted_def a(4) word_less_nat_alt)
  then show ?thesis using r(5) a(2-4) by (auto simp: first_page_def)
qed

text \<open>One operation, and all the operations of a transaction.\<close>
lemma executeOperation_ok:
  assumes "executeOperation book op p = Ok p'" "page_ok p" "plain_operation op" "length (Keys p) < 2 ^ 64"
  shows "page_ok p'" "length (Keys p') \<le> Suc (length (Keys p))" "first_page p \<Longrightarrow> Keys p \<noteq> [] \<Longrightarrow> Keys p' \<noteq> []"
proof -
  have "page_ok p' \<and> length (Keys p') \<le> Suc (length (Keys p)) \<and> (first_page p \<longrightarrow> Keys p \<noteq> [] \<longrightarrow> Keys p' \<noteq> [])"
  proof (cases op)
    case (AddKeyOperation s)
    then show ?thesis using AddKey_ok [of book s p p'] assms by auto
  next
    case (RemoveKeyOperation s)
    then show ?thesis using RemoveKey_ok [of book s p p'] assms by auto
  next
    case (UpdateKeyOperation old new)
    then show ?thesis using updateKey_ok [of book old new p p'] assms by auto
  next
    case (SetThresholdKeyPageOperation m)
    then have "p' = p \<lparr> AcceptThreshold := m \<rparr>" "m \<le> word_of_nat (length (Keys p))"
      using assms(1) by (auto simp: SetThreshold_def split: if_splits)
    moreover from this(2) have "unat m \<le> length (Keys p)"
      using assms(4) by (simp add: word_le_nat_alt unsigned_of_nat take_bit_nat_eq_self)
    ultimately show ?thesis using assms(2) by (simp add: page_ok_def page_sorted_def)
  next
    case (UpdateAllowedKeyPageOperation allow deny)
    then show ?thesis using assms(1,2) by (auto simp: result_simps page_ok_def page_sorted_def)
  qed
  then show "page_ok p'" "length (Keys p') \<le> Suc (length (Keys p))" "first_page p \<Longrightarrow> Keys p \<noteq> [] \<Longrightarrow> Keys p' \<noteq> []"
    by blast+
qed

lemma executeOperations_ok:
  assumes "executeOperations book ops p = Ok p'" "page_ok p" "list_all plain_operation ops" "length (Keys p) + length ops < 2 ^ 64"
  shows "page_ok p' \<and> (first_page p \<longrightarrow> Keys p \<noteq> [] \<longrightarrow> Keys p' \<noteq> [])"
  using assms
proof (induction ops arbitrary: p)
  case (Cons op ops)
  then obtain q where q: "executeOperation book op p = Ok q" "executeOperations book ops q = Ok p'" by (auto simp: result_simps)
  note o' = executeOperation_ok [OF q(1) Cons.prems(2)]
  have "first_page q = first_page p" using executeOperation_same [OF q(1)] by (simp add: same_page_def first_page_def)
  moreover have "page_ok p' \<and> (first_page q \<longrightarrow> Keys q \<noteq> [] \<longrightarrow> Keys p' \<noteq> [])"
    using Cons.prems(3,4) o' by (intro Cons.IH [OF q(2)]) simp_all
  ultimately show ?case using o'(3) Cons.prems(3,4) by auto
qed simp

lemma didUpdateKeyPage_ok: "page_ok p \<Longrightarrow> page_ok (didUpdateKeyPage p)"
proof -
  have s: "spec_key \<circ> (\<lambda>k. k \<lparr> LastUsedOn := 0 \<rparr>) = spec_key" by (auto simp: spec_key_def)
  have c: "clash (a \<lparr> LastUsedOn := 0 \<rparr>) (b \<lparr> LastUsedOn := 0 \<rparr>) = clash a b" for a b by (simp add: clash_def spec_key_def)
  show "page_ok p \<Longrightarrow> page_ok (didUpdateKeyPage p)"
    by (simp add: page_ok_def page_sorted_def apart_def didUpdateKeyPage_def s c sorted_wrt_map)
qed

text \<open>
  C7. Updating a key page. Take a page whose keys are sorted, on which no two entries are for the same
  key, and no two entries without a key for the same delegate, and which has at least as many entries
  as its threshold asks for. When a transaction that updates it is executed and succeeds, and no
  delegate that it adds is a page itself, the page is stored with the next version and without
  remembered nonces, and all of this holds of it again. The first page of a book keeps an entry if it
  has one. Entries and operations together are fewer than 2 ^ 64.
\<close>
theorem UpdateKeyPage_keeps_page:
  assumes "UpdateKeyPage_Validate tx st = Ok st'" "Body tx = UpdateKeyPageBody ops" "Origin st = Some (KeyPageOf page)"
    "\<not> Pretend st" "page_ok page" "list_all plain_operation ops" "length (Keys page) + length ops < 2 ^ 64"
  shows "\<exists>page'. GetState (kp_Url page) (batch st') = Some (KeyPageOf page') \<and> page_ok page'
    \<and> Version page' = Version page + 1 \<and> list_all (\<lambda>k. LastUsedOn k = 0) (Keys page')
    \<and> (first_page page \<and> Keys page \<noteq> [] \<longrightarrow> Keys page' \<noteq> [])"
proof -
  obtain book p where e: "executeOperations book ops page = Ok p" and u: "Update_accounts [KeyPageOf (didUpdateKeyPage p)] st = Ok st'"
    using assms(1-3) by (auto simp: UpdateKeyPage_Validate_def result_simps)
  have "GetState (kp_Url page) (batch st') = Some (KeyPageOf (didUpdateKeyPage p))"
    using Update_ok [OF u assms(4)] executeOperations_same [OF e] by (simp add: GetState_def same_page_def didUpdateKeyPage_def)
  moreover have "Version (didUpdateKeyPage p) = Version page + 1" "list_all (\<lambda>k. LastUsedOn k = 0) (Keys (didUpdateKeyPage p))"
    "Keys (didUpdateKeyPage p) = [] \<longleftrightarrow> Keys p = []"
    using executeOperations_same [OF e] by (simp_all add: didUpdateKeyPage_def list_all_iff same_page_def)
  ultimately show ?thesis using executeOperations_ok [OF e assms(5-7)] didUpdateKeyPage_ok by blast
qed

text \<open>A page with one key, its book, and the book and page of somebody else.\<close>
definition sample_page :: KeyPage where
  "sample_page = \<lparr> kp_Url = new_URL \<lparr> Authority := ''alice.acme'', Path := ''/book/1'' \<rparr>, CreditBalance = 0, AcceptThreshold = 1,
     RejectThreshold = 0, ResponseThreshold = 0, BlockThreshold = 0, Version = 1,
     Keys = [\<lparr> PublicKeyHash = [1], LastUsedOn = 7, Delegate = None \<rparr>], TransactionBlacklist = None \<rparr>"

definition sample_book :: KeyBook where
  "sample_book = \<lparr> kb_Url = new_URL \<lparr> Authority := ''alice.acme'', Path := ''/book'' \<rparr>, BookType = BookTypeNormal,
     kb_Auth = \<lparr> Authorities = [\<lparr> ae_Url = new_URL \<lparr> Authority := ''alice.acme'', Path := ''/book'' \<rparr>, Disabled = False \<rparr>] \<rparr>,
     PageCount = 1 \<rparr>"

definition other_book :: URL where
  "other_book = new_URL \<lparr> Authority := ''bob.acme'', Path := ''/book'' \<rparr>"

definition other_page :: URL where
  "other_page = new_URL \<lparr> Authority := ''bob.acme'', Path := ''/book/1'' \<rparr>"

lemma other_parse: "ParseKeyPageUrl other_page = Some (other_book, 1)" "ParseKeyPageUrl other_book = None"
proof -
  have i: "Identity other_page = other_book" by code_simp
  have path: "Path other_page = ''/book/1''" "Path other_book = ''/book''" by (simp_all add: other_page_def other_book_def)
  have "is_digit CHR ''1''" "ParseUint16 ''book'' = None" by code_simp+
  then have d: "ParseUint16 ''1'' = Some 1" "ParseUint16 ''book'' = None" by (simp_all add: ParseUint16_def decimal_def)
  show "ParseKeyPageUrl other_page = Some (other_book, 1)" "ParseKeyPageUrl other_book = None"
    using d by (simp_all add: ParseKeyPageUrl_def i path)
qed

lemma other_delegate:
  "\<not> ParentOf other_page (kp_Url sample_page)" "GetAuthority other_book (kb_Auth sample_book) = None"
  "\<not> URL_Equal other_book other_page"
  by code_simp+

text \<open>The page with the delegate.\<close>
definition sample_delegated :: KeyPage where
  "sample_delegated = sample_page \<lparr> Keys := \<lparr> PublicKeyHash = [], LastUsedOn = 0, Delegate = Some other_page \<rparr> # Keys sample_page \<rparr>"

text \<open>A delegate that is a page is looked up as the book of that page.\<close>
lemma findKeyPageEntry_page:
  assumes "ParseKeyPageUrl d = Some (bk, i)" "ParseKeyPageUrl bk = None"
    "\<forall>e \<in> set (Keys page). \<forall>x. Delegate e = Some x \<longrightarrow> \<not> URL_Equal bk x"
  shows "findKeyPageEntry page \<lparr> KeyHash = [], ksp_Delegate = Some d \<rparr> = None"
proof -
  have "takeWhile (\<lambda>k. \<not> (case Delegate k of None \<Rightarrow> False | Some x \<Rightarrow> URL_Equal bk x)) (Keys page) = Keys page"
    using assms(3) by (auto simp: takeWhile_eq_all_conv split: option.splits)
  then show ?thesis using assms(1,2) by (simp add: findKeyPageEntry_def EntryByDelegate.simps Let_def del: takeWhile_eq_all_conv)
qed

text \<open>
  C40. A delegate that is a page of another book escapes the check for duplicates. Take a sorted page
  that has an entry for such a delegate, without a key, and none for the book; the other book is no
  authority of the page's book, and the delegate is not its URL. Replacing any other entry by the
  delegate is accepted and leaves the page with one entry less and the same threshold. So a page whose
  threshold was the number of its entries then asks for more signatures than it has entries.
\<close>
theorem updateKey_locks_page:
  assumes "page_sorted page" "j < length (Keys page)" "PublicKeyHash (Keys page ! j) = []" "Delegate (Keys page ! j) = Some d"
    "ParseKeyPageUrl d = Some (bk, i)" "ParseKeyPageUrl bk = None" "GetAuthority bk (kb_Auth book) = None"
    "\<not> ParentOf d (kp_Url page)" "\<forall>e \<in> set (Keys page). \<forall>x. Delegate e = Some x \<longrightarrow> \<not> URL_Equal bk x"
    "findKeyPageEntry page old = Some l" "l < length (Keys page)" "l \<noteq> j"
  shows "\<exists>page'. executeOperation book (UpdateKeyOperation old \<lparr> KeyHash = [], ksp_Delegate = Some d \<rparr>) page = Ok page'
    \<and> AcceptThreshold page' = AcceptThreshold page \<and> Suc (length (Keys page')) = length (Keys page)
    \<and> (unat (AcceptThreshold page) = length (Keys page) \<longrightarrow> length (Keys page') < unat (AcceptThreshold page'))"
proof -
  let ?new = "\<lparr> KeyHash = [], ksp_Delegate = Some d \<rparr>"
  let ?e = "(Keys page ! l) \<lparr> PublicKeyHash := [], Delegate := Some d \<rparr>"
  obtain q where q: "RemoveKeySpecAt l page = Ok q" using assms(11) by (simp add: RemoveKeySpecAt_def RemoveAt_spec)
  note r = RemoveKeySpecAt_ok [OF q]
  have "check_delegate page book (Some d) = Ok ()" using assms(5-8) by (simp add: check_delegate_def verifyIsNotPage_def)
  then have u: "updateKey book old ?new False page = Ok (AddKeySpec ?e q)"
    using assms(10) findKeyPageEntry_page [OF assms(5,6,9)] q by (simp add: updateKey_def KeySpecParams_IsEmpty_def Let_def)
  have "Keys page ! j \<in> set (Keys q)" using assms(2,12) kept_nth [of j "Keys page" l] by (simp add: r(2))
  moreover have "spec_key ?e = spec_key (Keys page ! j)" using assms(3,4) by (simp add: spec_key_def)
  ultimately have "spec_key ?e \<in> spec_key ` set (Keys q)" by simp
  then have "length (Keys (AddKeySpec ?e q)) = length (Keys q)"
    using AddKeySpec_sorted [OF r(3) [OF assms(1)], of ?e] by simp
  moreover have "AcceptThreshold (AddKeySpec ?e q) = AcceptThreshold page"
    by (simp add: AddKeySpec_def r(2) split: prod.split)
  ultimately show ?thesis using u r(5) by simp
qed

text \<open>A page with a key and a delegate that asks for both loses the entry of the key.\<close>
theorem updateKey_locks_page_witness:
  "\<exists>page'. page_ok (sample_delegated \<lparr> AcceptThreshold := 2 \<rparr>)
    \<and> executeOperation sample_book (UpdateKeyOperation \<lparr> KeyHash = [1], ksp_Delegate = None \<rparr>
        \<lparr> KeyHash = [], ksp_Delegate = Some other_page \<rparr>) (sample_delegated \<lparr> AcceptThreshold := 2 \<rparr>) = Ok page'
    \<and> AcceptThreshold page' = 2 \<and> length (Keys page') = 1"
proof -
  let ?p = "sample_delegated \<lparr> AcceptThreshold := 2 \<rparr>"
  have k: "Keys ?p = [\<lparr> PublicKeyHash = [], LastUsedOn = 0, Delegate = Some other_page \<rparr>, \<lparr> PublicKeyHash = [1], LastUsedOn = 7, Delegate = None \<rparr>]"
    "kp_Url ?p = kp_Url sample_page"
    by (simp_all add: sample_delegated_def sample_page_def)
  have ok: "page_ok ?p" by (simp add: page_ok_def page_sorted_def apart_def clash_def k spec_key_def)
  have f: "findKeyPageEntry ?p \<lparr> KeyHash = [1], ksp_Delegate = None \<rparr> = Some 1"
    by (simp add: findKeyPageEntry_def EntryByKeyHash_def Search_def sort_search.simps k cmp3_def Let_def)
  have "\<exists>page'. executeOperation sample_book (UpdateKeyOperation \<lparr> KeyHash = [1], ksp_Delegate = None \<rparr>
      \<lparr> KeyHash = [], ksp_Delegate = Some other_page \<rparr>) ?p = Ok page'
    \<and> AcceptThreshold page' = AcceptThreshold ?p \<and> Suc (length (Keys page')) = length (Keys ?p)
    \<and> (unat (AcceptThreshold ?p) = length (Keys ?p) \<longrightarrow> length (Keys page') < unat (AcceptThreshold page'))"
    by (rule updateKey_locks_page [OF _ _ _ _ other_parse other_delegate(2) _ _ f, of 0])
      (use ok other_delegate in \<open>simp_all add: page_ok_def k\<close>)
  then show ?thesis using ok by (auto simp: k)
qed

lemma sample_parse: "ParseKeyPageUrl (kp_Url sample_page) = Some (kb_Url sample_book, 1)"
proof -
  have i: "Identity (kp_Url sample_page) = kb_Url sample_book" "is_digit CHR ''1''" by code_simp+
  then have "ParseUint16 ''1'' = Some 1" by (simp add: ParseUint16_def decimal_def)
  moreover have "Path (kp_Url sample_page) = ''/book/1''" by (simp add: sample_page_def)
  ultimately show ?thesis by (simp add: ParseKeyPageUrl_def i)
qed

definition sample_batch :: Batch where
  "sample_batch = \<lparr> Main = [AccountID32 (kp_Url sample_page) \<mapsto> KeyPageOf sample_page,
       AccountID32 (kb_Url sample_book) \<mapsto> KeyBookOf sample_book],
     main_chain = (\<lambda>_. []), directory = (\<lambda>_. []), pending = (\<lambda>_. \<lparr> Entries_ids = [] \<rparr>), MajorBlockChain = [], AnchorChain = [] \<rparr>"

theorem UpdateKeyPage_keeps_page_witness:
  "\<exists>tx st st' page'. UpdateKeyPage_Validate tx st = Ok st' \<and> Origin st = Some (KeyPageOf sample_page)
    \<and> GetState (kp_Url sample_page) (batch st') = Some (KeyPageOf page') \<and> page_ok page' \<and> Version page' = 2 \<and> Keys page' \<noteq> []"
proof -
  let ?op = "AddKeyOperation \<lparr> KeyHash = [5], ksp_Delegate = None \<rparr>"
  let ?tx = "\<lparr> Principal = kp_Url sample_page, Body = UpdateKeyPageBody [?op], tx_GetHash = [] \<rparr>"
  let ?st = "NewStateManager ''Apollo'' 1 sample_batch (Some (KeyPageOf sample_page)) ?tx"
  obtain p where "executeOperation sample_book ?op sample_page = Ok p" "kp_Url p = kp_Url sample_page"
    by (simp add: KeySpecParams_IsEmpty_def check_delegate_def findKeyPageEntry_def EntryByKeyHash_def Search_def
        sort_search.simps sample_page_def cmp3_def AddKeySpec_def case_prod_unfold Let_def)
  moreover have "load_book ?st = Ok sample_book"
    by (simp add: load_book_def NewStateManager_def sample_parse LoadUrlAs_def LoadUrl_def GetState_def sample_batch_def)
      (simp add: sample_book_def)
  moreover have "\<not> AccountUrlMaxLength < length (String (kp_Url sample_page))" by code_simp
  moreover have "\<exists>x. GetState (kp_Url sample_page) sample_batch = Some x" by (simp add: GetState_def sample_batch_def)
  ultimately obtain st' where s: "UpdateKeyPage_Validate ?tx ?st = Ok st'"
    by (auto simp: UpdateKeyPage_Validate_def Update_accounts_def NewStateManager_def PutState_def didUpdateKeyPage_def Let_def)
  have k: "page_ok sample_page" "first_page sample_page" "Keys sample_page \<noteq> []" "Version sample_page = 1"
    "length (Keys sample_page) = 1"
    by (simp_all add: page_ok_def page_sorted_def apart_def first_page_def sample_parse) (simp_all add: sample_page_def)
  have "\<exists>page'. GetState (kp_Url sample_page) (batch st') = Some (KeyPageOf page') \<and> page_ok page'
    \<and> Version page' = Version sample_page + 1 \<and> list_all (\<lambda>k. LastUsedOn k = 0) (Keys page')
    \<and> (first_page sample_page \<and> Keys sample_page \<noteq> [] \<longrightarrow> Keys page' \<noteq> [])"
    by (rule UpdateKeyPage_keeps_page [OF s, of "[?op]"]) (simp_all add: NewStateManager_def k plain_entry_def)
  then show ?thesis using s k by (intro exI [of _ ?tx] exI [of _ ?st] exI [of _ st']) (auto simp: NewStateManager_def)
qed

end
