(* ===== verification/Bpt_Key.thy ===== *)
theory Bpt_Key
  imports Prelude
begin

text \<open>
  The node keys of the Binary Patricia Tree (\<^verbatim>\<open>GetNodeKey\<close>, \<^verbatim>\<open>GetHtKey\<close> and
  \<^verbatim>\<open>GetChildrenNodeKeys\<close> of \<^verbatim>\<open>src/smt/pmt/bpt.go\<close>). A node key is the path to the node,
  the leading bits of the keys below it, followed by a one bit and zeros. The lemmas show that it
  determines the path.
\<close>

section \<open>The operations\<close>

text \<open>An array of 32 bytes filled from a slice.\<close>
definition to32 :: "bytes \<Rightarrow> bytes" where
  "to32 b = take 32 (b @ replicate 32 0)"

definition GetNodeKey :: "nat \<Rightarrow> bytes \<Rightarrow> bytes \<times> bool" where
  "GetNodeKey height key = (if height > 254 then (replicate 32 0, False)
     else let byteCnt = drop_bit 3 height; bitCnt = height AND 7;
              nk = take byteCnt key;
              lastByte = key ! byteCnt;
              lastByte = drop_bit (7 - bitCnt) lastByte;
              lastByte = lastByte OR 1;
              lastByte = push_bit (7 - bitCnt) lastByte
          in (to32 (nk @ [lastByte]), True))"

text \<open>The index of the last byte of the first \<open>i + 1\<close> that is not zero, or zero.\<close>
fun last_byte :: "bytes \<Rightarrow> nat \<Rightarrow> nat" where
  "last_byte key 0 = 0"
| "last_byte key (Suc i) = (if key ! Suc i = 0 then last_byte key i else Suc i)"

text \<open>The number of zero bits below the lowest one bit, counted up to eight.\<close>
fun low_zeros :: "nat \<Rightarrow> nat \<Rightarrow> byte \<Rightarrow> nat" where
  "low_zeros 0 i b = i"
| "low_zeros (Suc n) i b = (if bit b i then i else low_zeros n (Suc i) b)"

definition GetHtKey :: "bytes \<Rightarrow> nat \<times> bytes \<times> bool" where
  "GetHtKey nodeKey = (let byteIdx = last_byte nodeKey 31; lastByte = nodeKey ! byteIdx in
     if lastByte = 0 then (0, nodeKey, False)
     else let z = low_zeros 8 0 lastByte
          in (byteIdx * 8 + 8 - (z + 1), nodeKey[byteIdx := lastByte XOR push_bit z 1], True))"

definition GetChildrenNodeKeys :: "bytes \<Rightarrow> (bytes \<times> bytes \<times> bool) result" where
  "GetChildrenNodeKeys nodeKey =
     (if nodeKey = replicate 32 0 then Panic ''index out of range''
      else let byteIdx = last_byte nodeKey 31; lastByte = nodeKey ! byteIdx;
               z = low_zeros 8 0 lastByte; height = byteIdx * 8 + (8 - (z + 1));
               right = nodeKey[byteIdx := lastByte XOR push_bit z 1];
               (l, ok) = GetNodeKey (height + 1) nodeKey
           in if ok then let (r, ok) = GetNodeKey (height + 1) right in Ok (l, r, ok)
              else Ok (l, right, False))"

section \<open>Bits of a key\<close>

text \<open>Bit \<^term>\<open>i\<close> of a key, the most significant bit of each byte first.\<close>
definition key_bit :: "bytes \<Rightarrow> nat \<Rightarrow> bool" where
  "key_bit key i = bit (key ! (i div 8)) (7 - i mod 8)"

lemma key_bit_eqI:
  assumes "length a = 32" "length b = 32" "\<And>i. i < 256 \<Longrightarrow> key_bit a i = key_bit b i"
  shows "a = b"
proof (rule nth_equalityI)
  fix n assume n: "n < length a"
  show "a ! n = b ! n"
  proof (rule bit_eqI)
    fix j assume "possible_bit TYPE(byte) j"
    then have j: "j < 8" by simp
    define m where "m = 7 - j"
    have m: "m < 8" "j = 7 - m" using j by (auto simp: m_def)
    have "key_bit a (8 * n + m) = key_bit b (8 * n + m)" using n assms(1) m by (intro assms(3)) auto
    moreover have "(8 * n + m) div 8 = n" "(8 * n + m) mod 8 = m" using m by simp_all
    ultimately show "bit (a ! n) j = bit (b ! n) j" using m by (simp add: key_bit_def)
  qed
qed (simp add: assms)

lemma shift_and: "drop_bit 3 h = h div 8" "h AND 7 = h mod (8 :: nat)"
proof -
  show "drop_bit 3 h = h div 8" by (simp add: drop_bit_eq_div)
  show "h AND 7 = h mod 8" using take_bit_eq_mask [of 3 h] by (simp add: take_bit_eq_mod mask_eq_exp_minus_1)
qed

lemma length_to32 [simp]: "length (to32 b) = 32"
  by (simp add: to32_def)

lemma GetNodeKey_ok [simp]: "snd (GetNodeKey h k) \<longleftrightarrow> h \<le> 254" "length (fst (GetNodeKey h k)) = 32"
  by (auto simp: GetNodeKey_def Let_def)

lemma nth_to32: "i < 32 \<Longrightarrow> to32 b ! i = (if i < length b then b ! i else 0)"
  by (simp add: to32_def nth_append)

lemma last_byte_bits:
  fixes b :: byte
  assumes "s < 8" "j < 8"
  shows "bit (push_bit s (drop_bit s b OR 1)) j \<longleftrightarrow> s \<le> j \<and> (bit b j \<or> j = s)"
  using assms by (auto simp: bit_simps)

text \<open>The bits of a node key.\<close>
lemma key_bit_GetNodeKey:
  assumes "h \<le> 254" "length k = 32" "i < 256"
  shows "key_bit (fst (GetNodeKey h k)) i \<longleftrightarrow> (if i < h then key_bit k i else i = h)"
proof -
  let ?c = "h div 8" and ?b = "h mod 8"
  let ?l = "push_bit (7 - ?b) (drop_bit (7 - ?b) (k ! ?c) OR 1)"
  have c: "?c < 32" using assms(1) by auto
  have nk: "fst (GetNodeKey h k) = to32 (take ?c k @ [?l])"
    using assms(1) by (simp add: GetNodeKey_def Let_def shift_and)
  have i8: "i div 8 < 32" using assms(3) by auto
  have len: "length (take ?c k @ [?l]) = Suc ?c" using c assms(2) by simp
  consider "i div 8 < ?c" | "i div 8 = ?c" | "?c < i div 8" by linarith
  then show ?thesis
  proof cases
    case 1
    then have "i < h" by (metis div_le_mono linorder_not_le)
    with 1 show ?thesis using i8 c assms(2) by (simp add: nk key_bit_def nth_to32 nth_append)
  next
    case 2
    have e: "fst (GetNodeKey h k) ! (i div 8) = ?l" using i8 c assms(2) 2 by (simp add: nk nth_to32 nth_append)
    have "bit ?l (7 - i mod 8) \<longleftrightarrow> 7 - ?b \<le> 7 - i mod 8 \<and> (bit (k ! ?c) (7 - i mod 8) \<or> 7 - i mod 8 = 7 - ?b)"
      by (rule last_byte_bits) auto
    moreover have "7 - ?b \<le> 7 - i mod 8 \<longleftrightarrow> i \<le> h" "7 - i mod 8 = 7 - ?b \<longleftrightarrow> i = h"
    proof -
      have "i = 8 * ?c + i mod 8" "h = 8 * ?c + ?b" "i mod 8 < 8" "?b < 8" using 2 mult_div_mod_eq [of 8 i] by simp_all
      then show "7 - ?b \<le> 7 - i mod 8 \<longleftrightarrow> i \<le> h" "7 - i mod 8 = 7 - ?b \<longleftrightarrow> i = h" by linarith+
    qed
    ultimately have "bit ?l (7 - i mod 8) \<longleftrightarrow> (if i < h then bit (k ! ?c) (7 - i mod 8) else i = h)" by auto
    then show ?thesis unfolding key_bit_def e unfolding 2 .
  next
    case 3
    then have "h < i" by (metis div_le_mono linorder_not_le)
    with 3 show ?thesis using i8 len by (simp add: nk key_bit_def nth_to32)
  qed
qed

text \<open>A node key determines the height and the leading bits.\<close>
lemma GetNodeKey_inj:
  assumes "h \<le> 254" "h' \<le> 254" "length k = 32" "length k' = 32" "fst (GetNodeKey h k) = fst (GetNodeKey h' k')"
  shows "h = h'" "i < h \<Longrightarrow> key_bit k i = key_bit k' i"
proof -
  have b: "(if i < h then key_bit k i else i = h) = (if i < h' then key_bit k' i else i = h')" if "i < 256" for i
    using assms that key_bit_GetNodeKey [of h k i] key_bit_GetNodeKey [of h' k' i] by simp
  have "\<not> h < h'" using b [of h'] assms by auto
  moreover have "\<not> h' < h" using b [of h] assms by auto
  ultimately show "h = h'" by simp
  then show "i < h \<Longrightarrow> key_bit k i = key_bit k' i" using b [of i] assms by simp
qed

lemma GetNodeKey_cong:
  assumes "h \<le> 254" "length k = 32" "length k' = 32" "\<And>i. i < h \<Longrightarrow> key_bit k i = key_bit k' i"
  shows "fst (GetNodeKey h k) = fst (GetNodeKey h k')"
  using assms by (intro key_bit_eqI) (simp_all add: key_bit_GetNodeKey)

section \<open>Paths\<close>

text \<open>The node with the given path lies above the key.\<close>
definition under :: "bool list \<Rightarrow> bytes \<Rightarrow> bool" where
  "under p k \<longleftrightarrow> (\<forall>i < length p. key_bit k i = p ! i)"

lemma under_Nil [simp]: "under [] k"
  by (simp add: under_def)

lemma under_snoc [simp]: "under (p @ [b]) k \<longleftrightarrow> under p k \<and> key_bit k (length p) = b"
  by (auto simp: under_def nth_append less_Suc_eq)

text \<open>A key below a path, and the node key of the path.\<close>
definition path_key :: "bool list \<Rightarrow> bytes" where
  "path_key p = map (\<lambda>n. horner_sum of_bool 2
     (map (\<lambda>j. 8 * n + (7 - j) < length p \<and> p ! (8 * n + (7 - j))) [0..<8])) [0..<32]"

definition nodekey :: "bool list \<Rightarrow> bytes" where
  "nodekey p = fst (GetNodeKey (length p) (path_key p))"

lemma length_path_key [simp]: "length (path_key p) = 32"
  by (simp add: path_key_def)

lemma under_path_key: "length p \<le> 256 \<Longrightarrow> under p (path_key p)"
proof (unfold under_def, intro allI impI)
  fix i assume p: "length p \<le> 256" and i: "i < length p"
  have "8 * (i div 8) + (7 - (7 - i mod 8)) = i" using mod_less_divisor [of 8 i] by simp
  moreover have "i div 8 < 32" using p i by auto
  moreover have "7 - i mod 8 < 8" by (simp add: less_eq_Suc_le [symmetric])
  ultimately show "key_bit (path_key p) i = p ! i"
    using i by (simp add: key_bit_def path_key_def bit_horner_sum_bit_word_iff del: upt_rec_numeral)
qed

lemma nodekey_under: "length p \<le> 254 \<Longrightarrow> length k = 32 \<Longrightarrow> under p k \<Longrightarrow> fst (GetNodeKey (length p) k) = nodekey p"
  unfolding nodekey_def using under_path_key [of p] by (intro GetNodeKey_cong) (simp_all add: under_def)

lemma nodekey_inj:
  assumes "length p \<le> 254" "length q \<le> 254" "nodekey p = nodekey q"
  shows "p = q"
proof -
  have l: "length p = length q"
    using assms by (intro GetNodeKey_inj(1) [of "length p" "length q" "path_key p" "path_key q"]) (simp_all add: nodekey_def)
  have "p ! i = q ! i" if "i < length p" for i
    using GetNodeKey_inj(2) [of "length p" "length q" "path_key p" "path_key q" i] assms that l
      under_path_key [of p] under_path_key [of q]
    by (simp add: nodekey_def under_def)
  with l show ?thesis by (rule nth_equalityI)
qed

section \<open>Height and children\<close>

lemma last_byte_eq:
  "c \<le> n \<Longrightarrow> key ! c \<noteq> 0 \<or> c = 0 \<Longrightarrow> (\<And>i. c < i \<Longrightarrow> i \<le> n \<Longrightarrow> key ! i = 0) \<Longrightarrow> last_byte key n = c"
proof (induction n)
  case (Suc n)
  show ?case
  proof (cases "c = Suc n")
    case True
    then show ?thesis using Suc.prems(2) by simp
  next
    case False
    then have "last_byte key n = c" using Suc by simp
    with False Suc.prems show ?thesis by simp
  qed
qed simp

lemma low_zeros_eq:
  "i \<le> s \<Longrightarrow> s < i + n \<Longrightarrow> bit b s \<Longrightarrow> (\<And>j. j < s \<Longrightarrow> \<not> bit b j) \<Longrightarrow> low_zeros n i b = s"
proof (induction n arbitrary: i)
  case (Suc n)
  show ?case
  proof (cases "i = s")
    case False
    then have "low_zeros n (Suc i) b = s" using Suc.prems by (intro Suc.IH) simp_all
    then show ?thesis using False Suc.prems by simp
  qed (use Suc.prems in simp)
qed simp

text \<open>The one bit that ends a node key is found where it was put.\<close>
lemma node_key_end:
  assumes "h \<le> 254" "length k = 32"
  defines "nk \<equiv> fst (GetNodeKey h k)"
  shows "last_byte nk 31 = h div 8" "nk ! (h div 8) \<noteq> 0" "low_zeros 8 0 (nk ! (h div 8)) = 7 - h mod 8"
proof -
  have c: "h div 8 < 32" using assms(1) by auto
  have kb: "key_bit nk i \<longleftrightarrow> (if i < h then key_bit k i else i = h)" if "i < 256" for i
    using key_bit_GetNodeKey [OF assms(1,2) that] by (simp add: nk_def)
  have b: "bit (nk ! n) j \<longleftrightarrow> key_bit nk (8 * n + (7 - j))" if "j < 8" for n j
  proof -
    define m where "m = 7 - j"
    have m: "m < 8" "j = 7 - m" using that by (auto simp: m_def)
    then have "(8 * n + m) div 8 = n" "(8 * n + m) mod 8 = m" by simp_all
    then show ?thesis by (simp add: key_bit_def m(2))
  qed
  have hd: "8 * (h div 8) + h mod 8 = h" by simp
  have s: "bit (nk ! (h div 8)) (7 - h mod 8)"
    using b [of "7 - h mod 8" "h div 8"] kb [of h] hd assms(1) by simp
  then show ne: "nk ! (h div 8) \<noteq> 0" by auto
  have "nk ! i = 0" if i: "h div 8 < i" "i \<le> 31" for i
  proof (rule bit_eqI)
    fix j assume "possible_bit TYPE(byte) j"
    then have j: "j < 8" by simp
    have "h < 8 * i + (7 - j)" "8 * i + (7 - j) < 256" using i by auto
    then show "bit (nk ! i) j = bit 0 j" using b [OF j, of i] kb by simp
  qed
  then show "last_byte nk 31 = h div 8" using c ne by (intro last_byte_eq) auto
  have "\<not> bit (nk ! (h div 8)) j" if "j < 7 - h mod 8" for j
  proof -
    have "h < 8 * (h div 8) + (7 - j)" "8 * (h div 8) + (7 - j) < 256" using that hd c by linarith+
    then show ?thesis using b [of j "h div 8"] kb that by simp
  qed
  then show "low_zeros 8 0 (nk ! (h div 8)) = 7 - h mod 8" using s by (intro low_zeros_eq) auto
qed

text \<open>Clearing the bit that ends a node key.\<close>
lemma key_bit_clear_end:
  assumes "h \<le> 254" "length k = 32" "i < 256"
  defines "nk \<equiv> fst (GetNodeKey h k)"
  shows "key_bit (nk[h div 8 := nk ! (h div 8) XOR push_bit (7 - h mod 8) 1]) i \<longleftrightarrow> i < h \<and> key_bit k i"
proof -
  have c: "h div 8 < 32" "i div 8 < 32" using assms by auto
  have l: "length nk = 32" by (simp add: nk_def)
  have kb: "key_bit nk i \<longleftrightarrow> (if i < h then key_bit k i else i = h)"
    using key_bit_GetNodeKey [OF assms(1-3)] by (simp add: nk_def)
  show ?thesis
  proof (cases "i div 8 = h div 8")
    case True
    have "7 - i mod 8 = 7 - h mod 8 \<longleftrightarrow> i mod 8 = h mod 8"
      using mod_less_divisor [of 8 i] mod_less_divisor [of 8 h] by linarith
    also have "\<dots> \<longleftrightarrow> i = h" using True by (metis div_mod_decomp)
    finally have "bit (nk ! (h div 8) XOR push_bit (7 - h mod 8) 1) (7 - i mod 8) \<longleftrightarrow> key_bit nk i \<noteq> (i = h)"
      using True by (auto simp: bit_simps key_bit_def)
    then show ?thesis using True c l kb by (auto simp: key_bit_def)
  next
    case False
    then have "key_bit (nk[h div 8 := nk ! (h div 8) XOR push_bit (7 - h mod 8) 1]) i = key_bit nk i"
      by (simp add: key_bit_def)
    then show ?thesis using False kb by auto
  qed
qed

section \<open>Properties\<close>

text \<open>
  From a node key the height and the leading bits of the keys below the node are recovered, and
  the keys of its children are the node keys one bit further: the left one for the keys whose next
  bit is set, the right one for the others.
\<close>
theorem node_key_roundtrip:
  assumes "h \<le> 253" "length k = 32"
  shows "\<exists>key l r. GetHtKey (fst (GetNodeKey h k)) = (h, key, True)
    \<and> (\<forall>i < 256. key_bit key i \<longleftrightarrow> i < h \<and> key_bit k i)
    \<and> GetChildrenNodeKeys (fst (GetNodeKey h k)) = Ok (l, r, True)
    \<and> fst (GetNodeKey (h + 1) k) = (if key_bit k h then l else r)"
proof -
  define nk where "nk = fst (GetNodeKey h k)"
  define key where "key = nk[h div 8 := nk ! (h div 8) XOR push_bit (7 - h mod 8) 1]"
  have h: "h \<le> 254" using assms(1) by simp
  note e = node_key_end [OF h assms(2), folded nk_def]
  have len: "length nk = 32" "length key = 32" by (simp_all add: nk_def key_def)
  have kb: "key_bit key i \<longleftrightarrow> i < h \<and> key_bit k i" if "i < 256" for i
    using key_bit_clear_end [OF h assms(2) that] by (simp add: key_def nk_def)
  have nb: "key_bit nk i \<longleftrightarrow> (if i < h then key_bit k i else i = h)" if "i < 256" for i
    using key_bit_GetNodeKey [OF h assms(2) that] by (simp add: nk_def)
  have hh: "h div 8 * 8 + (8 - (7 - h mod 8 + 1)) = h" "h div 8 * 8 + 8 - (7 - h mod 8 + 1) = h"
    using div_mod_decomp [of h 8] mod_less_divisor [of 8 h] by linarith+
  have "GetHtKey nk = (h, key, True)"
    using e hh(2) by (simp add: GetHtKey_def Let_def key_def)
  moreover have "nk \<noteq> replicate 32 0"
  proof
    assume "nk = replicate 32 0"
    then show False using e(2) h by simp
  qed
  then have "GetChildrenNodeKeys nk = Ok (fst (GetNodeKey (h + 1) nk), fst (GetNodeKey (h + 1) key), True)"
    using e hh(1) assms(1) GetNodeKey_ok(1) [of "h + 1" nk] GetNodeKey_ok(1) [of "h + 1" key]
    by (simp add: GetChildrenNodeKeys_def Let_def key_def case_prod_unfold prod_eq_iff)
  moreover have "fst (GetNodeKey (h + 1) k) = fst (GetNodeKey (h + 1) (if key_bit k h then nk else key))"
    using assms len kb nb by (intro GetNodeKey_cong) (auto simp: less_Suc_eq)
  ultimately show ?thesis using kb by (auto simp: nk_def)
qed

theorem node_key_roundtrip_witness:
  "\<exists>key. GetHtKey (fst (GetNodeKey 9 (replicate 32 3))) = (9, key, True)"
  using node_key_roundtrip [of 9 "replicate 32 3"] by auto

end
