(* ===== verification/Bpt.thy ===== *)
theory Bpt
  imports Bpt_Key Sha256
begin

text \<open>
  The Binary Patricia Tree of \<^verbatim>\<open>src/smt/pmt\<close> (\<^verbatim>\<open>bpt.go\<close>, \<^verbatim>\<open>node.go\<close>, \<^verbatim>\<open>value.go\<close>,
  \<^verbatim>\<open>entry.go\<close>, \<^verbatim>\<open>loaded.go\<close>, \<^verbatim>\<open>manager.go\<close>): the tree, its byte blocks in the
  database, insertion, lookup and the update of the hashes. A pointer to a node is the path to it from the
  root, \<^term>\<open>True\<close> for left, which is the way of a one bit. The parent pointer of a node is its
  path without the last step. The database is a map from the node keys of the byte blocks; the
  prefix that is put before them is left out.
\<close>

section \<open>Entries\<close>

type_synonym path = "bool list"

datatype Entry =
    NilEntry
  | Value (vKey: bytes) (vHash: bytes)
  | BptNode (Height: nat) (NodeKey: bytes) (nHash: bytes) (Left: Entry) (Right: Entry)
  | NotLoaded

definition TNil :: byte where "TNil = 1"
definition TNode :: byte where "TNode = 2"
definition TValue :: byte where "TValue = 3"
definition TNotLoaded :: byte where "TNotLoaded = 4"

definition GetHash :: "Entry \<Rightarrow> slice" where
  "GetHash e = (case e of NilEntry \<Rightarrow> None | Value k h \<Rightarrow> Some h | BptNode ht nk h l r \<Rightarrow> Some h | NotLoaded \<Rightarrow> None)"

definition Value_Marshal :: "bytes \<Rightarrow> bytes \<Rightarrow> bytes" where
  "Value_Marshal k h = k @ h"

definition Value_UnMarshal :: "bytes \<Rightarrow> (Entry \<times> bytes) result" where
  "Value_UnMarshal data = bind_result (slice_to 32 data) (\<lambda>k. bind_result (slice_from 32 data) (\<lambda>data.
     bind_result (slice_to 32 data) (\<lambda>h. bind_result (slice_from 32 data) (\<lambda>data. Ok (Value k h, data)))))"

definition BptNode_Marshal :: "nat \<Rightarrow> bytes \<Rightarrow> bytes \<Rightarrow> bytes" where
  "BptNode_Marshal ht nk h = nk @ [word_of_nat ht] @ h"

text \<open>The height, node key and hash read, and the rest of the data.\<close>
definition BptNode_UnMarshal :: "bytes \<Rightarrow> (nat \<times> bytes \<times> bytes \<times> bytes) result" where
  "BptNode_UnMarshal data = bind_result (slice_to 32 data) (\<lambda>nk. bind_result (slice_from 32 data) (\<lambda>data.
     case data of [] \<Rightarrow> Panic ''index out of range''
     | ht # data \<Rightarrow> bind_result (slice_to 32 data) (\<lambda>h. bind_result (slice_from 32 data) (\<lambda>data.
         Ok (unat ht, nk, h, data)))))"

text \<open>
  The comparisons of entries. A failed conversion to the type of the first entry panics in the code,
  and the comparison recovers with \<^term>\<open>False\<close>; a nil entry is never the first one.
\<close>
fun Entry_Equal :: "Entry \<Rightarrow> Entry \<Rightarrow> bool" where
  "Entry_Equal (Value k h) e \<longleftrightarrow> (case e of Value k' h' \<Rightarrow> k = k' \<and> h = h' | _ \<Rightarrow> False)"
| "Entry_Equal (BptNode ht nk h l r) e \<longleftrightarrow> (case e of
     BptNode ht' nk' h' l' r' \<Rightarrow> ht = ht' \<and> nk = nk' \<and> h = h' \<and> \<not> (l = NilEntry \<and> l' \<noteq> NilEntry) \<and> \<not> (r = NilEntry \<and> r' \<noteq> NilEntry)
       \<and> (l \<noteq> NilEntry \<longrightarrow> Entry_Equal l l') \<and> (r \<noteq> NilEntry \<longrightarrow> Entry_Equal r r')
   | _ \<Rightarrow> False)"
| "Entry_Equal NotLoaded e \<longleftrightarrow> e = NotLoaded"
| "Entry_Equal NilEntry e \<longleftrightarrow> False"

lemma Entry_Equal_iff: "t \<noteq> NilEntry \<Longrightarrow> Entry_Equal t e \<longleftrightarrow> e = t"
proof (induction t arbitrary: e)
  case (BptNode ht nk h l r)
  then show ?case by (cases e; cases "l = NilEntry"; cases "r = NilEntry") auto
qed (auto split: Entry.split)

section \<open>Byte blocks\<close>

text \<open>A byte block starts at the heights whose masked bits are zero.\<close>
definition border :: "nat \<Rightarrow> nat \<Rightarrow> bool" where
  "border msk height \<longleftrightarrow> height AND msk = 0"

fun MarshalEntry :: "nat \<Rightarrow> Entry \<Rightarrow> bytes" where
  "MarshalEntry msk NilEntry = [TNil]"
| "MarshalEntry msk (Value k h) = TValue # Value_Marshal k h"
| "MarshalEntry msk NotLoaded = [TNotLoaded]"
| "MarshalEntry msk (BptNode ht nk h l r) =
     (if border msk ht then TNode # BptNode_Marshal ht nk h @ [TNotLoaded, TNotLoaded]
      else TNode # BptNode_Marshal ht nk h @ MarshalEntry msk l @ MarshalEntry msk r)"

definition MarshalByteBlock :: "nat \<Rightarrow> Entry \<Rightarrow> bytes result" where
  "MarshalByteBlock msk borderNode =
     (if \<not> border msk (Height borderNode) then Panic ''cannot call MarshalByteBlock on non-boarder nodes''
      else Ok (MarshalEntry msk (Left borderNode) @ MarshalEntry msk (Right borderNode)))"

text \<open>
  The entry read and the rest of the data; the parent's height decides whether a stub may stand
  here. The first argument bounds the depth of the recursion: each entry takes at least one byte, so
  the length of the data is always enough.
\<close>
fun unmarshal_entry :: "nat \<Rightarrow> nat \<Rightarrow> nat \<Rightarrow> bytes \<Rightarrow> (Entry \<times> bytes) result" where
  "unmarshal_entry 0 msk parentHeight data = Panic ''index out of range''"
| "unmarshal_entry (Suc n) msk parentHeight data = (case data of
     [] \<Rightarrow> Panic ''index out of range''
   | nodeType # data \<Rightarrow>
       if nodeType = TNil then Ok (NilEntry, data)
       else if nodeType = TValue then Value_UnMarshal data
       else if nodeType = TNotLoaded then
         (if \<not> border msk parentHeight then Panic ''writing a TNotLoaded node on a non-boundary node''
          else Ok (NotLoaded, data))
       else if nodeType = TNode then
         bind_result (BptNode_UnMarshal data) (\<lambda>(ht, nk, h, data).
         bind_result (unmarshal_entry n msk ht data) (\<lambda>(l, data).
         bind_result (unmarshal_entry n msk ht data) (\<lambda>(r, data). Ok (BptNode ht nk h l r, data))))
       else Panic ''failure to decode the ByteBlock'')"

definition UnMarshalEntry :: "nat \<Rightarrow> nat \<Rightarrow> bytes \<Rightarrow> (Entry \<times> bytes) result" where
  "UnMarshalEntry msk parentHeight data = unmarshal_entry (Suc (length data)) msk parentHeight data"

definition UnMarshalByteBlock :: "nat \<Rightarrow> Entry \<Rightarrow> bytes \<Rightarrow> (Entry \<times> bytes) result" where
  "UnMarshalByteBlock msk borderNode data =
     (if \<not> border msk (Height borderNode) then Panic ''cannot call UnMarshalByteBlock on non-boarder nodes''
      else bind_result (UnMarshalEntry msk (Height borderNode) data) (\<lambda>(l, data).
        bind_result (UnMarshalEntry msk (Height borderNode) data) (\<lambda>(r, data).
        Ok (BptNode (Height borderNode) (NodeKey borderNode) (nHash borderNode) l r, data))))"

section \<open>The tree\<close>

text \<open>The database behind a tree: its byte blocks by node key, and the settings.\<close>
record Manager =
  Blocks :: "bytes \<rightharpoonup> bytes"
  Settings :: slice

record BPT =
  RootHash :: bytes
  Root :: Entry
  DirtyMap :: "(bytes \<times> path) list"
  MaxHeight :: nat
  Power :: nat
  Mask :: nat
  manager :: "Manager option"

definition NewBPT :: "Manager option \<Rightarrow> BPT" where
  "NewBPT m = \<lparr> RootHash = replicate 32 0,
     Root = BptNode 0 (fst (GetNodeKey 0 (replicate 32 0))) (replicate 32 0) NilEntry NilEntry,
     DirtyMap = [], MaxHeight = 0, Power = 8, Mask = 7, manager = m \<rparr>"

definition BPT_Marshal :: "BPT \<Rightarrow> bytes" where
  "BPT_Marshal b = [word_of_nat (MaxHeight b), word_of_nat (drop_bit 8 (Power b)), word_of_nat (Power b),
     word_of_nat (drop_bit 8 (Mask b)), word_of_nat (Mask b)] @ RootHash b"

text \<open>The tree with the settings read, and the data returned.\<close>
definition BPT_UnMarshal :: "bytes \<Rightarrow> BPT \<Rightarrow> (BPT \<times> bytes) result" where
  "BPT_UnMarshal data b = (case data of
     h # p1 # p0 # m1 # m0 # data \<Rightarrow> bind_result (slice_to 32 data) (\<lambda>hash.
       Ok (b \<lparr> DirtyMap := [], MaxHeight := unat h, Power := unat p1 * 256 + unat p0,
         Mask := unat m1 * 256 + unat m0, RootHash := hash \<rparr>, hash))
   | _ \<Rightarrow> Panic ''index out of range'')"

definition NewNode :: "bytes \<Rightarrow> nat \<Rightarrow> BPT \<Rightarrow> Entry \<times> BPT" where
  "NewNode key parentHeight b = (let h = parentHeight + 1 in
     (BptNode h (fst (GetNodeKey h key)) (replicate 32 0) NilEntry NilEntry,
      if h > MaxHeight b then b \<lparr> MaxHeight := h \<rparr> else b))"

definition IsDirty :: "bytes \<Rightarrow> BPT \<Rightarrow> bool" where
  "IsDirty nodeKey b \<longleftrightarrow> map_of (DirtyMap b) nodeKey \<noteq> None"

definition Clean :: "bytes \<Rightarrow> BPT \<Rightarrow> BPT" where
  "Clean nodeKey b = b \<lparr> DirtyMap := filter (\<lambda>e. fst e \<noteq> nodeKey) (DirtyMap b) \<rparr>"

definition Dirty :: "bytes \<Rightarrow> path \<Rightarrow> BPT \<Rightarrow> BPT" where
  "Dirty nodeKey p b = b \<lparr> DirtyMap := (nodeKey, p) # filter (\<lambda>e. fst e \<noteq> nodeKey) (DirtyMap b) \<rparr>"

definition GetNodeHash :: "Entry \<Rightarrow> Entry result" where
  "GetNodeHash n = (case (GetHash (Left n), GetHash (Right n)) of
     (Some L, Some R) \<Rightarrow> Ok (BptNode (Height n) (NodeKey n) (sha256 (L @ R)) (Left n) (Right n))
   | (Some L, None) \<Rightarrow> Ok (BptNode (Height n) (NodeKey n) L (Left n) (Right n))
   | (None, Some R) \<Rightarrow> Ok (BptNode (Height n) (NodeKey n) R (Left n) (Right n))
   | (None, None) \<Rightarrow> Panic ''dead nodes should not exist'')"

definition LoadNode :: "nat \<Rightarrow> Manager \<Rightarrow> Entry \<Rightarrow> Entry result" where
  "LoadNode msk m node =
     (if \<not> border msk (Height node) then Panic ''load should not be called on a node that is not a border node''
      else case Blocks m (NodeKey node) of
          None \<Rightarrow> Panic ''Should have a Byte Block for any persisted BPT''
        | Some data \<Rightarrow> bind_result (UnMarshalByteBlock msk node data) (\<lambda>(node, _). GetNodeHash node))"

definition LoadNext :: "BPT \<Rightarrow> Entry \<Rightarrow> Entry result" where
  "LoadNext b node =
     (if Left node = NotLoaded \<or> Right node = NotLoaded
      then (case manager b of None \<Rightarrow> Panic ''invalid memory address or nil pointer dereference''
        | Some m \<Rightarrow> bind_result (LoadNode (Mask b) m node) (\<lambda>node.
            if Left node = NotLoaded \<or> Right node = NotLoaded then Panic ''We didn't load the node'' else Ok node))
      else Ok node)"

text \<open>Whether the key's bit at this height leads left; reading a byte past the end of the key panics.\<close>
definition goes_left :: "nat \<Rightarrow> bytes \<Rightarrow> bool result" where
  "goes_left height key = (if height div 8 < length key then Ok (key_bit key height) else Panic ''index out of range'')"

definition set_child :: "bool \<Rightarrow> Entry \<Rightarrow> Entry \<Rightarrow> Entry" where
  "set_child left e n = (if left then BptNode (Height n) (NodeKey n) (nHash n) e (Right n)
     else BptNode (Height n) (NodeKey n) (nHash n) (Left n) e)"

text \<open>
  The result of a lookup is the node with what had to be loaded, the path of the highest node on the
  way, the entry found there, and whether it is the key's.
\<close>
partial_function (option) BPT_Get :: "BPT \<Rightarrow> path \<Rightarrow> Entry \<Rightarrow> bytes \<Rightarrow> (Entry \<times> path \<times> Entry \<times> bool) result option" where
  "BPT_Get b p node key =
     rbind (Some (goes_left (Height node) key)) (\<lambda>left.
     rbind (Some (LoadNext b node)) (\<lambda>node.
     case (if left then Left node else Right node) of
       NilEntry \<Rightarrow> Some (Ok (node, p, NilEntry, False))
     | BptNode ht nk h l r \<Rightarrow> rbind (BPT_Get b (p @ [left]) (BptNode ht nk h l r) key)
         (\<lambda>(e, res). Some (Ok (set_child left e node, res)))
     | Value k v \<Rightarrow> Some (Ok (node, p, Value k v, k = key))
     | NotLoaded \<Rightarrow> Some (Panic ''Should never reach this point'')))"

partial_function (option) insertAtNode :: "BPT \<Rightarrow> path \<Rightarrow> Entry \<Rightarrow> bytes \<Rightarrow> bytes \<Rightarrow> (BPT \<times> Entry) result option" where
  "insertAtNode b p node key hash =
     rbind (Some (goes_left (Height node) key)) (\<lambda>left.
     rbind (Some (LoadNext b node)) (\<lambda>node.
     case (if left then Left node else Right node) of
       NilEntry \<Rightarrow> Some (Ok (Dirty (NodeKey node) p b, set_child left (Value key hash) node))
     | BptNode ht nk h l r \<Rightarrow> rbind (insertAtNode b (p @ [left]) (BptNode ht nk h l r) key hash)
         (\<lambda>(b, e). Some (Ok (b, set_child left e node)))
     | Value k v \<Rightarrow>
         if key = k then
           (if v \<noteq> hash then Some (Ok (Dirty (NodeKey node) p b, set_child left (Value k hash) node))
            else Some (Ok (b, node)))
         else let (nn, b) = NewNode key (Height node) b in
           rbind (insertAtNode b (p @ [left]) nn key hash) (\<lambda>(b, nn).
           rbind (insertAtNode b (p @ [left]) nn k v) (\<lambda>(b, nn). Some (Ok (b, set_child left nn node))))
     | NotLoaded \<Rightarrow> Some (Panic ''interface conversion: pmt.Entry is *pmt.NotLoaded, not *pmt.Value'')))"

definition BPT_Insert :: "bytes \<Rightarrow> bytes \<Rightarrow> BPT \<Rightarrow> BPT result option" where
  "BPT_Insert key hash b = rbind (insertAtNode b [] (Root b) key hash) (\<lambda>(b, root). Some (Ok (b \<lparr> Root := root \<rparr>)))"

section \<open>Update of the hashes\<close>

text \<open>The node at a path, and the tree with that node replaced.\<close>
fun node_at :: "path \<Rightarrow> Entry \<Rightarrow> Entry" where
  "node_at [] e = e"
| "node_at (d # p) e = node_at p (if d then Left e else Right e)"

fun put_at :: "path \<Rightarrow> Entry \<Rightarrow> Entry \<Rightarrow> Entry" where
  "put_at [] n e = n"
| "put_at (d # p) n e = set_child d (put_at p n (if d then Left e else Right e)) e"

text \<open>
  The dirty nodes, the highest first. Nodes of the same height come in the order of the list here
  and in no fixed order in the code.
\<close>
definition GetDirtyList :: "BPT \<Rightarrow> path list" where
  "GetDirtyList b = rev (sort_key (\<lambda>p. Height (node_at p (Root b))) (map snd (DirtyMap b)))"

definition FlushNode :: "BPT \<Rightarrow> Entry \<Rightarrow> Manager \<Rightarrow> Manager result" where
  "FlushNode b node m = (if Height node AND 7 = 0 then
       bind_result (MarshalByteBlock (Mask b) node) (\<lambda>data.
         let m = m \<lparr> Blocks := (Blocks m)(NodeKey node \<mapsto> data) \<rparr>
         in if Height node = 0 then Ok (m \<lparr> Settings := Some (BPT_Marshal b) \<rparr>) else Ok m)
     else Ok m)"

definition flush :: "Entry \<Rightarrow> BPT \<Rightarrow> BPT result" where
  "flush node b = (case manager b of None \<Rightarrow> Ok b
     | Some m \<Rightarrow> map_ok (\<lambda>m. b \<lparr> manager := Some m \<rparr>) (FlushNode b node m))"

text \<open>One node of the inner loop.\<close>
definition update_node :: "path \<Rightarrow> BPT \<Rightarrow> BPT result" where
  "update_node p b = (let n = node_at p (Root b) in
     bind_result (if border (Mask b) (Height n) then flush n b else Ok b) (\<lambda>b.
     bind_result (GetNodeHash n) (\<lambda>n.
       let b = b \<lparr> Root := put_at p n (Root b) \<rparr>; b = Clean (NodeKey n) b
       in Ok (if p = [] then b else Dirty (NodeKey (node_at (butlast p) (Root b))) (butlast p) b))))"

text \<open>The inner loop, over the dirty nodes of height \<^term>\<open>h\<close>.\<close>
fun update_pass :: "nat \<Rightarrow> path list \<Rightarrow> BPT \<Rightarrow> BPT result" where
  "update_pass h [] b = Ok b"
| "update_pass h (p # ps) b = (if Height (node_at p (Root b)) \<noteq> h then Ok b
     else bind_result (update_node p b) (update_pass h ps))"

partial_function (option) update_loop :: "BPT \<Rightarrow> BPT result option" where
  "update_loop b = (case GetDirtyList b of
       [] \<Rightarrow> Some (Ok b)
     | p # ps \<Rightarrow> rbind (Some (update_pass (Height (node_at p (Root b))) (p # ps) b)) update_loop)"

definition Update :: "BPT \<Rightarrow> BPT result option" where
  "Update b = rbind (update_loop b) (\<lambda>b.
     rbind (Some (case manager b of None \<Rightarrow> Ok b
       | Some _ \<Rightarrow> (let b = b \<lparr> RootHash := nHash (Root b) \<rparr> in flush (Root b) b))) (\<lambda>b.
     Some (Ok (b \<lparr> RootHash := nHash (Root b) \<rparr>))))"

definition EnsureRootHash :: "BPT \<Rightarrow> BPT" where
  "EnsureRootHash b = (case GetNodeHash (Root b) of Ok n \<Rightarrow> b \<lparr> Root := n \<rparr> | _ \<Rightarrow> b)"

definition BPT_Equal :: "BPT \<Rightarrow> BPT \<Rightarrow> bool" where
  "BPT_Equal b b2 \<longleftrightarrow> Entry_Equal (Root b) (Root b2) \<and> MaxHeight b = MaxHeight b2"

definition NewBPTManager :: "Manager \<Rightarrow> BPT result" where
  "NewBPTManager m = (let b = NewBPT (Some m) in case Settings m of
       None \<Rightarrow> Ok b
     | Some data \<Rightarrow> bind_result (BPT_UnMarshal data b) (\<lambda>(b, _).
         map_ok (\<lambda>root. b \<lparr> Root := root \<rparr>) (LoadNode (Mask b) m (Root b))))"

end
