(* ===== verification/Bpt_Insert.thy ===== *)
theory Bpt_Insert
  imports Bpt
begin

text \<open>
  Insertion and lookup in the Binary Patricia Tree. A well-formed tree holds every key below the path
  its bits give, and a node other than the root has at least two keys below it. The tree is a map
  from keys to hashes; insertion is the update of the map, and marks as dirty a node at or below
  every node whose hash is no longer that of its children.
\<close>

section \<open>Well-formed trees\<close>

fun tmap :: "Entry \<Rightarrow> bytes \<rightharpoonup> bytes" where
  "tmap NilEntry = Map.empty"
| "tmap (Value k h) = [k \<mapsto> h]"
| "tmap (BptNode ht nk h l r) = tmap l ++ tmap r"
| "tmap NotLoaded = Map.empty"

definition two :: "Entry \<Rightarrow> bool" where
  "two t \<longleftrightarrow> (\<exists>k k'. k \<noteq> k' \<and> k \<in> dom (tmap t) \<and> k' \<in> dom (tmap t))"

fun wf :: "path \<Rightarrow> Entry \<Rightarrow> bool" where
  "wf p NilEntry \<longleftrightarrow> True"
| "wf p (Value k h) \<longleftrightarrow> length k = 32 \<and> length h = 32 \<and> under p k"
| "wf p (BptNode ht nk h l r) \<longleftrightarrow> ht = length p \<and> length p \<le> 254 \<and> nk = nodekey p \<and> length h = 32
     \<and> wf (p @ [True]) l \<and> wf (p @ [False]) r \<and> (p \<noteq> [] \<longrightarrow> two (BptNode ht nk h l r))"
| "wf p NotLoaded \<longleftrightarrow> False"

abbreviation child :: "bool \<Rightarrow> Entry \<Rightarrow> Entry" where
  "child d n \<equiv> (if d then Left n else Right n)"

text \<open>A well-formed node but for the number of keys below it.\<close>
definition wfn :: "path \<Rightarrow> Entry \<Rightarrow> bool" where
  "wfn p n \<longleftrightarrow> is_BptNode n \<and> Height n = length p \<and> length p \<le> 254 \<and> NodeKey n = nodekey p \<and> length (nHash n) = 32
     \<and> (\<forall>d. wf (p @ [d]) (child d n))"

lemma wf_node: "is_BptNode n \<Longrightarrow> wf p n \<longleftrightarrow> wfn p n \<and> (p \<noteq> [] \<longrightarrow> two n)"
  by (cases n) (auto simp: wfn_def all_bool_eq)

lemma wf_dom: "wf p t \<Longrightarrow> k \<in> dom (tmap t) \<Longrightarrow> length k = 32 \<and> under p k"
proof (induction t arbitrary: p)
  case (BptNode ht nk h l r)
  then show ?case by (auto simp: map_add_def split: option.splits) (metis domI under_snoc)+
qed auto

lemma wf_ran: "wf p t \<Longrightarrow> tmap t k = Some h \<Longrightarrow> length h = 32"
  by (induction t arbitrary: p) (auto simp: map_add_def split: option.splits if_splits)

lemma tmap_bit:
  assumes "wfn p n"
  shows "tmap n k = tmap (child (key_bit k (length p)) n) k"
proof -
  obtain ht nk h l r where n: "n = BptNode ht nk h l r" using assms by (cases n) (auto simp: wfn_def)
  have l: "wf (p @ [True]) l" and r: "wf (p @ [False]) r" using assms by (auto simp: n wfn_def all_bool_eq)
  show ?thesis
  proof (cases "key_bit k (length p)")
    case True
    then have "tmap r k = None" using wf_dom [OF r, of k] by auto
    then show ?thesis using True by (simp add: n map_add_def)
  next
    case False
    then have "tmap l k = None" using wf_dom [OF l, of k] by auto
    then show ?thesis using False by (simp add: n map_add_def split: option.splits)
  qed
qed

lemma set_child_simps [simp]:
  "is_BptNode (set_child d e n)" "Height (set_child d e n) = Height n" "NodeKey (set_child d e n) = NodeKey n"
  "nHash (set_child d e n) = nHash n" "child d (set_child d e n) = e" "child (\<not> d) (set_child d e n) = child (\<not> d) n"
  by (simp_all add: set_child_def)

lemma child_set_child: "child c (set_child d e n) = (if c = d then e else child c n)"
  by (simp add: set_child_def)

lemma wfn_set_child: "wfn p n \<Longrightarrow> wf (p @ [d]) e \<Longrightarrow> wfn p (set_child d e n)"
  unfolding wfn_def by (simp add: child_set_child split del: if_split) simp

lemma tmap_set_child:
  assumes "wfn p n" "wf (p @ [d]) e" "tmap e = (tmap (child d n))(key \<mapsto> hash)" "key_bit key (length p) = d"
  shows "tmap (set_child d e n) = (tmap n)(key \<mapsto> hash)"
proof
  fix k
  define c where "c = key_bit k (length p)"
  have "tmap (set_child d e n) k = tmap (child c (set_child d e n)) k"
    unfolding c_def by (rule tmap_bit [OF wfn_set_child [OF assms(1,2)]])
  also have "\<dots> = (if c = d then tmap e k else tmap (child c n) k)"
    by (simp only: child_set_child split: if_split) simp
  also have "\<dots> = ((tmap n)(key \<mapsto> hash)) k"
  proof (cases "c = d")
    case True
    have "tmap n k = tmap (child d n) k" using tmap_bit [OF assms(1), of k] unfolding c_def [symmetric] True .
    then show ?thesis unfolding True assms(3) by (simp only: fun_upd_apply if_True refl simp_thms)
  next
    case False
    then have "k \<noteq> key" using assms(4) by (auto simp: c_def)
    then show ?thesis using False tmap_bit [OF assms(1), of k] unfolding c_def [symmetric] by (simp only: fun_upd_apply if_False)
  qed
  finally show "tmap (set_child d e n) k = ((tmap n)(key \<mapsto> hash)) k" .
qed

section \<open>Dirty nodes\<close>

definition dset :: "BPT \<Rightarrow> path set" where
  "dset b = snd ` set (DirtyMap b)"

definition dinv :: "BPT \<Rightarrow> bool" where
  "dinv b \<longleftrightarrow> distinct (map fst (DirtyMap b)) \<and> (\<forall>(k, p) \<in> set (DirtyMap b). k = nodekey p \<and> length p \<le> 254)"

lemma dinv_Dirty [keeps]: "dinv b \<Longrightarrow> length p \<le> 254 \<Longrightarrow> dinv (Dirty (nodekey p) p b)"
  by (auto simp: dinv_def Dirty_def distinct_map_filter)

lemma dset_filter:
  assumes "dinv b" "length p \<le> 254"
  shows "snd ` set (filter (\<lambda>e. fst e \<noteq> nodekey p) (DirtyMap b)) = dset b - {p}"
proof -
  have "fst e \<noteq> nodekey p \<longleftrightarrow> snd e \<noteq> p" if "e \<in> set (DirtyMap b)" for e
  proof -
    have "fst e = nodekey (snd e)" "length (snd e) \<le> 254" using assms(1) that by (auto simp: dinv_def)
    then show ?thesis using nodekey_inj [of "snd e" p] assms(2) by auto
  qed
  then have "filter (\<lambda>e. fst e \<noteq> nodekey p) (DirtyMap b) = filter (\<lambda>e. snd e \<noteq> p) (DirtyMap b)"
    by (intro filter_cong) auto
  then show ?thesis by (auto simp: dset_def)
qed

lemma dset_Dirty: "dinv b \<Longrightarrow> length p \<le> 254 \<Longrightarrow> dset (Dirty (nodekey p) p b) = insert p (dset b)"
  using dset_filter [of b p] by (simp add: dset_def Dirty_def)

lemma dinv_Clean [keeps]: "dinv b \<Longrightarrow> dinv (Clean k b)"
  by (auto simp: dinv_def Clean_def distinct_map_filter)

lemma dset_Clean: "dinv b \<Longrightarrow> length p \<le> 254 \<Longrightarrow> dset (Clean (nodekey p) b) = dset b - {p}"
  using dset_filter [of b p] by (simp add: dset_def Clean_def)

text \<open>A predicate holds of every node but those with a dirty node at or below them.\<close>
fun lok :: "(path \<Rightarrow> Entry \<Rightarrow> bool) \<Rightarrow> path set \<Rightarrow> path \<Rightarrow> Entry \<Rightarrow> bool" where
  "lok P D p (BptNode ht nk h l r) \<longleftrightarrow> lok P D (p @ [True]) l \<and> lok P D (p @ [False]) r
     \<and> ((\<exists>d \<in> D. prefix p d) \<or> P p (BptNode ht nk h l r))"
| "lok P D p _ \<longleftrightarrow> True"

definition lok_children :: "(path \<Rightarrow> Entry \<Rightarrow> bool) \<Rightarrow> path set \<Rightarrow> path \<Rightarrow> Entry \<Rightarrow> bool" where
  "lok_children P D p n \<longleftrightarrow> (\<forall>d. lok P D (p @ [d]) (child d n))"

lemma lok_node: "is_BptNode n \<Longrightarrow> lok P D p n \<longleftrightarrow> lok_children P D p n \<and> ((\<exists>d \<in> D. prefix p d) \<or> P p n)"
  by (cases n) (auto simp: lok_children_def all_bool_eq)

lemma lok_mono: "lok P D p t \<Longrightarrow> D \<subseteq> E \<Longrightarrow> lok P E p t"
  by (induction P D p t rule: lok.induct) auto

text \<open>The hash of every node is that of its children, but above dirty nodes.\<close>
abbreviation hok :: "path set \<Rightarrow> path \<Rightarrow> Entry \<Rightarrow> bool" where
  "hok \<equiv> lok (\<lambda>p n. GetNodeHash n = Ok n)"

text \<open>There is a node at the path.\<close>
fun inode :: "path \<Rightarrow> Entry \<Rightarrow> bool" where
  "inode [] t \<longleftrightarrow> is_BptNode t"
| "inode (d # p) t \<longleftrightarrow> is_BptNode t \<and> inode p (child d t)"

lemma inode_set_child: "inode q (set_child d e n) \<longleftrightarrow> (case q of [] \<Rightarrow> True | c # q \<Rightarrow> inode q (if c = d then e else child c n))"
  by (cases q) (simp_all add: child_set_child split del: if_split)

section \<open>Insertion\<close>

text \<open>Keys that differ within the bits that a node key can hold.\<close>
definition apart :: "bytes \<Rightarrow> bytes \<Rightarrow> bool" where
  "apart k k' \<longleftrightarrow> (\<exists>i < 255. key_bit k i \<noteq> key_bit k' i)"

lemma apart_sym: "apart k k' \<longleftrightarrow> apart k' k"
  by (auto simp: apart_def)

text \<open>What the insertion below a node does.\<close>
definition inserted :: "BPT \<Rightarrow> path \<Rightarrow> Entry \<Rightarrow> bytes \<Rightarrow> bytes \<Rightarrow> BPT \<Rightarrow> Entry \<Rightarrow> bool" where
  "inserted b p n key hash b' n' \<longleftrightarrow> wfn p n' \<and> tmap n' = (tmap n)(key \<mapsto> hash) \<and> dinv b' \<and> dset b \<subseteq> dset b'
     \<and> (\<forall>P. lok_children P (dset b) p n \<longrightarrow> lok_children P (dset b') p n') \<and> (n' = n \<or> (\<exists>x \<in> dset b'. prefix p x))
     \<and> (\<forall>q. inode q n \<longrightarrow> inode q n') \<and> (\<forall>x \<in> dset b'. x \<in> dset b \<or> (\<exists>q. x = p @ q \<and> inode q n'))
     \<and> Mask b' = Mask b \<and> manager b' = manager b"

lemma inserted_child:
  assumes n: "wfn p n" "key_bit key (length p) = d"
    and e: "wf (p @ [d]) e" "tmap e = (tmap (child d n))(key \<mapsto> hash)"
      "\<forall>P. lok_children P (dset b) p n \<longrightarrow> lok P (dset b') (p @ [d]) e"
    and b: "dinv b'" "dset b \<subseteq> dset b'" "e = child d n \<or> (\<exists>x \<in> dset b'. prefix p x)"
      "Mask b' = Mask b" "manager b' = manager b"
    and i: "\<forall>q. inode q (child d n) \<longrightarrow> inode q e"
      "\<forall>x \<in> dset b'. x \<in> dset b \<or> x = p \<or> (\<exists>q. x = (p @ [d]) @ q \<and> inode q e)"
  shows "inserted b p n key hash b' (set_child d e n)"
proof -
  let ?n = "set_child d e n"
  have hc: "lok P (dset b') (p @ [c]) (child c ?n)" if P: "lok_children P (dset b) p n" for P c
  proof (cases "c = d")
    case True
    show ?thesis unfolding child_set_child True using e(3) P by simp
  next
    case False
    have "lok P (dset b') (p @ [c]) (child c n)"
      using P unfolding lok_children_def by (intro lok_mono [OF _ b(2)]) blast
    then show ?thesis using False unfolding child_set_child by (simp only: if_False)
  qed
  have same: "?n = n" if "e = child d n" using that n(1) by (cases n) (auto simp: set_child_def wfn_def)
  have inn: "inode q ?n" if "inode q n" for q
  proof (cases q)
    case (Cons c q')
    then have "inode q' (child c n)" using that by (simp del: if_split_asm)
    then show ?thesis using i(1) Cons unfolding inode_set_child by (cases "c = d") simp_all
  qed (simp add: inode_set_child)
  have dirt: "\<exists>q. x = p @ q \<and> inode q ?n" if "x = p \<or> (\<exists>q. x = (p @ [d]) @ q \<and> inode q e)" for x
    using that
  proof (elim disjE exE conjE)
    fix q assume "x = (p @ [d]) @ q" "inode q e"
    then have "x = p @ (d # q) \<and> inode (d # q) ?n" by (simp add: inode_set_child)
    then show ?thesis by blast
  next
    assume "x = p"
    then have "x = p @ [] \<and> inode [] ?n" by simp
    then show ?thesis by blast
  qed
  have "?n = n \<or> (\<exists>x \<in> dset b'. prefix p x)" using b(3) same by blast
  moreover have "\<forall>x \<in> dset b'. x \<in> dset b \<or> (\<exists>q. x = p @ q \<and> inode q ?n)" using i(2) dirt by blast
  moreover have "\<forall>P. lok_children P (dset b) p n \<longrightarrow> lok_children P (dset b') p ?n" using hc unfolding lok_children_def by blast
  ultimately show ?thesis
    unfolding inserted_def
    by (intro conjI wfn_set_child [OF n(1) e(1)] tmap_set_child [OF n(1) e(1,2) n(2)]) (use b inn in blast)+
qed

lemma inserted_value:
  assumes n: "wfn p n" "dinv b" "child d n = NilEntry \<or> (\<exists>v. child d n = Value key v)"
    and k: "length key = 32" "length hash = 32" "under p key" "key_bit key (length p) = d"
  shows "inserted b p n key hash (Dirty (NodeKey n) p b) (set_child d (Value key hash) n)"
proof -
  have p: "length p \<le> 254" "NodeKey n = nodekey p" using n(1) by (simp_all add: wfn_def)
  have c: "\<not> inode q (child d n)" for q using n(3) by (cases q) (auto split: if_splits)
  show ?thesis
    unfolding p(2) using n k p c dinv_Dirty [OF n(2) p(1)] dset_Dirty [OF n(2) p(1)]
    by (intro inserted_child [OF n(1) k(4)]) (auto simp: Dirty_def split: if_splits)
qed

lemma LoadNext_loaded: "wfn p n \<Longrightarrow> LoadNext b n = Ok n"
  by (cases n) (auto simp: wfn_def LoadNext_def all_bool_eq)

lemma insertAtNode_step:
  assumes "wfn p n" "length key = 32" "key_bit key (length p) = d"
  shows "insertAtNode b p n key hash = (case child d n of
       NilEntry \<Rightarrow> Some (Ok (Dirty (NodeKey n) p b, set_child d (Value key hash) n))
     | BptNode ht nk h l r \<Rightarrow> rbind (insertAtNode b (p @ [d]) (BptNode ht nk h l r) key hash)
         (\<lambda>(b, e). Some (Ok (b, set_child d e n)))
     | Value k v \<Rightarrow>
         if key = k then
           (if v \<noteq> hash then Some (Ok (Dirty (NodeKey n) p b, set_child d (Value k hash) n))
            else Some (Ok (b, n)))
         else let (nn, b) = NewNode key (length p) b in
           rbind (insertAtNode b (p @ [d]) nn key hash) (\<lambda>(b, nn).
           rbind (insertAtNode b (p @ [d]) nn k v) (\<lambda>(b, nn). Some (Ok (b, set_child d nn n))))
     | NotLoaded \<Rightarrow> Some (Panic ''interface conversion: pmt.Entry is *pmt.NotLoaded, not *pmt.Value''))"
proof -
  have h: "Height n = length p" "length p \<le> 254" using assms(1) by (simp_all add: wfn_def)
  then have "length p div 8 < 32" by auto
  then have g: "goes_left (length p) key = Ok d" using assms(2,3) by (simp add: goes_left_def)
  show ?thesis
    by (subst insertAtNode.simps) (simp only: h g LoadNext_loaded [OF assms(1)] rbind_simps)
qed

lemma inserted_unchanged:
  assumes "wfn p n" "dinv b" "tmap n key = Some hash"
  shows "inserted b p n key hash b n"
  using assms by (auto simp: inserted_def)

lemma two_inserted: "two n \<Longrightarrow> tmap n' = (tmap n)(key \<mapsto> hash) \<Longrightarrow> two n'"
  by (auto simp: two_def)

text \<open>The child that takes the place of an entry is well-formed once two keys are below it.\<close>
lemma inserted_wf:
  assumes "inserted b p n key hash b' n'" "two n'"
  shows "wf p n'"
  using assms wf_node [of n' p] by (auto simp: inserted_def wfn_def)

lemma inserted_lok:
  assumes "inserted b p n key hash b' n'" "lok_children P (dset b) p n" "lok P (dset b) p n \<or> (\<exists>x \<in> dset b'. prefix p x)"
  shows "lok P (dset b') p n'"
proof -
  have n': "is_BptNode n'" "lok_children P (dset b') p n'" "dset b \<subseteq> dset b'" "n' = n \<or> (\<exists>x \<in> dset b'. prefix p x)"
    using assms(1,2) by (auto simp: inserted_def wfn_def)
  then show ?thesis using assms(3) lok_mono [of P "dset b" p n "dset b'"] lok_node [of n'] by auto
qed

lemma NewNode_simps:
  assumes "NewNode key (length p) b = (nn, b1)" "length key = 32" "under (p @ [d]) key" "length p + 1 \<le> 254"
  shows "wfn (p @ [d]) nn" "tmap nn = Map.empty" "lok_children P D (p @ [d]) nn" "dset b1 = dset b" "dinv b1 = dinv b"
    "Mask b1 = Mask b" "manager b1 = manager b"
proof -
  have nn: "nn = BptNode (length (p @ [d])) (nodekey (p @ [d])) (replicate 32 0) NilEntry NilEntry"
    using assms nodekey_under [of "p @ [d]" key] by (auto simp: NewNode_def Let_def)
  show "wfn (p @ [d]) nn" "tmap nn = Map.empty" "lok_children P D (p @ [d]) nn"
    using assms(4) by (simp_all add: nn wfn_def lok_children_def)
  have "b1 = b \<or> b1 = b \<lparr> MaxHeight := length p + 1 \<rparr>" using assms(1) by (auto simp: NewNode_def Let_def split: if_splits)
  then show "dset b1 = dset b" "dinv b1 = dinv b" "Mask b1 = Mask b" "manager b1 = manager b"
    by (auto simp: dset_def dinv_def)
qed

text \<open>A collision: the value gives way to a new node that takes both keys.\<close>
lemma inserted_collision:
  assumes n: "wfn p n" "child d n = Value k v" "key \<noteq> k"
    and key: "length key = 32" "under (p @ [d]) key" "length p + 1 \<le> 254"
    and nn: "NewNode key (length p) b = (nn, b1)"
    and r2: "inserted b1 (p @ [d]) nn key hash b2 n2" and r3: "inserted b2 (p @ [d]) n2 k v b3 n3"
  shows "inserted b p n key hash b3 (set_child d n3 n)"
proof -
  note nb = NewNode_simps [OF nn key]
  have i2: "tmap n2 = [key \<mapsto> hash]" "n2 = nn \<or> (\<exists>x \<in> dset b2. prefix (p @ [d]) x)" "dset b1 \<subseteq> dset b2"
      "\<forall>x \<in> dset b2. x \<in> dset b1 \<or> (\<exists>q. x = (p @ [d]) @ q \<and> inode q n2)" "Mask b2 = Mask b1" "manager b2 = manager b1"
    using r2 by (auto simp: inserted_def nb(2))
  have i3: "tmap n3 = [key \<mapsto> hash, k \<mapsto> v]" "dinv b3" "dset b2 \<subseteq> dset b3" "\<forall>q. inode q n2 \<longrightarrow> inode q n3"
      "\<forall>x \<in> dset b3. x \<in> dset b2 \<or> (\<exists>q. x = (p @ [d]) @ q \<and> inode q n3)" "Mask b3 = Mask b2" "manager b3 = manager b2"
    using r3 by (auto simp: inserted_def i2(1))
  have "n2 \<noteq> nn" using i2(1) nb(2) map_upd_nonempty [of Map.empty key hash] by metis
  then have dirty: "\<exists>x \<in> dset b3. prefix (p @ [d]) x" using i2(2) i3(3) by blast
  have "two n3" using n(3) i3(1) by (auto simp: two_def)
  then have "wf (p @ [d]) n3" using inserted_wf [OF r3] by blast
  moreover have "lok_children P (dset b2) (p @ [d]) n2" for P using r2 nb(3) unfolding inserted_def by blast
  then have "lok P (dset b3) (p @ [d]) n3" for P using inserted_lok [OF r3] dirty by blast
  moreover have "\<exists>x \<in> dset b3. prefix p x" using dirty by (meson append_prefixD)
  moreover have "\<forall>x \<in> dset b3. x \<in> dset b \<or> x = p \<or> (\<exists>q. x = (p @ [d]) @ q \<and> inode q n3)"
    using i3(4,5) i2(4) nb(4) by metis
  moreover have "\<not> inode q (child d n)" for q using n(2) by (cases q) simp_all
  moreover have "key_bit key (length p) = d" using key(2) by simp
  ultimately show ?thesis using i2 i3 nb n by (intro inserted_child) (auto simp: fun_upd_twist)
qed

text \<open>The insertion below a child that is a node.\<close>
lemma inserted_below:
  assumes n: "wfn p n" "is_BptNode (child d n)" "key_bit key (length p) = d"
    and r: "inserted b (p @ [d]) (child d n) key hash b' e"
  shows "inserted b p n key hash b' (set_child d e n)"
proof -
  have c: "wf (p @ [d]) (child d n)" using n(1) unfolding wfn_def by blast
  have i: "tmap e = (tmap (child d n))(key \<mapsto> hash)" "dinv b'" "dset b \<subseteq> dset b'"
      "e = child d n \<or> (\<exists>x \<in> dset b'. prefix (p @ [d]) x)" "\<forall>q. inode q (child d n) \<longrightarrow> inode q e"
      "\<forall>x \<in> dset b'. x \<in> dset b \<or> (\<exists>q. x = (p @ [d]) @ q \<and> inode q e)" "Mask b' = Mask b" "manager b' = manager b"
    using r unfolding inserted_def by blast+
  have "two (child d n)" using c wf_node [OF n(2), of "p @ [d]"] by blast
  then have w: "wf (p @ [d]) e" using inserted_wf [OF r two_inserted [OF _ i(1)]] by blast
  have h: "\<forall>P. lok_children P (dset b) p n \<longrightarrow> lok P (dset b') (p @ [d]) e"
  proof (intro allI impI)
    fix P assume "lok_children P (dset b) p n"
    then have "lok P (dset b) (p @ [d]) (child d n)" unfolding lok_children_def by blast
    then show "lok P (dset b') (p @ [d]) e" using inserted_lok [OF r] lok_node [OF n(2)] by blast
  qed
  have "e = child d n \<or> (\<exists>x \<in> dset b'. prefix p x)" using i(4) by (meson append_prefixD)
  then show ?thesis
    by (rule inserted_child [OF n(1,3) w i(1) h i(2,3)]) (use i in blast)+
qed

lemma insertAtNode_inserted:
  assumes "wfn p n" "dinv b" "length key = 32" "length hash = 32" "under p key"
    "\<forall>k \<in> dom (tmap n). k = key \<or> apart k key"
  shows "\<exists>b' n'. insertAtNode b p n key hash = Some (Ok (b', n')) \<and> inserted b p n key hash b' n'"
  using assms
proof (induction "254 - length p" arbitrary: p n b key hash rule: less_induct)
  case less
  define d where "d = key_bit key (length p)"
  note step = insertAtNode_step [OF less.prems(1,3) d_def [symmetric], of b hash]
  note leaf = inserted_value [OF less.prems(1,2) _ less.prems(3-5) d_def [symmetric]]
  have c: "wf (p @ [d]) (child d n)" using less.prems(1) unfolding wfn_def by blast
  have tm: "tmap n k = tmap (child d n) k" if "key_bit k (length p) = d" for k
    using tmap_bit [OF less.prems(1), of k] that by simp
  have ud: "under (p @ [d]) key" using less.prems(5) by (simp add: d_def)
  show ?case
  proof (cases "child d n")
    case NilEntry
    then show ?thesis using leaf step by auto
  next
    case (Value k v)
    then have kv: "length k = 32" "length v = 32" "under (p @ [d]) k" "tmap n k = Some v"
      using c tm [of k] by simp_all
    show ?thesis
    proof (cases "key = k")
      case True
      then show ?thesis
        using leaf step Value kv(4) inserted_unchanged [OF less.prems(1,2)] by (cases "v = hash") auto
    next
      case ne: False
      have ap: "apart k key" using less.prems(6) ne domI [of "tmap n", OF kv(4)] by auto
      then obtain i where i: "i < 255" "key_bit k i \<noteq> key_bit key i" by (auto simp: apart_def)
      have "\<not> i < length (p @ [d])" using i(2) kv(3) ud by (auto simp: under_def simp del: under_snoc)
      then have lp: "length p + 1 \<le> 254" "254 - length (p @ [d]) < 254 - length p" using i(1) by auto
      obtain nn b1 where nn: "NewNode key (length p) b = (nn, b1)" by fastforce
      note nb = NewNode_simps [OF nn less.prems(3) ud lp(1)]
      obtain b2 n2 where r2: "insertAtNode b1 (p @ [d]) nn key hash = Some (Ok (b2, n2))" "inserted b1 (p @ [d]) nn key hash b2 n2"
        using less.hyps [OF lp(2) nb(1) _ less.prems(3,4) ud, of b1] nb(2,5) less.prems(2) by auto
      then have i2: "wfn (p @ [d]) n2" "tmap n2 = [key \<mapsto> hash]" "dinv b2"
        by (simp_all add: inserted_def nb(2))
      obtain b3 n3 where r3: "insertAtNode b2 (p @ [d]) n2 k v = Some (Ok (b3, n3))" "inserted b2 (p @ [d]) n2 k v b3 n3"
        using less.hyps [OF lp(2) i2(1,3) kv(1-3)] i2(2) ap apart_sym [of k key] by auto
      have "insertAtNode b p n key hash = Some (Ok (b3, set_child d n3 n))"
        using step Value ne nn r2(1) r3(1) by simp
      then show ?thesis
        using inserted_collision [OF less.prems(1) Value ne less.prems(3) ud lp(1) nn r2(2) r3(2)] by blast
    qed
  next
    case (BptNode ht nk h l r)
    then have nd: "is_BptNode (child d n)" by simp
    then have w: "wfn (p @ [d]) (child d n)" using c wf_node [OF nd, of "p @ [d]"] by blast
    then have "length (p @ [d]) \<le> 254" by (simp add: wfn_def)
    then have lp: "254 - length (p @ [d]) < 254 - length p" by simp
    have "k = key \<or> apart k key" if k: "k \<in> dom (tmap (child d n))" for k
      using less.prems(6) k wf_dom [OF c k] tm [of k] by (auto split del: if_split)
    then obtain b' e where r: "insertAtNode b (p @ [d]) (child d n) key hash = Some (Ok (b', e))"
        "inserted b (p @ [d]) (child d n) key hash b' e"
      using less.hyps [OF lp w less.prems(2-4) ud] by blast
    have "insertAtNode b p n key hash = Some (Ok (b', set_child d e n))" using step BptNode r(1) by simp
    then show ?thesis using inserted_below [OF less.prems(1) nd d_def [symmetric] r(2)] by blast
  next
    case NotLoaded
    then show ?thesis using c by simp
  qed
qed

section \<open>The tree as a map\<close>

definition bpt_contents :: "BPT \<Rightarrow> bytes \<rightharpoonup> bytes" where
  "bpt_contents b = tmap (Root b)"

text \<open>
  The invariant of a tree that is wholly in memory. The root of an empty tree has no children, so
  no hash; it is the only node and it is clean.
\<close>
definition bpt_inv :: "BPT \<Rightarrow> bool" where
  "bpt_inv b \<longleftrightarrow> is_BptNode (Root b) \<and> wf [] (Root b) \<and> dinv b \<and> Mask b = 7
     \<and> (\<forall>x \<in> dset b. inode x (Root b))
     \<and> (if bpt_contents b = Map.empty then dset b = {} \<and> nHash (Root b) = replicate 32 0 else hok (dset b) [] (Root b))"

text \<open>A key that can be told from the others within the bits that a node key can hold.\<close>
definition admissible :: "(bytes \<rightharpoonup> bytes) \<Rightarrow> bytes \<Rightarrow> bytes \<Rightarrow> bool" where
  "admissible m key hash \<longleftrightarrow> length key = 32 \<and> length hash = 32 \<and> (\<forall>k \<in> dom m. k = key \<or> apart k key)"

lemma NewBPT_inv: "bpt_inv (NewBPT m)" "bpt_contents (NewBPT m) = Map.empty"
  using nodekey_under [of "[]" "replicate 32 0"]
  by (simp_all add: bpt_inv_def NewBPT_def bpt_contents_def dset_def dinv_def)

lemma wf_no_keys: "wf p t \<Longrightarrow> p \<noteq> [] \<Longrightarrow> tmap t = Map.empty \<Longrightarrow> t = NilEntry"
  by (cases t) (auto simp: two_def)

lemma empty_root:
  assumes "is_BptNode n" "wf [] n" "tmap n = Map.empty"
  shows "Left n = NilEntry" "Right n = NilEntry"
  using assms wf_no_keys [of "[True]"] wf_no_keys [of "[False]"] by (cases n; simp)+

text \<open>Insertion keeps what holds of the nodes without dirty nodes below them.\<close>
lemma BPT_Insert_lok:
  assumes "bpt_inv b" "admissible (bpt_contents b) key hash"
  shows "\<exists>b'. BPT_Insert key hash b = Some (Ok b') \<and> bpt_inv b' \<and> bpt_contents b' = (bpt_contents b)(key \<mapsto> hash)
    \<and> manager b' = manager b \<and> (\<forall>P. bpt_contents b = Map.empty \<or> lok P (dset b) [] (Root b) \<longrightarrow> lok P (dset b') [] (Root b'))"
proof -
  have b: "wfn [] (Root b)" "dinv b" "\<forall>x \<in> dset b. inode x (Root b)" "Mask b = 7" "is_BptNode (Root b)" "wf [] (Root b)"
    using assms(1) wf_node [of "Root b" "[]"] by (auto simp: bpt_inv_def)
  obtain b' n where r: "insertAtNode b [] (Root b) key hash = Some (Ok (b', n))" "inserted b [] (Root b) key hash b' n"
    using insertAtNode_inserted [OF b(1,2), of key hash] assms(2) unfolding admissible_def bpt_contents_def by auto
  then have i: "wfn [] n" "tmap n = (tmap (Root b))(key \<mapsto> hash)" "dinv b'"
      "n = Root b \<or> (\<exists>x. x \<in> dset b')" "\<forall>q. inode q (Root b) \<longrightarrow> inode q n"
      "\<forall>x \<in> dset b'. x \<in> dset b \<or> inode x n" "Mask b' = Mask b" "dset b \<subseteq> dset b'" "manager b' = manager b"
    by (auto simp: inserted_def)
  have n: "is_BptNode n" "wf [] n" using i(1) wf_node [of n "[]"] by (auto simp: wfn_def)
  have lok: "lok P (dset b') [] n" if "bpt_contents b = Map.empty \<or> lok P (dset b) [] (Root b)" for P
  proof (rule inserted_lok [OF r(2)])
    show "lok_children P (dset b) [] (Root b)"
      using that
    proof
      assume "bpt_contents b = Map.empty"
      then show ?thesis using empty_root [OF b(5,6)] by (simp add: lok_children_def bpt_contents_def)
    qed (use lok_node [OF b(5)] in blast)
    have "n \<noteq> Root b" if "bpt_contents b = Map.empty"
      using i(2) that map_upd_nonempty [of "tmap (Root b)" key hash] unfolding bpt_contents_def by metis
    then show "lok P (dset b) [] (Root b) \<or> (\<exists>x \<in> dset b'. prefix [] x)" using that i(4) by auto
  qed
  have "hok (dset b') [] n" using assms(1) by (intro lok) (auto simp: bpt_inv_def split: if_splits)
  moreover have d: "dset (b' \<lparr> Root := n \<rparr>) = dset b'" "dinv (b' \<lparr> Root := n \<rparr>) = dinv b'" by (simp_all add: dset_def dinv_def)
  moreover have "\<forall>x \<in> dset b'. inode x n" using i(5,6) b(3) by blast
  ultimately have "bpt_inv (b' \<lparr> Root := n \<rparr>)" "bpt_contents (b' \<lparr> Root := n \<rparr>) = (bpt_contents b)(key \<mapsto> hash)"
    using i n b(4) by (simp_all add: bpt_inv_def bpt_contents_def)
  then show ?thesis using r(1) i(9) lok d(1) by (simp add: BPT_Insert_def)
qed

lemma BPT_Insert_contents:
  assumes "bpt_inv b" "admissible (bpt_contents b) key hash"
  shows "\<exists>b'. BPT_Insert key hash b = Some (Ok b') \<and> bpt_inv b' \<and> bpt_contents b' = (bpt_contents b)(key \<mapsto> hash)"
  using BPT_Insert_lok [OF assms] by blast

lemma BPT_Get_tmap:
  assumes "wfn p n" "length key = 32"
  shows "\<exists>q e. BPT_Get b p n key = Some (Ok (n, q, e, tmap n key \<noteq> None)) \<and> (tmap n key \<noteq> None \<longrightarrow> e = Value key (the (tmap n key)))"
  using assms
proof (induction n arbitrary: p)
  case (BptNode ht nk h l r)
  let ?n = "BptNode ht nk h l r"
  define d where "d = key_bit key (length p)"
  have h: "Height ?n = length p" "length p div 8 < 32" using BptNode.prems(1) by (auto simp: wfn_def)
  then have g: "goes_left (length p) key = Ok d" using BptNode.prems(2) by (simp add: goes_left_def d_def)
  have step: "BPT_Get b p ?n key = (case child d ?n of
       NilEntry \<Rightarrow> Some (Ok (?n, p, NilEntry, False))
     | BptNode ht nk h l r \<Rightarrow> rbind (BPT_Get b (p @ [d]) (BptNode ht nk h l r) key) (\<lambda>(e, res). Some (Ok (set_child d e ?n, res)))
     | Value k v \<Rightarrow> Some (Ok (?n, p, Value k v, k = key))
     | NotLoaded \<Rightarrow> Some (Panic ''Should never reach this point''))"
    by (subst BPT_Get.simps) (simp only: h(1) g LoadNext_loaded [OF BptNode.prems(1)] rbind_simps)
  have tm: "tmap ?n key = tmap (child d ?n) key" unfolding d_def by (rule tmap_bit [OF BptNode.prems(1)])
  have c: "wf (p @ [d]) (child d ?n)" using BptNode.prems(1) unfolding wfn_def by blast
  show ?case
  proof (cases "child d ?n")
    case (BptNode ht' nk' h' l' r')
    then have "is_BptNode (child d ?n)" by simp
    then have "wfn (p @ [d]) (child d ?n)" using c wf_node [of "child d ?n" "p @ [d]"] by blast
    then obtain q e where "BPT_Get b (p @ [d]) (child d ?n) key = Some (Ok (child d ?n, q, e, tmap (child d ?n) key \<noteq> None))"
        "tmap (child d ?n) key \<noteq> None \<longrightarrow> e = Value key (the (tmap (child d ?n) key))"
      using BptNode.IH BptNode.prems(2) by (cases d) fastforce+
    moreover have "set_child d (child d ?n) ?n = ?n" by (simp add: set_child_def)
    ultimately show ?thesis using step tm BptNode by (simp split del: if_split)
  qed (use c step tm in auto)
qed (auto simp: wfn_def)

end
