(* ===== verification/Bpt_Update.thy ===== *)
theory Bpt_Update
  imports Bpt_Insert
begin

text \<open>
  The update of the hashes of the Binary Patricia Tree. Each pass hashes the highest dirty nodes and
  marks their parents, so the passes end; then every hash is that of the children, and the root
  hash is the reference hash of the contents, which the order of the insertions does not change.
\<close>

section \<open>Nodes at paths\<close>

definition set_hash :: "bytes \<Rightarrow> Entry \<Rightarrow> Entry" where
  "set_hash h n = BptNode (Height n) (NodeKey n) h (Left n) (Right n)"

lemma set_hash_simps [simp]:
  "is_BptNode (set_hash h n)" "Height (set_hash h n) = Height n" "NodeKey (set_hash h n) = NodeKey n"
  "nHash (set_hash h n) = h" "Left (set_hash h n) = Left n" "Right (set_hash h n) = Right n"
  by (simp_all add: set_hash_def)

lemma inode_node_at: "wf q t \<Longrightarrow> inode p t \<Longrightarrow> wf (q @ p) (node_at p t) \<and> is_BptNode (node_at p t)"
proof (induction p arbitrary: q t)
  case (Cons d p)
  then have "wf (q @ [d]) (child d t)" by (cases t) auto
  then show ?case using Cons.IH [of "q @ [d]" "child d t"] Cons.prems by simp
qed simp

lemma node_at_simps:
  assumes "wf [] t" "inode p t"
  shows "Height (node_at p t) = length p" "NodeKey (node_at p t) = nodekey p" "length p \<le> 254"
  using inode_node_at [OF assms] by (cases "node_at p t"; simp)+

lemma inode_prefix: "inode p t \<Longrightarrow> prefix q p \<Longrightarrow> inode q t"
proof (induction q arbitrary: p t)
  case Nil
  then show ?case by (cases p) auto
next
  case (Cons d q)
  then show ?case by (cases p) auto
qed

text \<open>A node replaced by itself with another hash changes nothing but the hash.\<close>
lemma wf_set_hash: "is_BptNode t \<Longrightarrow> wf q t \<Longrightarrow> length h = 32 \<Longrightarrow> wf q (set_hash h t) \<and> tmap (set_hash h t) = tmap t"
  by (cases t) (auto simp: set_hash_def two_def)

lemma put_set_hash:
  assumes "wf q t" "inode p t" "length h = 32"
  shows "wf q (put_at p (set_hash h (node_at p t)) t) \<and> tmap (put_at p (set_hash h (node_at p t)) t) = tmap t
    \<and> (\<forall>x. inode x (put_at p (set_hash h (node_at p t)) t) = inode x t)"
  using assms
proof (induction p arbitrary: q t)
  case Nil
  moreover have "inode x (set_hash h t) = inode x t" if "is_BptNode t" for x
    using that by (cases x) (simp_all add: set_hash_def)
  ultimately show ?case using wf_set_hash [of t q h] by simp
next
  case (Cons d p)
  let ?c = "put_at p (set_hash h (node_at p (child d t))) (child d t)"
  obtain ht nk hh l r where t: "t = BptNode ht nk hh l r" using Cons.prems(2) by (cases t) simp_all
  have c: "wf (q @ [d]) (child d t)" using Cons.prems(1) by (simp add: t)
  note ih = Cons.IH [OF c _ Cons.prems(3)]
  have i: "wf (q @ [d]) ?c" "tmap ?c = tmap (child d t)" "\<forall>x. inode x ?c = inode x (child d t)"
    using ih Cons.prems(2) by simp_all
  have tm: "tmap (set_child d ?c t) = tmap t" using i(2) by (cases d) (simp_all add: t set_child_def)
  have "wf q (set_child d ?c t)"
    using Cons.prems(1) i(1) tm by (cases d) (simp_all add: t set_child_def two_def)
  moreover have "inode x (set_child d ?c t) = inode x t" for x
    using i(3) t by (cases x) (auto simp: inode_set_child)
  ultimately show ?case using tm by simp
qed

section \<open>Hashing a dirty node\<close>

text \<open>Only the dirty nodes below a path matter there.\<close>
lemma lok_local:
  "lok P D q t \<Longrightarrow> (\<And>x. x \<in> D \<Longrightarrow> prefix q x \<Longrightarrow> x \<in> E) \<Longrightarrow> (\<And>x n. prefix q x \<Longrightarrow> P x n \<Longrightarrow> Q x n) \<Longrightarrow> lok Q E q t"
proof (induction P D q t rule: lok.induct)
  case (1 P D p ht nk h l r)
  have p: "prefix p x" if "prefix (p @ [d]) x" for d x using that by (rule append_prefixD)
  have "lok Q E (p @ [True]) l" by (rule "1.IH"(1)) (use "1.prems" p in auto)
  moreover have "lok Q E (p @ [False]) r" by (rule "1.IH"(2)) (use "1.prems" p in auto)
  ultimately show ?case using "1.prems" by auto
qed simp_all

lemma GetNodeHash_ok:
  assumes "wfn p n" "tmap n \<noteq> Map.empty"
  shows "\<exists>h. GetNodeHash n = Ok (set_hash h n) \<and> length h = 32 \<and> GetNodeHash (set_hash h n) = Ok (set_hash h n)"
proof -
  have c: "wf (p @ [True]) (Left n)" "wf (p @ [False]) (Right n)" "is_BptNode n" using assms(1) by (auto simp: wfn_def all_bool_eq)
  have some: "GetHash t = None \<and> t = NilEntry \<or> (\<exists>h. GetHash t = Some h \<and> length h = 32)" if "wf q t" for q t
    using that by (cases t) (auto simp: GetHash_def)
  have "GetHash (Left n) \<noteq> None \<or> GetHash (Right n) \<noteq> None"
    using some [OF c(1)] some [OF c(2)] assms(2) c(3) by (cases n) auto
  then show ?thesis
    using some [OF c(1)] some [OF c(2)] by (auto simp: GetNodeHash_def set_hash_def)
qed

text \<open>
  A dirty node with no dirty nodes below it gets a hash, and its parent becomes dirty. A predicate
  that then holds of the node, and that held elsewhere, holds.
\<close>
lemma lok_put:
  assumes "lok P D q t" "inode p t" "Q (q @ p) (set_hash h (node_at p t))" "\<And>x n. x \<noteq> q @ p \<Longrightarrow> P x n \<Longrightarrow> Q x n"
    and "\<And>x. x \<in> D \<Longrightarrow> prefix (q @ p) x \<Longrightarrow> x = q @ p" "\<And>x. x \<in> D \<Longrightarrow> x \<noteq> q @ p \<Longrightarrow> x \<in> E"
    and "p \<noteq> [] \<Longrightarrow> q @ butlast p \<in> E"
  shows "lok Q E q (put_at p (set_hash h (node_at p t)) t)"
  using assms
proof (induction p arbitrary: q t)
  case Nil
  have "lok Q E (q @ [d]) (child d t)" for d
  proof (rule lok_local)
    show "lok P D (q @ [d]) (child d t)" using Nil.prems(1,2) by (cases t) auto
    show "x \<in> E" if "x \<in> D" "prefix (q @ [d]) x" for x
      using that Nil.prems(5) [of x] append_prefixD [of q "[d]" x] by (auto simp: prefix_def)
    show "Q x n" if "prefix (q @ [d]) x" "P x n" for x n using that Nil.prems(4) [of x n] by (auto simp: prefix_def)
  qed
  from this [of True] this [of False] show ?case
    using Nil.prems(3) lok_node [of "set_hash h t"] by (simp add: lok_children_def all_bool_eq)
next
  case (Cons d p)
  obtain ht nk hh l r where t: "t = BptNode ht nk hh l r" using Cons.prems(2) by (cases t) simp_all
  let ?c = "put_at p (set_hash h (node_at p (child d t))) (child d t)"
  have hc: "lok P D (q @ [c]) (child c t)" for c using Cons.prems(1) by (simp add: t)
  have 1: "lok Q E (q @ [d]) ?c"
  proof (rule Cons.IH [OF hc])
    show "inode p (child d t)" using Cons.prems(2) by simp
    show "Q ((q @ [d]) @ p) (set_hash h (node_at p (child d t)))" using Cons.prems(3) by simp
    show "p \<noteq> [] \<Longrightarrow> (q @ [d]) @ butlast p \<in> E" using Cons.prems(7) by simp
  qed (use Cons.prems(4-6) in simp_all)
  have "x \<noteq> q @ d # p" if "prefix (q @ [\<not> d]) x" for x using that by (auto simp: prefix_def)
  then have 2: "lok Q E (q @ [\<not> d]) (child (\<not> d) t)"
    by (intro lok_local [OF hc]) (use Cons.prems(4,6) in blast)+
  have "\<exists>x \<in> E. prefix q x" using Cons.prems(7) by (intro bexI [of _ "q @ butlast (d # p)"]) simp_all
  moreover have "lok Q E (q @ [c]) (child c (set_child d e t))" if "lok Q E (q @ [d]) e" for c e
    using 2 that by (cases "c = d"; cases c) (simp_all add: set_child_def)
  then have "lok_children Q E q (set_child d ?c t)" unfolding lok_children_def using 1 by blast
  ultimately show ?case using lok_node [of "set_child d ?c t"] by simp
qed

section \<open>The passes\<close>

text \<open>The byte block of a border node, and the database after it was written.\<close>
definition block :: "Entry \<Rightarrow> bytes" where
  "block n = MarshalEntry 7 (Left n) @ MarshalEntry 7 (Right n)"

definition flushed :: "BPT \<Rightarrow> Entry \<Rightarrow> Manager \<Rightarrow> Manager" where
  "flushed b n m = (let m = m \<lparr> Blocks := (Blocks m)(NodeKey n \<mapsto> block n) \<rparr> in
     if Height n = 0 then m \<lparr> Settings := Some (BPT_Marshal b) \<rparr> else m)"

lemma flush_ok:
  assumes "Mask b = 7" "border 7 (Height n)"
  shows "flush n b = Ok (b \<lparr> manager := map_option (flushed b n) (manager b) \<rparr>)"
  using assms by (cases "manager b") (simp_all add: flush_def FlushNode_def MarshalByteBlock_def border_def flushed_def block_def Let_def)

lemma Blocks_flushed [simp]: "Blocks (flushed b n m) = (Blocks m)(NodeKey n \<mapsto> block n)"
  by (simp add: flushed_def Let_def)

text \<open>The byte block of a border node is in the database; but for border nodes with dirty nodes below.\<close>
definition kept :: "Manager \<Rightarrow> path \<Rightarrow> Entry \<Rightarrow> bool" where
  "kept m p n \<longleftrightarrow> (length p \<le> 254 \<and> border 7 (length p) \<longrightarrow> Blocks m (nodekey p) = Some (block n))"

definition stored :: "BPT \<Rightarrow> bool" where
  "stored b \<longleftrightarrow> (\<forall>m. manager b = Some m \<longrightarrow> bpt_contents b = Map.empty \<or> lok (kept m) (dset b) [] (Root b))"

lemma kept_flushed:
  assumes "kept m x n" "NodeKey n' = nodekey p" "length p \<le> 254" "x \<noteq> p"
  shows "kept (flushed b n' m) x n"
  using assms nodekey_inj [of x p] by (auto simp: kept_def)

lemma bpt_inv_manager [simp]: "bpt_inv (b \<lparr> manager := m \<rparr>) = bpt_inv b" "bpt_contents (b \<lparr> manager := m \<rparr>) = bpt_contents b"
    "dset (b \<lparr> manager := m \<rparr>) = dset b"
  by (simp_all add: bpt_inv_def bpt_contents_def dset_def dinv_def)

lemma bpt_inv_RootHash [simp]: "bpt_inv (b \<lparr> RootHash := h \<rparr>) = bpt_inv b" "bpt_contents (b \<lparr> RootHash := h \<rparr>) = bpt_contents b"
  by (simp_all add: bpt_inv_def bpt_contents_def dset_def dinv_def)

text \<open>What each step of the update keeps.\<close>
definition updated :: "BPT \<Rightarrow> BPT \<Rightarrow> bool" where
  "updated b b' \<longleftrightarrow> bpt_inv b' \<and> bpt_contents b' = bpt_contents b \<and> (stored b \<longrightarrow> stored b') \<and> (manager b' = None \<longleftrightarrow> manager b = None)"

lemma updated_refl: "bpt_inv b \<Longrightarrow> updated b b"
  by (simp add: updated_def)

lemma updated_trans: "updated b b' \<Longrightarrow> updated b' b'' \<Longrightarrow> updated b b''"
  by (simp add: updated_def)

lemma update_node_inv:
  assumes b: "bpt_inv b" "p \<in> dset b" "\<forall>x \<in> dset b. length x \<le> length p"
  shows "\<exists>b'. update_node p b = Ok b' \<and> updated b b' \<and> dset b' = dset b - {p} \<union> (if p = [] then {} else {butlast p})"
proof -
  let ?t = "Root b" and ?n = "node_at p (Root b)"
  have t: "wf [] ?t" "inode p ?t" "dinv b" "Mask b = 7" "\<forall>x \<in> dset b. inode x ?t" "hok (dset b) [] ?t" "bpt_contents b \<noteq> Map.empty"
    using b(1,2) by (auto simp: bpt_inv_def split: if_splits)
  note at = node_at_simps [OF t(1,2)]
  have w: "wfn p ?n" "p \<noteq> [] \<longrightarrow> two ?n"
    using inode_node_at [OF t(1,2)] wf_node [of ?n p] by auto
  have "tmap ?n \<noteq> Map.empty"
    using w(2) t(7) by (cases "p = []") (auto simp: two_def bpt_contents_def)
  then obtain h where h: "GetNodeHash ?n = Ok (set_hash h ?n)" "length h = 32" "GetNodeHash (set_hash h ?n) = Ok (set_hash h ?n)"
    using GetNodeHash_ok [OF w(1)] by blast
  let ?t' = "put_at p (set_hash h ?n) ?t"
  have t': "wf [] ?t'" "tmap ?t' = tmap ?t" "inode x ?t' = inode x ?t" for x
    using put_set_hash [OF t(1,2) h(2)] by blast+
  define m where "m = (if border 7 (length p) then map_option (flushed b ?n) (manager b) else manager b)"
  have m: "(if border (Mask b) (Height ?n) then flush ?n b else Ok b) = Ok (b \<lparr> manager := m \<rparr>)"
    using flush_ok [OF t(4), of ?n] t(4) at(1) by (simp add: m_def)
  define b1 where "b1 = Clean (nodekey p) (b \<lparr> manager := m, Root := ?t' \<rparr>)"
  define b' where "b' = (if p = [] then b1 else Dirty (nodekey (butlast p)) (butlast p) b1)"
  have b1: "dinv b1" "dset b1 = dset b - {p}" "Root b1 = ?t'" "Mask b1 = 7" "manager b1 = m"
    using t(3,4) at(3) dinv_Clean [of "b \<lparr> manager := m, Root := ?t' \<rparr>"] dset_Clean [of "b \<lparr> manager := m, Root := ?t' \<rparr>" p]
    by (simp_all add: b1_def dinv_def dset_def Clean_def)
  have d: "dset b' = dset b - {p} \<union> (if p = [] then {} else {butlast p})" "dinv b'" "Root b' = ?t'" "Mask b' = 7" "manager b' = m"
    using b1 at(3) dset_Dirty [OF b1(1), of "butlast p"] dinv_Dirty [OF b1(1), of "butlast p"] by (auto simp: b'_def Dirty_def)
  have bl: "inode (butlast p) ?t" using inode_prefix [OF t(2)] by (simp add: prefixeq_butlast)
  have "NodeKey (node_at (butlast p) ?t') = nodekey (butlast p)" using node_at_simps(2) [OF t'(1)] t'(3) bl by blast
  then have un: "update_node p b = Ok b'"
    using m h(1) at by (auto simp: update_node_def Let_def b'_def b1_def Clean_def)
  have put: "lok Q (dset b') [] ?t'"
    if "lok P (dset b) [] ?t" "Q p (set_hash h ?n)" "\<And>x n. x \<noteq> p \<Longrightarrow> P x n \<Longrightarrow> Q x n" for P Q
  proof (rule lok_put [OF that(1) t(2)])
    fix x assume "x \<in> dset b" "prefix ([] @ p) x"
    then have "length x \<le> length p" "prefix p x" using b(3) by simp_all
    then show "x = [] @ p" by (auto simp: prefix_def)
  qed (use d(1) that in simp_all)
  have "hok (dset b') [] ?t'" using put [OF t(6)] h(3) by simp
  moreover have "\<forall>x \<in> dset b'. inode x ?t'" using d(1) t(5) t'(3) bl by (auto split: if_splits)
  moreover have "is_BptNode ?t'" using t'(3) [of "[]"] inode_prefix [OF t(2), of "[]"] by simp
  ultimately have "bpt_inv b'" "bpt_contents b' = bpt_contents b"
    using d t' t(7) by (simp_all add: bpt_inv_def bpt_contents_def)
  moreover have "lok (kept m') (dset b') [] ?t'" if st: "stored b" "m = Some m'" for m'
  proof -
    obtain m0 where m0: "manager b = Some m0" "m' = (if border 7 (length p) then flushed b ?n m0 else m0)"
      using st(2) by (auto simp: m_def split: if_splits)
    have "lok (kept m0) (dset b) [] ?t" using st(1) m0(1) t(7) by (simp add: stored_def)
    then show ?thesis
    proof (rule put)
      show "kept m' p (set_hash h ?n)" using at(2) by (simp add: m0(2) kept_def block_def)
      show "kept m' x n" if "x \<noteq> p" "kept m0 x n" for x n
        using that kept_flushed [OF _ at(2,3)] by (simp add: m0(2))
    qed
  qed
  then have "stored b \<longrightarrow> stored b'" unfolding stored_def [of b'] d(3,5) by blast
  moreover have "manager b' = None \<longleftrightarrow> manager b = None" using d(5) by (simp add: m_def)
  ultimately have "updated b b'" unfolding updated_def by (intro conjI)
  then show ?thesis using un d(1) by (intro exI [of _ b'] conjI)
qed

lemma update_pass_inv:
  assumes "bpt_inv b" "distinct ps" "set ps \<subseteq> dset b" "sorted (map length (rev ps))"
    "\<forall>x \<in> dset b. length x \<le> h" "\<forall>x \<in> dset b. length x = h \<longrightarrow> x \<in> set ps"
  shows "\<exists>b'. update_pass h ps b = Ok b' \<and> updated b b' \<and> (\<forall>x \<in> dset b'. length x < h)"
  using assms
proof (induction ps arbitrary: b)
  case Nil
  then show ?case by (auto simp: le_less updated_refl)
next
  case (Cons p ps)
  have "inode p (Root b)" "wf [] (Root b)" using Cons.prems(1,3) by (auto simp: bpt_inv_def)
  then have ht: "Height (node_at p (Root b)) = length p" by (simp add: node_at_simps)
  show ?case
  proof (cases "length p = h")
    case False
    have "length x \<noteq> h" if "x \<in> dset b" for x
    proof
      assume "length x = h"
      then have "x \<in> set (p # ps)" using Cons.prems(6) that by blast
      then have "length x \<le> length p" using Cons.prems(4) by (auto simp: sorted_append)
      then show False using \<open>length x = h\<close> False Cons.prems(3,5) by auto
    qed
    then show ?thesis using False ht Cons.prems(1,5) by (auto simp: le_less updated_refl)
  next
    case True
    obtain b1 where b1: "update_node p b = Ok b1" "updated b b1" "dset b1 = dset b - {p} \<union> (if p = [] then {} else {butlast p})"
      using update_node_inv [OF Cons.prems(1), of p] Cons.prems(3,5) True by auto
    have "bpt_inv b1" using b1(2) by (simp add: updated_def)
    moreover have "p \<noteq> [] \<Longrightarrow> length (butlast p) < length p" by simp
    ultimately have "\<exists>b'. update_pass h ps b1 = Ok b' \<and> updated b1 b' \<and> (\<forall>x \<in> dset b'. length x < h)"
      using Cons.prems True b1(3) by (intro Cons.IH) (auto simp: sorted_append split: if_splits)
    then show ?thesis using True ht b1(1) updated_trans [OF b1(2)] by auto
  qed
qed

lemma GetDirtyList_dset:
  assumes "bpt_inv b"
  shows "set (GetDirtyList b) = dset b" "distinct (GetDirtyList b)" "sorted (map length (rev (GetDirtyList b)))"
proof -
  let ?l = "map snd (DirtyMap b)" and ?h = "\<lambda>p. Height (node_at p (Root b))"
  have h: "?h p = length p" if "p \<in> dset b" for p using assms that by (auto simp: bpt_inv_def node_at_simps)
  show "set (GetDirtyList b) = dset b" by (simp add: GetDirtyList_def dset_def)
  have "distinct (map fst (DirtyMap b))" and k: "\<And>k p. (k, p) \<in> set (DirtyMap b) \<Longrightarrow> k = nodekey p"
    using assms by (auto simp: bpt_inv_def dinv_def)
  moreover have "inj_on snd (set (DirtyMap b))" by (rule inj_onI) (metis k prod.collapse)
  ultimately have "distinct ?l" by (auto simp: distinct_map)
  then show "distinct (GetDirtyList b)" by (simp add: GetDirtyList_def)
  have "sorted (map ?h (sort_key ?h ?l))" by simp
  moreover have "map ?h (sort_key ?h ?l) = map length (sort_key ?h ?l)" using h by (intro map_cong) (auto simp: dset_def)
  ultimately show "sorted (map length (rev (GetDirtyList b)))" by (simp add: GetDirtyList_def)
qed

lemma update_loop_ends:
  assumes "bpt_inv b" "\<forall>x \<in> dset b. length x < n"
  shows "\<exists>b'. update_loop b = Some (Ok b') \<and> updated b b' \<and> dset b' = {}"
  using assms
proof (induction n arbitrary: b)
  case 0
  then have "GetDirtyList b = []" using GetDirtyList_dset(1) [OF 0(1)] by auto
  then show ?case using 0 by (subst update_loop.simps) (auto simp: updated_refl)
next
  case (Suc n)
  note dl = GetDirtyList_dset [OF Suc.prems(1)]
  show ?case
  proof (cases "GetDirtyList b")
    case Nil
    then show ?thesis using Suc.prems(1) dl(1) by (subst update_loop.simps) (auto simp: updated_refl)
  next
    case (Cons p ps)
    have p: "p \<in> dset b" "\<forall>x \<in> dset b. length x \<le> length p"
      using dl(1,3) by (auto simp: Cons sorted_append)
    then have ht: "Height (node_at p (Root b)) = length p" using Suc.prems(1) by (auto simp: bpt_inv_def node_at_simps)
    have "set (p # ps) \<subseteq> dset b" "\<forall>x \<in> dset b. length x = length p \<longrightarrow> x \<in> set (p # ps)" using dl(1) unfolding Cons by auto
    then obtain b1 where b1: "update_pass (length p) (p # ps) b = Ok b1" "updated b b1" "\<forall>x \<in> dset b1. length x < length p"
      using update_pass_inv [OF Suc.prems(1) dl(2) [unfolded Cons] _ dl(3) [unfolded Cons] p(2)] by blast
    have "length p < Suc n" using Suc.prems(2) p(1) by blast
    then have "\<forall>x \<in> dset b1. length x < n" using b1(3) by auto
    moreover have "bpt_inv b1" using b1(2) by (simp add: updated_def)
    ultimately obtain b' where "update_loop b1 = Some (Ok b')" "updated b1 b'" "dset b' = {}"
      using Suc.IH by blast
    then show ?thesis using Cons ht b1(1) updated_trans [OF b1(2)] by (subst update_loop.simps) auto
  qed
qed

section \<open>The reference hash\<close>

text \<open>The hash of two children, either of which may be missing.\<close>
definition comb :: "slice \<Rightarrow> slice \<Rightarrow> slice" where
  "comb l r = (case (l, r) of (Some L, Some R) \<Rightarrow> Some (sha256 (L @ R)) | (Some L, None) \<Rightarrow> Some L | (None, r) \<Rightarrow> r)"

text \<open>
  The hash of a list of keys and hashes that agree in the first \<open>i\<close> bits, with \<open>n\<close> bits left:
  one entry is its own hash, more are parted by the next bit.
\<close>
primrec trie_hash :: "nat \<Rightarrow> nat \<Rightarrow> (bytes \<times> bytes) list \<Rightarrow> slice" where
  "trie_hash 0 i es = (case es of [e] \<Rightarrow> Some (snd e) | _ \<Rightarrow> None)"
| "trie_hash (Suc n) i es = (case es of [] \<Rightarrow> None | [e] \<Rightarrow> Some (snd e)
     | _ \<Rightarrow> comb (trie_hash n (Suc i) (filter (\<lambda>(k, h). key_bit k i) es)) (trie_hash n (Suc i) (filter (\<lambda>(k, h). \<not> key_bit k i) es)))"

definition bpt_hash :: "(bytes \<times> bytes) list \<Rightarrow> bytes" where
  "bpt_hash es = (case trie_hash 256 0 es of None \<Rightarrow> replicate 32 0 | Some h \<Rightarrow> h)"

lemma comb_simps [simp]: "comb None r = r" "comb (Some L) None = Some L" "comb (Some L) (Some R) = Some (sha256 (L @ R))"
  by (simp_all add: comb_def)

lemma trie_hash_short [simp]: "trie_hash n i [] = None" "trie_hash n i [(k, h)] = Some h"
  by (cases n; simp)+

lemma trie_hash_Suc:
  "trie_hash (Suc n) i es = comb (trie_hash n (Suc i) (filter (\<lambda>(k, h). key_bit k i) es))
     (trie_hash n (Suc i) (filter (\<lambda>(k, h). \<not> key_bit k i) es))"
proof (cases "length es \<le> 1")
  case True
  then show ?thesis by (cases es) (auto simp: le_Suc_eq)
next
  case False
  then obtain e e' es' where "es = e # e' # es'" by (cases es; cases "tl es") auto
  then show ?thesis by (simp only: trie_hash.simps list.case)
qed

lemma GetNodeHash_comb: "GetNodeHash n = Ok n \<Longrightarrow> is_BptNode n \<Longrightarrow> comb (GetHash (Left n)) (GetHash (Right n)) = Some (nHash n)"
  by (cases n) (auto simp: GetNodeHash_def split: option.splits)

lemma map_of_filter_key: "map_of (filter (\<lambda>(k, h). P k) es) = (\<lambda>k. if P k then map_of es k else None)"
  by (induction es) auto

lemma map_of_singleton:
  assumes "distinct (map fst es)" "map_of es = [k \<mapsto> h]"
  shows "es = [(k, h)]"
proof -
  have "(x, y) \<in> set es \<longleftrightarrow> x = k \<and> y = h" for x y
    using map_of_eq_Some_iff [OF assms(1), of x y] assms(2) by (auto split: if_splits)
  then have s: "set es = {(k, h)}" by auto
  moreover have "length es = card (set es)" using assms(1) by (simp add: distinct_map distinct_card)
  ultimately have "length es = 1" by simp
  then show ?thesis using s by (cases es) auto
qed

lemma hok_trie_hash:
  assumes "wf p t" "hok {} p t" "distinct (map fst es)" "map_of es = tmap t" "255 < n + length p"
  shows "GetHash t = trie_hash n (length p) es"
  using assms
proof (induction t arbitrary: p es n)
  case NilEntry
  then have "es = []" using map_of_eq_empty_iff [of es] by simp
  then show ?case by (simp add: GetHash_def)
next
  case (Value k h)
  then have "es = [(k, h)]" by (intro map_of_singleton) (simp_all only: tmap.simps)
  then show ?case by (simp add: GetHash_def)
next
  case (BptNode ht nk h l r)
  let ?n = "BptNode ht nk h l r"
  let ?f = "\<lambda>d. filter (\<lambda>(k, h). key_bit k (length p) = d) es"
  have w: "wfn p ?n" "wf (p @ [True]) l" "wf (p @ [False]) r" "length p \<le> 254" using BptNode.prems(1) wf_node [of ?n p] by auto
  then obtain m where n: "n = Suc m" "255 < m + length (p @ [d])" for d using BptNode.prems(5) by (cases n) auto
  have d: "distinct (map fst (?f d))" for d using BptNode.prems(3) by (simp add: distinct_map_filter)
  have tm: "map_of (?f d) = tmap (child d ?n)" for d
  proof
    fix k
    have "tmap (child d ?n) k = None" if "key_bit k (length p) \<noteq> d"
      using wf_dom [OF w(2), of k] wf_dom [OF w(3), of k] that by (cases d) auto
    then show "map_of (?f d) k = tmap (child d ?n) k"
      unfolding map_of_filter_key BptNode.prems(4) using tmap_bit [OF w(1), of k] by (cases "key_bit k (length p) = d") simp_all
  qed
  have "GetHash l = trie_hash m (Suc (length p)) (?f True)"
    using BptNode.IH(1) [OF w(2) _ d [of True] _ n(2)] BptNode.prems(2) tm [of True] by simp
  moreover have "GetHash r = trie_hash m (Suc (length p)) (?f False)"
    using BptNode.IH(2) [OF w(3) _ d [of False] _ n(2)] BptNode.prems(2) tm [of False] by simp
  ultimately show ?case
    using BptNode.prems(2) GetNodeHash_comb [of ?n] unfolding n(1) trie_hash_Suc by (simp add: GetHash_def)
qed (simp add: GetHash_def)

text \<open>No node is dirty, and the root hash is the hash of the root.\<close>
definition clean :: "BPT \<Rightarrow> bool" where
  "clean b \<longleftrightarrow> dset b = {} \<and> RootHash b = nHash (Root b)"

lemma Update_clean:
  assumes "bpt_inv b"
  shows "\<exists>b'. Update b = Some (Ok b') \<and> updated b b' \<and> clean b'
    \<and> (\<forall>m. manager b' = Some m \<longrightarrow> Settings m = Some (BPT_Marshal b') \<and> Blocks m (nodekey []) = Some (block (Root b')))
    \<and> (\<forall>es. distinct (map fst es) \<and> map_of es = bpt_contents b \<longrightarrow> RootHash b' = bpt_hash es)"
proof -
  have "\<forall>x \<in> dset b. length x < 255" using assms by (force simp: bpt_inv_def dinv_def dset_def)
  then obtain b1 where "update_loop b = Some (Ok b1)" "updated b b1" "dset b1 = {}"
    using update_loop_ends [OF assms] by blast
  then have b1: "update_loop b = Some (Ok b1)" "bpt_inv b1" "bpt_contents b1 = bpt_contents b" "dset b1 = {}"
      "stored b \<longrightarrow> stored b1" "manager b1 = None \<longleftrightarrow> manager b = None"
    unfolding updated_def by blast+
  have root: "Mask b1 = 7" "is_BptNode (Root b1)" "wf [] (Root b1)" using b1(2) by (auto simp: bpt_inv_def)
  then have r0: "Height (Root b1) = 0" "NodeKey (Root b1) = nodekey []" by (cases "Root b1"; simp)+
  let ?b = "b1 \<lparr> RootHash := nHash (Root b1) \<rparr>"
  define b' where "b' = ?b \<lparr> manager := map_option (flushed ?b (Root b1)) (manager b1) \<rparr>"
  have "flush (Root b1) ?b = Ok b'"
    using flush_ok [of ?b "Root b1"] root(1) r0 by (simp add: b'_def border_def)
  then have "Update b = Some (Ok b')"
    using b1(1) by (cases "manager b1") (simp_all add: Update_def Let_def b'_def)
  moreover have "bpt_inv b'" "bpt_contents b' = bpt_contents b"
    using b1(2,3) by (simp_all add: b'_def)
  moreover have "clean b'" using b1(4) by (simp add: clean_def b'_def dset_def)
  moreover have "stored b'" if "stored b1"
  proof -
    have "lok (kept (flushed ?b (Root b1) m)) {} [] (Root b1)" if "lok (kept m) {} [] (Root b1)" for m
      using lok_put [of "kept m" "{}" "[]" "Root b1" "[]" "kept (flushed ?b (Root b1) m)" "nHash (Root b1)" "{}"] that
        kept_flushed [OF _ r0(2), of m] root(2) r0(2)
      by (cases "Root b1") (auto simp: kept_def block_def set_hash_def)
    moreover have "dset b' = {}" using \<open>clean b'\<close> by (simp add: clean_def)
    ultimately show ?thesis using \<open>stored b1\<close> b1(3,4) \<open>bpt_contents b' = bpt_contents b\<close> by (auto simp: stored_def b'_def)
  qed
  moreover have "manager b' = None \<longleftrightarrow> manager b = None" using b1(6) by (simp add: b'_def)
  moreover have "Settings m = Some (BPT_Marshal b') \<and> Blocks m (nodekey []) = Some (block (Root b'))" if "manager b' = Some m" for m
    using that r0 by (auto simp: b'_def flushed_def Let_def BPT_Marshal_def)
  moreover have "RootHash b' = bpt_hash es" if es: "distinct (map fst es)" "map_of es = bpt_contents b" for es
  proof (cases "bpt_contents b = Map.empty")
    case True
    then have "es = []" using es(2) map_of_eq_empty_iff [of es] by simp
    then show ?thesis using b1(2,3) True by (simp add: b'_def bpt_inv_def bpt_hash_def)
  next
    case False
    then have "hok {} [] (Root b1)" using b1(2-4) by (simp add: bpt_inv_def)
    then have "trie_hash 256 0 es = GetHash (Root b1)"
      using hok_trie_hash [OF root(3), of es 256] es b1(3) by (simp add: bpt_contents_def)
    then show ?thesis using root(2) by (cases "Root b1") (simp_all add: bpt_hash_def GetHash_def b'_def)
  qed
  ultimately show ?thesis using b1(5) unfolding updated_def by (intro exI [of _ b'] conjI) blast+
qed

lemma Update_root:
  assumes "bpt_inv b"
  shows "\<exists>b'. Update b = Some (Ok b') \<and> bpt_inv b' \<and> bpt_contents b' = bpt_contents b
    \<and> (\<forall>es. distinct (map fst es) \<and> map_of es = bpt_contents b \<longrightarrow> RootHash b' = bpt_hash es)"
  using Update_clean [OF assms] unfolding updated_def by blast

section \<open>An authenticated map\<close>

text \<open>The two operations of a client of the tree, and what they do to a map.\<close>
datatype 'k op = Put 'k 'k | Commit

primrec run :: "('k \<Rightarrow> 'k \<Rightarrow> 's \<Rightarrow> 's result option) \<Rightarrow> ('s \<Rightarrow> 's result option) \<Rightarrow> 'k op list \<Rightarrow> 's \<Rightarrow> 's result option" where
  "run put commit [] s = Some (Ok s)"
| "run put commit (x # xs) s = rbind (case x of Put k v \<Rightarrow> put k v s | Commit \<Rightarrow> commit s) (run put commit xs)"

primrec op_map :: "'k op \<Rightarrow> ('k \<rightharpoonup> 'k) \<Rightarrow> ('k \<rightharpoonup> 'k)" where
  "op_map (Put k v) m = m(k \<mapsto> v)"
| "op_map Commit m = m"

primrec op_fits :: "(('k \<rightharpoonup> 'k) \<Rightarrow> 'k \<Rightarrow> 'k \<Rightarrow> bool) \<Rightarrow> ('k \<rightharpoonup> 'k) \<Rightarrow> 'k op list \<Rightarrow> bool" where
  "op_fits fits m [] \<longleftrightarrow> True"
| "op_fits fits m (x # xs) \<longleftrightarrow> (case x of Put k v \<Rightarrow> fits m k v | Commit \<Rightarrow> True) \<and> op_fits fits (op_map x m) xs"

text \<open>A map with a root that a commit makes a function of what the map holds.\<close>
locale authenticated_map =
  fixes inv :: "'s \<Rightarrow> bool" and abs :: "'s \<Rightarrow> 'k \<rightharpoonup> 'k" and fits :: "('k \<rightharpoonup> 'k) \<Rightarrow> 'k \<Rightarrow> 'k \<Rightarrow> bool"
    and put :: "'k \<Rightarrow> 'k \<Rightarrow> 's \<Rightarrow> 's result option" and commit :: "'s \<Rightarrow> 's result option"
    and root :: "'s \<Rightarrow> 'h" and ref :: "('k \<times> 'k) list \<Rightarrow> 'h"
  assumes put: "inv s \<Longrightarrow> fits (abs s) k v \<Longrightarrow> \<exists>s'. put k v s = Some (Ok s') \<and> inv s' \<and> abs s' = (abs s)(k \<mapsto> v)"
    and commit: "inv s \<Longrightarrow> \<exists>s'. commit s = Some (Ok s') \<and> inv s' \<and> abs s' = abs s
      \<and> (\<forall>es. distinct (map fst es) \<and> map_of es = abs s \<longrightarrow> root s' = ref es)"
begin

lemma step:
  assumes "inv s" "op_fits fits (abs s) [x]"
  shows "\<exists>s'. (case x of Put k v \<Rightarrow> put k v s | Commit \<Rightarrow> commit s) = Some (Ok s') \<and> inv s' \<and> abs s' = op_map x (abs s)"
  using assms put [of s] commit [of s] by (cases x) auto

lemma run_ok:
  assumes "inv s" "op_fits fits (abs s) xs"
  shows "\<exists>s'. run put commit xs s = Some (Ok s') \<and> inv s' \<and> abs s' = fold op_map xs (abs s)"
  using assms
proof (induction xs arbitrary: s)
  case (Cons x xs)
  obtain s1 where s1: "(case x of Put k v \<Rightarrow> put k v s | Commit \<Rightarrow> commit s) = Some (Ok s1)" "inv s1" "abs s1 = op_map x (abs s)"
    using step [OF Cons.prems(1), of x] Cons.prems(2) by auto
  then show ?case using Cons.IH [OF s1(2)] Cons.prems(2) by simp
qed simp

lemma run_append: "run put commit (xs @ ys) s = rbind (run put commit xs s) (run put commit ys)"
  by (induction xs arbitrary: s) (auto simp: rbind_assoc intro!: arg_cong2 [where f = rbind])

lemma run_commit:
  assumes "inv s" "op_fits fits (abs s) xs" "distinct (map fst es)" "map_of es = fold op_map xs (abs s)"
  shows "\<exists>s'. run put commit (xs @ [Commit]) s = Some (Ok s') \<and> inv s' \<and> abs s' = map_of es \<and> root s' = ref es"
proof -
  obtain s1 where "run put commit xs s = Some (Ok s1)" "inv s1" "abs s1 = fold op_map xs (abs s)"
    using run_ok [OF assms(1,2)] by blast
  then show ?thesis using commit [of s1] assms(3,4) by (auto simp: run_append)
qed

end

interpretation bpt: authenticated_map bpt_inv bpt_contents admissible BPT_Insert Update RootHash bpt_hash
  by unfold_locales (use BPT_Insert_contents Update_root in simp_all)

section \<open>Properties\<close>

text \<open>
  C4. From a new tree, whatever sequence of insertions and updates is made, with keys of 32 bytes of
  which no two agree in their first 255 bits, no operation panics or runs forever, and a lookup finds
  a key when the map that the insertions build has it, and finds the hash of the last insertion.
\<close>
theorem bpt_is_map:
  assumes "op_fits admissible Map.empty xs" "length key = 32"
  shows "\<exists>b q e. run BPT_Insert Update xs (NewBPT m) = Some (Ok b)
    \<and> BPT_Get b [] (Root b) key = Some (Ok (Root b, q, e, fold op_map xs Map.empty key \<noteq> None))
    \<and> (\<forall>hash. fold op_map xs Map.empty key = Some hash \<longrightarrow> e = Value key hash)"
proof -
  obtain b where b: "run BPT_Insert Update xs (NewBPT m) = Some (Ok b)" "bpt_inv b" "bpt_contents b = fold op_map xs Map.empty"
    using bpt.run_ok [OF NewBPT_inv(1), of m xs] assms(1) by (auto simp: NewBPT_inv(2))
  then have "wfn [] (Root b)" using wf_node [of "Root b" "[]"] by (simp add: bpt_inv_def)
  then show ?thesis using BPT_Get_tmap [OF _ assms(2), of "[]" "Root b" b] b by (auto simp: bpt_contents_def)
qed

theorem bpt_is_map_witness:
  "\<exists>b q. run BPT_Insert Update [Put (replicate 32 1) (replicate 32 5), Put (replicate 32 2) (replicate 32 6), Commit] (NewBPT None) = Some (Ok b)
     \<and> BPT_Get b [] (Root b) (replicate 32 2) = Some (Ok (Root b, q, Value (replicate 32 2) (replicate 32 6), True))"
proof -
  have "apart (replicate 32 1) (replicate 32 2)"
    unfolding apart_def by (intro exI [of _ 6]) (simp add: key_bit_def)
  then have "op_fits admissible Map.empty [Put (replicate 32 1) (replicate 32 5), Put (replicate 32 2) (replicate 32 6), Commit]"
    by (simp add: admissible_def)
  from bpt_is_map [OF this, of "replicate 32 2" None] show ?thesis by auto
qed

text \<open>
  C5. The root hash of the tree after an update is the reference hash of the map of keys and hashes
  that the insertions have built: the keys parted bit by bit, the two parts hashed together. It does
  not depend on the order of the insertions, on when updates were made in between, or on whether
  the tree has a database.
\<close>
theorem root_hash_of_contents:
  assumes "op_fits admissible Map.empty xs" "distinct (map fst es)" "map_of es = fold op_map xs Map.empty"
  shows "\<exists>b. run BPT_Insert Update (xs @ [Commit]) (NewBPT m) = Some (Ok b) \<and> RootHash b = bpt_hash es"
  using bpt.run_commit [OF NewBPT_inv(1), of m xs es] assms by (auto simp: NewBPT_inv(2))

theorem root_hash_of_contents_witness:
  "\<exists>b. run BPT_Insert Update [Put (replicate 32 2) (replicate 32 6), Commit, Put (replicate 32 1) (replicate 32 5), Commit] (NewBPT None) = Some (Ok b)
     \<and> RootHash b = bpt_hash [(replicate 32 1, replicate 32 5), (replicate 32 2, replicate 32 6)]"
proof -
  have "apart (replicate 32 2) (replicate 32 1)"
    unfolding apart_def by (intro exI [of _ 6]) (simp add: key_bit_def)
  then have "op_fits admissible Map.empty [Put (replicate 32 2) (replicate 32 6), Commit, Put (replicate 32 1) (replicate 32 5)]"
    by (simp add: admissible_def)
  from root_hash_of_contents [OF this, of "[(replicate 32 1, replicate 32 5), (replicate 32 2, replicate 32 6)]" None]
  show ?thesis by (auto simp: fun_upd_twist)
qed

end
