(* ===== verification/Bpt_Store.thy ===== *)
theory Bpt_Store
  imports Bpt_Update
begin

text \<open>
  The Binary Patricia Tree in the database: the byte blocks read back as they were written, and a tree
  opened from the database after an update, which loads its byte blocks as they are needed, has
  the root hash and the entries of the tree that wrote them.
\<close>

section \<open>Byte blocks\<close>

text \<open>The entry that a byte block gives back: the next border nodes are stubs.\<close>
fun cut :: "Entry \<Rightarrow> Entry" where
  "cut (BptNode ht nk h l r) = (if border 7 ht then BptNode ht nk h NotLoaded NotLoaded else BptNode ht nk h (cut l) (cut r))"
| "cut e = e"

lemma tags [simp]: "TNil \<noteq> TNode" "TNil \<noteq> TValue" "TNil \<noteq> TNotLoaded" "TNode \<noteq> TValue" "TNode \<noteq> TNil" "TNode \<noteq> TNotLoaded"
    "TValue \<noteq> TNil" "TValue \<noteq> TNode" "TValue \<noteq> TNotLoaded" "TNotLoaded \<noteq> TNil" "TNotLoaded \<noteq> TValue" "TNotLoaded \<noteq> TNode"
  by (simp_all add: TNil_def TNode_def TValue_def TNotLoaded_def)

lemma slice_32: "length a = 32 \<Longrightarrow> slice_to 32 (a @ b) = Ok a" "length a = 32 \<Longrightarrow> slice_from 32 (a @ b) = Ok b"
  using slice_to_append [of a b] slice_from_append [of a b] by simp_all

lemma Value_roundtrip [codec]: "length k = 32 \<Longrightarrow> length h = 32 \<Longrightarrow> Value_UnMarshal (Value_Marshal k h @ rest) = Ok (Value k h, rest)"
  by (simp add: Value_UnMarshal_def Value_Marshal_def slice_32)

lemma BptNode_roundtrip [codec]:
  assumes "length nk = 32" "length h = 32" "ht \<le> 254"
  shows "BptNode_UnMarshal (BptNode_Marshal ht nk h @ rest) = Ok (ht, nk, h, rest)"
proof -
  have "unat (word_of_nat ht :: byte) = ht" using assms(3) by (simp only: unsigned_of_nat) (simp add: take_bit_nat_eq_self)
  then show ?thesis using assms(1,2) by (simp add: BptNode_UnMarshal_def BptNode_Marshal_def slice_32)
qed

lemma nodekey_length: "length (nodekey p) = 32"
  by (simp add: nodekey_def)

lemma unmarshal_Marshal:
  assumes "wf p t" "length (MarshalEntry 7 t) < n"
  shows "unmarshal_entry n 7 ph (MarshalEntry 7 t @ rest) = Ok (cut t, rest)"
  using assms
proof (induction t arbitrary: p n ph rest)
  case (BptNode ht nk h l r)
  obtain m where n: "n = Suc (Suc m)" using BptNode.prems(2) by (cases n; cases "n - 1") (auto split: if_splits)
  have "BptNode_UnMarshal (BptNode_Marshal ht nk h @ xs) = Ok (ht, nk, h, xs)" for xs
    using BptNode.prems(1) nodekey_length by (intro BptNode_roundtrip) auto
  then have node: "BptNode_UnMarshal (nk @ word_of_nat ht # h @ xs) = Ok (ht, nk, h, xs)" for xs by (simp add: BptNode_Marshal_def)
  show ?case
  proof (cases "border 7 ht")
    case True
    then show ?thesis using node by (simp add: n BptNode_Marshal_def)
  next
    case False
    have "length (MarshalEntry 7 l) < Suc m" "length (MarshalEntry 7 r) < Suc m"
      using BptNode.prems(2) False by (simp_all add: n BptNode_Marshal_def)
    moreover have "wf (p @ [True]) l" "wf (p @ [False]) r" using BptNode.prems(1) by simp_all
    ultimately have "unmarshal_entry (Suc m) 7 ht (MarshalEntry 7 l @ xs) = Ok (cut l, xs)"
        "unmarshal_entry (Suc m) 7 ht (MarshalEntry 7 r @ xs) = Ok (cut r, xs)" for xs
      using BptNode.IH by blast+
    then show ?thesis using node False unfolding n
      by (subst unmarshal_entry.simps(2)) (simp add: BptNode_Marshal_def del: unmarshal_entry.simps)
  qed
next
  case (Value k h)
  then show ?case by (cases n) (auto simp: Value_roundtrip)
next
  case NilEntry
  then show ?case by (cases n) auto
qed simp

lemma UnMarshalByteBlock_block:
  assumes "wfn p n" "border 7 (Height e)"
  shows "UnMarshalByteBlock 7 e (block n) = Ok (BptNode (Height e) (NodeKey e) (nHash e) (cut (Left n)) (cut (Right n)), [])"
proof -
  have w: "wf (p @ [True]) (Left n)" "wf (p @ [False]) (Right n)" using assms(1) by (auto simp: wfn_def all_bool_eq)
  have "UnMarshalEntry 7 (Height e) (MarshalEntry 7 (Left n) @ xs) = Ok (cut (Left n), xs)" for xs
    unfolding UnMarshalEntry_def by (rule unmarshal_Marshal [OF w(1)]) simp
  moreover have "UnMarshalEntry 7 (Height e) (MarshalEntry 7 (Right n)) = Ok (cut (Right n), [])"
    unfolding UnMarshalEntry_def using unmarshal_Marshal [OF w(2), of _ _ "[]"] by (simp del: unmarshal_entry.simps)
  ultimately show ?thesis using assms(2) by (simp add: UnMarshalByteBlock_def block_def)
qed

section \<open>Loading on demand\<close>

text \<open>A tree of which some byte blocks are not loaded yet.\<close>
fun lazy :: "Entry \<Rightarrow> Entry \<Rightarrow> bool" where
  "lazy (BptNode ht nk h l r) e \<longleftrightarrow> (case e of
     BptNode ht' nk' h' l' r' \<Rightarrow> ht' = ht \<and> nk' = nk \<and> h' = h
       \<and> (lazy l l' \<and> lazy r r' \<or> border 7 ht \<and> l' = NotLoaded \<and> r' = NotLoaded)
   | _ \<Rightarrow> False)"
| "lazy t e \<longleftrightarrow> e = t"

lemma lazy_cut: "wf p t \<Longrightarrow> lazy t (cut t) \<and> GetHash (cut t) = GetHash t \<and> cut t \<noteq> NotLoaded"
  by (induction t arbitrary: p) (auto simp: GetHash_def)

lemma lazy_loaded: "lazy t e \<Longrightarrow> wf p t \<Longrightarrow> e \<noteq> NotLoaded"
  by (cases t) auto

lemma lazy_refl: "lazy t t"
  by (induction t) auto

lemma LoadNode_block:
  assumes "wfn p t" "kept m p t" "GetNodeHash t = Ok t" "border 7 (length p)" "Height e = length p" "NodeKey e = nodekey p"
  shows "LoadNode 7 m e = Ok (BptNode (Height t) (NodeKey t) (nHash t) (cut (Left t)) (cut (Right t)))"
proof -
  have w: "wf (p @ [True]) (Left t)" "wf (p @ [False]) (Right t)" "is_BptNode t" "Height t = length p" "NodeKey t = nodekey p"
    using assms(1) by (auto simp: wfn_def all_bool_eq)
  have "Blocks m (nodekey p) = Some (block t)" using assms(1,2,4) by (simp add: kept_def wfn_def)
  moreover have "GetHash (cut (Left t)) = GetHash (Left t)" "GetHash (cut (Right t)) = GetHash (Right t)"
    using lazy_cut [OF w(1)] lazy_cut [OF w(2)] by blast+
  then have "GetNodeHash (BptNode (Height t) (NodeKey t) h (cut (Left t)) (cut (Right t)))
      = Ok (BptNode (Height t) (NodeKey t) (nHash t) (cut (Left t)) (cut (Right t)))" for h
    using assms(3) w(3) by (cases t) (auto simp: GetNodeHash_def split: option.splits)
  ultimately show ?thesis
    using UnMarshalByteBlock_block [OF assms(1), of e] assms(4-6) w(4,5) by (simp add: LoadNode_def)
qed

lemma LoadNext_lazy:
  assumes "wfn p t" "kept m p t" "GetNodeHash t = Ok t" "lazy t e" "manager b = Some m" "Mask b = 7"
  shows "\<exists>l r. LoadNext b e = Ok (BptNode (Height t) (NodeKey t) (nHash t) l r) \<and> lazy (Left t) l \<and> lazy (Right t) r"
proof -
  have w: "wf (p @ [True]) (Left t)" "wf (p @ [False]) (Right t)" "is_BptNode t" "Height t = length p" "NodeKey t = nodekey p"
    using assms(1) by (auto simp: wfn_def all_bool_eq)
  then obtain l r where e: "e = BptNode (Height t) (NodeKey t) (nHash t) l r"
      "lazy (Left t) l \<and> lazy (Right t) r \<or> border 7 (length p) \<and> l = NotLoaded \<and> r = NotLoaded"
    using assms(4) by (cases t; cases e) auto
  from e(2) show ?thesis
  proof
    assume l: "lazy (Left t) l \<and> lazy (Right t) r"
    then have "l \<noteq> NotLoaded" "r \<noteq> NotLoaded" using lazy_loaded w(1,2) by blast+
    then have "LoadNext b e = Ok e" by (simp add: LoadNext_def e(1))
    then show ?thesis using l e(1) by blast
  next
    assume l: "border 7 (length p) \<and> l = NotLoaded \<and> r = NotLoaded"
    then have "LoadNode 7 m e = Ok (BptNode (Height t) (NodeKey t) (nHash t) (cut (Left t)) (cut (Right t)))"
      using LoadNode_block [OF assms(1-3)] w(4,5) e(1) by simp
    moreover have "lazy (Left t) (cut (Left t))" "lazy (Right t) (cut (Right t))" "cut (Left t) \<noteq> NotLoaded" "cut (Right t) \<noteq> NotLoaded"
      using lazy_cut [OF w(1)] lazy_cut [OF w(2)] by blast+
    ultimately show ?thesis using l assms(5,6) by (simp add: LoadNext_def e(1))
  qed
qed

lemma BPT_Get_lazy:
  assumes "wfn p t" "lok (kept m) {} p t" "hok {} p t" "lazy t e" "length key = 32" "manager b = Some m" "Mask b = 7"
  shows "\<exists>e' q x. BPT_Get b p e key = Some (Ok (e', q, x, tmap t key \<noteq> None)) \<and> lazy t e'
    \<and> (\<forall>h. tmap t key = Some h \<longrightarrow> x = Value key h)"
  using assms(1-4)
proof (induction t arbitrary: p e)
  case (BptNode ht nk h l r)
  let ?n = "BptNode ht nk h l r"
  define d where "d = key_bit key (length p)"
  have hash: "GetNodeHash ?n = Ok ?n" "kept m p ?n" using BptNode.prems(2,3) by simp_all
  obtain l' r' where ld: "LoadNext b e = Ok (BptNode ht nk h l' r')" "lazy l l'" "lazy r r'"
    using LoadNext_lazy [OF BptNode.prems(1) hash(2,1) BptNode.prems(4) assms(6,7)] by auto
  let ?e = "BptNode ht nk h l' r'"
  have lz: "lazy (child d ?n) (child d ?e)" using ld(2,3) by simp
  have ht: "Height e = length p" "length p div 8 < 32"
    using BptNode.prems(1,4) by (auto simp: wfn_def split: Entry.splits)
  then have g: "goes_left (length p) key = Ok d" using assms(5) by (simp add: goes_left_def d_def)
  have step: "BPT_Get b p e key = (case child d ?e of
       NilEntry \<Rightarrow> Some (Ok (?e, p, NilEntry, False))
     | BptNode ht nk h l r \<Rightarrow> rbind (BPT_Get b (p @ [d]) (BptNode ht nk h l r) key) (\<lambda>(x, res). Some (Ok (set_child d x ?e, res)))
     | Value k v \<Rightarrow> Some (Ok (?e, p, Value k v, k = key))
     | NotLoaded \<Rightarrow> Some (Panic ''Should never reach this point''))"
    by (subst BPT_Get.simps) (simp only: ht(1) g ld(1) rbind_simps)
  have tm: "tmap ?n key = tmap (child d ?n) key" unfolding d_def by (rule tmap_bit [OF BptNode.prems(1)])
  have c: "wf (p @ [d]) (child d ?n)" using BptNode.prems(1) unfolding wfn_def by blast
  have lazy_e: "lazy ?n (set_child d x ?e)" if "lazy (child d ?n) x" for x using that ld(2,3) by (cases d) (simp_all add: set_child_def)
  have same: "lazy ?n ?e" using ld(2,3) by simp
  show ?case
  proof (cases "child d ?n")
    case NilEntry
    then show ?thesis using step lz tm same by (auto simp del: tmap.simps(3) lazy.simps(1))
  next
    case (Value k v)
    then show ?thesis using step lz same unfolding tm by (auto simp del: lazy.simps(1))
  next
    case (BptNode ht' nk' h' l'' r'')
    then have nd: "is_BptNode (child d ?n)" by simp
    then have w: "wfn (p @ [d]) (child d ?n)" using c wf_node by blast
    have ok: "lok (kept m) {} (p @ [d]) (child d ?n)" "hok {} (p @ [d]) (child d ?n)" using BptNode.prems(2,3) by (cases d; simp)+
    have IH: "wfn q (child x ?n) \<Longrightarrow> lok (kept m) {} q (child x ?n) \<Longrightarrow> hok {} q (child x ?n) \<Longrightarrow> lazy (child x ?n) y \<Longrightarrow>
        \<exists>e' q' z. BPT_Get b q y key = Some (Ok (e', q', z, tmap (child x ?n) key \<noteq> None)) \<and> lazy (child x ?n) e'
          \<and> (\<forall>h. tmap (child x ?n) key = Some h \<longrightarrow> z = Value key h)" for q x y
      unfolding Entry.sel using BptNode.IH(1) [of q y] BptNode.IH(2) [of q y] by (cases x) (simp_all only: if_True if_False)
    obtain e' q x where r: "BPT_Get b (p @ [d]) (child d ?e) key = Some (Ok (e', q, x, tmap (child d ?n) key \<noteq> None))"
        "lazy (child d ?n) e'" "\<forall>h. tmap (child d ?n) key = Some h \<longrightarrow> x = Value key h"
      using IH [OF w ok lz] by blast
    obtain a1 a2 a3 a4 a5 where ce: "child d ?e = BptNode a1 a2 a3 a4 a5" using lz BptNode by (cases "child d ?e") simp_all
    have "BPT_Get b p e key = Some (Ok (set_child d e' ?e, q, x, tmap ?n key \<noteq> None))"
      unfolding tm using step r(1) ce by simp
    then show ?thesis using lazy_e [OF r(2)] r(3) unfolding tm by (intro exI conjI)
  next
    case NotLoaded
    then show ?thesis using c by simp
  qed
qed (simp_all add: wfn_def)

section \<open>Opening a tree\<close>

lemma BPT_UnMarshal_Marshal:
  assumes "length (RootHash b) = 32" "Mask b = 7"
  shows "\<exists>b'. BPT_UnMarshal (BPT_Marshal b) b0 = Ok (b', RootHash b) \<and> Mask b' = 7 \<and> RootHash b' = RootHash b
    \<and> Root b' = Root b0 \<and> manager b' = manager b0"
  using assms slice_32(1) [of "RootHash b" "[]"] by (simp add: BPT_UnMarshal_def BPT_Marshal_def)

text \<open>Every byte block of an updated tree with a database is in the database.\<close>
definition saved :: "BPT \<Rightarrow> bool" where
  "saved b \<longleftrightarrow> bpt_inv b \<and> stored b \<and> manager b \<noteq> None"

lemma saved_Insert:
  assumes "saved b" "admissible (bpt_contents b) key hash"
  shows "\<exists>b'. BPT_Insert key hash b = Some (Ok b') \<and> saved b' \<and> bpt_contents b' = (bpt_contents b)(key \<mapsto> hash)"
proof -
  have b: "bpt_inv b" "stored b" "manager b \<noteq> None" using assms(1) by (simp_all add: saved_def)
  obtain b' where b': "BPT_Insert key hash b = Some (Ok b')" "bpt_inv b'" "bpt_contents b' = (bpt_contents b)(key \<mapsto> hash)"
      "manager b' = manager b" "\<And>P. bpt_contents b = Map.empty \<or> lok P (dset b) [] (Root b) \<Longrightarrow> lok P (dset b') [] (Root b')"
    using BPT_Insert_lok [OF b(1) assms(2)] by blast
  have "stored b'" unfolding stored_def b'(4) using b(2) b'(5) unfolding stored_def by blast
  then show ?thesis using b' b(3) by (auto simp: saved_def)
qed

lemma saved_Update:
  assumes "saved b"
  shows "\<exists>b'. Update b = Some (Ok b') \<and> saved b' \<and> bpt_contents b' = bpt_contents b
    \<and> (\<forall>es. distinct (map fst es) \<and> map_of es = bpt_contents b \<longrightarrow> RootHash b' = bpt_hash es)"
  using Update_clean [of b] assms unfolding saved_def updated_def by blast

interpretation bpt_saved: authenticated_map saved bpt_contents admissible BPT_Insert Update RootHash bpt_hash
  by unfold_locales (use saved_Insert saved_Update in simp_all)

lemma NewBPTManager_opens:
  assumes b: "saved b" "clean b" "bpt_contents b \<noteq> Map.empty" "manager b = Some m"
    "Settings m = Some (BPT_Marshal b)"
  shows "\<exists>b0. NewBPTManager m = Ok b0 \<and> RootHash b0 = RootHash b \<and> lazy (Root b) (Root b0) \<and> manager b0 = Some m \<and> Mask b0 = 7"
proof -
  have inv: "bpt_inv b" "wf [] (Root b)" "is_BptNode (Root b)" "Mask b = 7" using b(1) by (simp_all add: saved_def bpt_inv_def)
  have w: "wfn [] (Root b)" "length (nHash (Root b)) = 32" using inv wf_node [of "Root b" "[]"] by (simp_all add: wfn_def)
  have ok: "GetNodeHash (Root b) = Ok (Root b)" "kept m [] (Root b)"
    using b inv(3) lok_node [of "Root b" _ "{}" "[]"] by (auto simp: bpt_inv_def saved_def clean_def stored_def)
  obtain b0 where b0: "BPT_UnMarshal (BPT_Marshal b) (NewBPT (Some m)) = Ok (b0, RootHash b)" "Mask b0 = 7" "RootHash b0 = RootHash b"
      "Root b0 = Root (NewBPT (Some m))" "manager b0 = Some m"
    using BPT_UnMarshal_Marshal [of b "NewBPT (Some m)"] w(2) inv(4) b(2) by (auto simp: clean_def NewBPT_def)
  have root: "Height (Root b0) = 0" "NodeKey (Root b0) = nodekey []"
    using b0(4) nodekey_under [of "[]" "replicate 32 0"] by (simp_all add: NewBPT_def)
  have "LoadNode 7 m (Root b0) = Ok (BptNode (Height (Root b)) (NodeKey (Root b)) (nHash (Root b)) (cut (Left (Root b))) (cut (Right (Root b))))"
    by (rule LoadNode_block [OF w(1) ok(2,1)]) (simp_all add: root border_def)
  moreover have "lazy (Root b) (BptNode (Height (Root b)) (NodeKey (Root b)) (nHash (Root b)) (cut (Left (Root b))) (cut (Right (Root b))))"
    using inv(2,3) lazy_cut by (cases "Root b") auto
  ultimately show ?thesis using b(5) b0 by (simp add: NewBPTManager_def Let_def)
qed

text \<open>
  C14. After insertions and updates of a tree with a database, of which the last step is an update,
  the database opens as a tree with the same root hash; and a lookup there, which loads byte blocks
  as it needs them, finds exactly the keys of the map that the insertions built, with their hashes.
\<close>
theorem reopened_tree:
  assumes "op_fits admissible Map.empty xs" "fold op_map xs Map.empty \<noteq> Map.empty"
  shows "\<exists>b m b0. run BPT_Insert Update (xs @ [Commit]) (NewBPT (Some m0)) = Some (Ok b) \<and> manager b = Some m
    \<and> NewBPTManager m = Ok b0 \<and> RootHash b0 = RootHash b
    \<and> (\<forall>key. length key = 32 \<longrightarrow> (\<exists>e q x. BPT_Get b0 [] (Root b0) key = Some (Ok (e, q, x, fold op_map xs Map.empty key \<noteq> None))
        \<and> (\<forall>hash. fold op_map xs Map.empty key = Some hash \<longrightarrow> x = Value key hash)))"
proof -
  have new: "saved (NewBPT (Some m0))" using NewBPT_inv by (simp add: saved_def stored_def) (simp add: NewBPT_def)
  obtain b1 where b1: "run BPT_Insert Update xs (NewBPT (Some m0)) = Some (Ok b1)" "saved b1" "bpt_contents b1 = fold op_map xs Map.empty"
    using bpt_saved.run_ok [OF new, of xs] assms(1) by (auto simp: NewBPT_inv(2))
  then obtain b where b: "Update b1 = Some (Ok b)" "updated b1 b" "clean b" "\<And>m. manager b = Some m \<Longrightarrow> Settings m = Some (BPT_Marshal b)"
    using Update_clean [of b1] unfolding saved_def by blast
  have run: "run BPT_Insert Update (xs @ [Commit]) (NewBPT (Some m0)) = Some (Ok b)" using b1(1) b(1) by (simp add: bpt_saved.run_append)
  have sv: "saved b" "bpt_contents b = fold op_map xs Map.empty" using b(2) b1(2,3) by (auto simp: saved_def updated_def)
  then obtain m where m: "manager b = Some m" by (auto simp: saved_def)
  obtain b0 where b0: "NewBPTManager m = Ok b0" "RootHash b0 = RootHash b" "lazy (Root b) (Root b0)" "manager b0 = Some m" "Mask b0 = 7"
    using NewBPTManager_opens [OF sv(1) b(3) _ m b(4) [OF m]] assms(2) sv(2) by auto
  have w: "wfn [] (Root b)" "lok (kept m) {} [] (Root b)" "hok {} [] (Root b)"
    using sv b(3) m assms(2) wf_node [of "Root b" "[]"] by (auto simp: saved_def bpt_inv_def clean_def stored_def)
  have "\<forall>key. length key = 32 \<longrightarrow> (\<exists>e q x. BPT_Get b0 [] (Root b0) key = Some (Ok (e, q, x, fold op_map xs Map.empty key \<noteq> None))
      \<and> (\<forall>hash. fold op_map xs Map.empty key = Some hash \<longrightarrow> x = Value key hash))"
    using BPT_Get_lazy [OF w b0(3) _ b0(4,5)] unfolding sv(2) [symmetric] bpt_contents_def by blast
  then show ?thesis using run m b0(1,2) by blast
qed

theorem reopened_tree_witness:
  "\<exists>b m b0 e q. run BPT_Insert Update [Put (replicate 32 1) (replicate 32 5), Commit] (NewBPT (Some \<lparr> Blocks = Map.empty, Settings = None \<rparr>)) = Some (Ok b)
     \<and> manager b = Some m \<and> NewBPTManager m = Ok b0 \<and> RootHash b0 = RootHash b
     \<and> BPT_Get b0 [] (Root b0) (replicate 32 1) = Some (Ok (e, q, Value (replicate 32 1) (replicate 32 5), True))"
proof -
  have "op_fits admissible Map.empty [Put (replicate 32 1) (replicate 32 5)]" by (simp add: admissible_def)
  from reopened_tree [OF this, of "\<lparr> Blocks = Map.empty, Settings = None \<rparr>"] obtain b m b0
    where r: "run BPT_Insert Update [Put (replicate 32 1) (replicate 32 5), Commit] (NewBPT (Some \<lparr> Blocks = Map.empty, Settings = None \<rparr>)) = Some (Ok b)"
      "manager b = Some m" "NewBPTManager m = Ok b0" "RootHash b0 = RootHash b"
    and get: "\<forall>key. length key = 32 \<longrightarrow> (\<exists>e q x. BPT_Get b0 [] (Root b0) key
        = Some (Ok (e, q, x, fold op_map [Put (replicate 32 1) (replicate 32 5)] Map.empty key \<noteq> None))
        \<and> (\<forall>hash. fold op_map [Put (replicate 32 1) (replicate 32 5)] Map.empty key = Some hash \<longrightarrow> x = Value key hash))"
    by auto
  from get [rule_format, of "replicate 32 1"] show ?thesis using r by auto
qed

text \<open>
  C39. An update of a tree that holds nothing writes it to the database, and the database can then not
  be opened: computing the hash of its root panics.
\<close>
theorem reopened_empty_tree:
  "\<exists>b m. run BPT_Insert Update [Commit] (NewBPT (Some m0)) = Some (Ok b) \<and> manager b = Some m
     \<and> NewBPTManager m = Panic ''dead nodes should not exist''"
proof -
  let ?new = "NewBPT (Some m0)"
  obtain b where b: "Update ?new = Some (Ok b)" "updated ?new b" "clean b"
      "\<forall>m. manager b = Some m \<longrightarrow> Settings m = Some (BPT_Marshal b) \<and> Blocks m (nodekey []) = Some (block (Root b))"
    using Update_clean [OF NewBPT_inv(1)] by blast
  then obtain m where m: "manager b = Some m" by (auto simp: updated_def NewBPT_def)
  have inv: "wf [] (Root b)" "is_BptNode (Root b)" "Mask b = 7" "tmap (Root b) = Map.empty"
    using b(2) NewBPT_inv(2) by (simp_all add: updated_def bpt_inv_def bpt_contents_def)
  then have w: "wfn [] (Root b)" "length (nHash (Root b)) = 32" using wf_node [of "Root b" "[]"] by (simp_all add: wfn_def)
  obtain b0 where b0: "BPT_UnMarshal (BPT_Marshal b) (NewBPT (Some m)) = Ok (b0, RootHash b)" "Mask b0 = 7" "Root b0 = Root (NewBPT (Some m))"
    using BPT_UnMarshal_Marshal [of b "NewBPT (Some m)"] w(2) inv(3) b(3) by (auto simp: clean_def)
  have root: "Height (Root b0) = 0" "NodeKey (Root b0) = nodekey []"
    using b0(3) nodekey_under [of "[]" "replicate 32 0"] by (simp_all add: NewBPT_def)
  have "UnMarshalByteBlock 7 (Root b0) (block (Root b)) = Ok (BptNode 0 (nodekey []) (nHash (Root b0)) NilEntry NilEntry, [])"
    using UnMarshalByteBlock_block [OF w(1), of "Root b0"] empty_root [OF inv(2,1,4)] root by (simp add: border_def)
  then have "LoadNode 7 m (Root b0) = Panic ''dead nodes should not exist''"
    using b(4) m root by (simp add: LoadNode_def border_def GetNodeHash_def GetHash_def)
  then have "NewBPTManager m = Panic ''dead nodes should not exist''"
    using b(4) m b0 by (simp add: NewBPTManager_def Let_def)
  then show ?thesis using b(1) m by simp
qed

end
