(* ===== verification/Bpt_Receipt.thy ===== *)
theory Bpt_Receipt
  imports Bpt_Update Receipt
begin

text \<open>
  \<^verbatim>\<open>src/smt/pmt/bpt_receipt.go\<close>: receipts from an entry of the Binary Patricia Tree to its root
  hash. A receipt has one entry for each node on the way that has both children.
\<close>

section \<open>Receipts from the tree\<close>

text \<open>The receipt entry of the sibling, when there is one.\<close>
definition sibling :: "Entry \<Rightarrow> bool \<Rightarrow> ReceiptEntry list" where
  "sibling other right = (if other = NilEntry then [] else [ReceiptEntry.make (\<not> right) (GetHash other)])"

text \<open>The node with what had to be loaded, the receipt, and the hash returned.\<close>
partial_function (option) CollectReceipt ::
  "BPT \<Rightarrow> byte \<Rightarrow> byte \<Rightarrow> Entry \<Rightarrow> bytes \<Rightarrow> Receipt \<Rightarrow> (Entry \<times> Receipt \<times> slice) result option" where
  "CollectReceipt b BIdx bit1 n key receipt =
     rbind (Some (if Entry.Left n = NotLoaded \<or> Entry.Right n = NotLoaded
       then (case manager b of None \<Rightarrow> Panic ''invalid memory address or nil pointer dereference'' | Some m \<Rightarrow> LoadNode (Mask b) m n)
       else Ok n)) (\<lambda>n.
     rbind (Some (if unat BIdx < length key then Ok (key ! unat BIdx) else Panic ''index out of range'')) (\<lambda>bite.
     let right = (bit1 AND bite = 0);
         other = (if right then Entry.Left n else Entry.Right n)
     in case (if right then Entry.Right n else Entry.Left n) of
       Value k v \<Rightarrow> Some (Ok (if k = key
         then (n, receipt \<lparr> Start := Some v, Entries := Entries receipt @ sibling other right \<rparr>, Some (nHash n))
         else (n, receipt, None)))
     | BptNode ht nk h l r \<Rightarrow>
         let bit2 = drop_bit 1 bit1 in
         rbind (CollectReceipt b (if bit2 = 0 then BIdx + 1 else BIdx) (if bit2 = 0 then 128 else bit2) (BptNode ht nk h l r) key receipt)
           (\<lambda>(e, receipt, childhash). let n = set_child (\<not> right) e n in
             Some (Ok (case childhash of None \<Rightarrow> (n, receipt, None)
               | Some _ \<Rightarrow> (n, receipt \<lparr> Entries := Entries receipt @ sibling other right \<rparr>, Some (nHash n)))))
     | NilEntry \<Rightarrow> Some (Ok (n, receipt, None))
     | NotLoaded \<Rightarrow> Some (Ok (n, receipt, None))))"

definition BPT_GetReceipt :: "bytes \<Rightarrow> BPT \<Rightarrow> (BPT \<times> Receipt option) result option" where
  "BPT_GetReceipt chainID b = rbind (CollectReceipt b 0 128 (Root b) chainID new_Receipt) (\<lambda>(root, receipt, anchor).
     Some (Ok (b \<lparr> Root := root \<rparr>, if anchor = None then None else Some (receipt \<lparr> Anchor := anchor \<rparr>))))"

section \<open>Walking the bits\<close>

text \<open>The byte index and the mask stand for the height.\<close>
definition at_height :: "byte \<Rightarrow> byte \<Rightarrow> nat \<Rightarrow> bool" where
  "at_height BIdx m h \<longleftrightarrow> unat BIdx = h div 8 \<and> m = push_bit (7 - h mod 8) 1"

lemma at_height_0: "at_height 0 128 0"
  by (simp add: at_height_def)

lemma at_height_bit: "at_height BIdx m h \<Longrightarrow> (m AND key ! unat BIdx = 0) \<longleftrightarrow> \<not> key_bit key h"
proof -
  assume a: "at_height BIdx m h"
  have "(push_bit j 1 AND x = 0) \<longleftrightarrow> \<not> bit x j" if "j < 8" for j and x :: byte
    using that by (auto simp: bit_eq_iff [of "push_bit j 1 AND x" 0] bit_simps simp del: push_bit_of_1)
  then show ?thesis using a by (simp add: at_height_def key_bit_def)
qed

lemma at_height_Suc:
  assumes "at_height BIdx m h" "h < 255"
  shows "at_height (if drop_bit 1 m = 0 then BIdx + 1 else BIdx) (if drop_bit 1 m = 0 then 128 else drop_bit 1 m) (Suc h)"
proof -
  have "h mod 8 = 7 \<or> h mod 8 < 7" by auto
  then show ?thesis
  proof
    assume 7: "h mod 8 = 7"
    then have "m = 1" "Suc h mod 8 = 0" "Suc h div 8 = Suc (h div 8)" using assms(1) by (auto simp: at_height_def mod_Suc div_Suc)
    moreover have "h div 8 < 32" using assms(2) by auto
    then have "unat (BIdx + 1) = Suc (h div 8)" using assms(1) by (simp add: at_height_def unat_word_ariths)
    ultimately show ?thesis by (simp add: at_height_def)
  next
    assume 7: "h mod 8 < 7"
    then have "Suc h mod 8 = Suc (h mod 8)" "Suc h div 8 = h div 8" by (auto simp: mod_Suc div_Suc)
    moreover have "drop_bit 1 (push_bit (Suc k) 1) = (push_bit k 1 :: byte)" "push_bit k 1 \<noteq> (0 :: byte)" if "k < 7" for k
      using that by (auto simp: bit_eq_iff [where 'a = byte] bit_simps simp del: push_bit_of_1)
    then have "drop_bit 1 m = push_bit (6 - h mod 8) 1" "drop_bit 1 m \<noteq> 0"
      using assms(1) 7 Suc_diff_le [of "h mod 8" 6] by (simp_all add: at_height_def)
    ultimately show ?thesis using assms(1) 7 by (simp add: at_height_def)
  qed
qed

section \<open>Receipts are valid\<close>

text \<open>Applying the sibling's entry to the hash of a child gives the hash of the node.\<close>
lemma Apply_sibling:
  assumes "GetNodeHash n = Ok n" "is_BptNode n" "GetHash (child d n) = Some x" "wf q (child (\<not> d) n)"
  shows "fold Apply (sibling (child (\<not> d) n) (\<not> d)) (Some x) = Some (nHash n)"
proof -
  have c: "comb (GetHash (Entry.Left n)) (GetHash (Entry.Right n)) = Some (nHash n)" by (rule GetNodeHash_comb [OF assms(1,2)])
  show ?thesis
  proof (cases "child (\<not> d) n = NilEntry")
    case True
    then show ?thesis using c assms(3) by (cases d) (simp_all add: sibling_def GetHash_def)
  next
    case False
    then obtain y where "GetHash (child (\<not> d) n) = Some y" using assms(4) by (cases "child (\<not> d) n") (auto simp: GetHash_def)
    then show ?thesis using c False assms(3)
      by (cases d) (simp_all add: sibling_def Apply_def ReceiptEntry.make_def node_def)
  qed
qed

lemma CollectReceipt_proves:
  assumes "wfn p n" "hok {} p n" "length key = 32" "at_height BIdx m (length p)"
  shows "\<exists>es. CollectReceipt b BIdx m n key r = Some (Ok (case tmap n key of
       None \<Rightarrow> (n, r, None)
     | Some h \<Rightarrow> (n, r \<lparr> Start := Some h, Entries := Entries r @ es \<rparr>, Some (nHash n))))
    \<and> (\<forall>h. tmap n key = Some h \<longrightarrow> fold Apply es (Some h) = Some (nHash n))"
  using assms
proof (induction n arbitrary: p BIdx m)
  case (BptNode ht nk h l r')
  let ?n = "BptNode ht nk h l r'"
  define d where "d = key_bit key (length p)"
  have w: "length p \<le> 254" "is_BptNode ?n" "Entry.Left ?n \<noteq> NotLoaded" "Entry.Right ?n \<noteq> NotLoaded"
    using BptNode.prems(1) by (auto simp: wfn_def all_bool_eq)
  have c: "wf (p @ [x]) (child x ?n)" for x using BptNode.prems(1) unfolding wfn_def by blast
  have ok: "GetNodeHash ?n = Ok ?n" using BptNode.prems(2) by simp
  have idx: "unat BIdx < 32" using BptNode.prems(4) w(1) by (auto simp: at_height_def)
  have right: "(m AND key ! unat BIdx = 0) \<longleftrightarrow> \<not> d" using at_height_bit [OF BptNode.prems(4)] by (simp add: d_def)
  have step: "CollectReceipt b BIdx m ?n key r = (case child d ?n of
       Value k v \<Rightarrow> Some (Ok (if k = key
         then (?n, r \<lparr> Start := Some v, Entries := Entries r @ sibling (child (\<not> d) ?n) (\<not> d) \<rparr>, Some h)
         else (?n, r, None)))
     | BptNode ht nk h' l r' \<Rightarrow>
         rbind (CollectReceipt b (if drop_bit 1 m = 0 then BIdx + 1 else BIdx) (if drop_bit 1 m = 0 then 128 else drop_bit 1 m) (BptNode ht nk h' l r') key r)
           (\<lambda>(e, r, childhash). Some (Ok (case childhash of None \<Rightarrow> (set_child d e ?n, r, None)
               | Some _ \<Rightarrow> (set_child d e ?n, r \<lparr> Entries := Entries r @ sibling (child (\<not> d) ?n) (\<not> d) \<rparr>, Some h))))
     | NilEntry \<Rightarrow> Some (Ok (?n, r, None))
     | NotLoaded \<Rightarrow> Some (Ok (?n, r, None)))"
  proof -
    have 1: "(if l = NotLoaded \<or> r' = NotLoaded then x else y) = y" for x y :: "Entry result"
      using w(3,4) by simp
    have 2: "(if unat BIdx < length key then x else y) = x" for x y :: "byte result" using idx BptNode.prems(3) by simp
    have 3: "(if \<not> d then x else y) = (if d then y else x)" for x y :: Entry by simp
    show ?thesis by (subst CollectReceipt.simps) (simp only: 1 2 3 right rbind_simps Let_def not_not Entry.sel set_child_simps(4))
  qed
  have tm: "tmap ?n key = tmap (child d ?n) key" unfolding d_def by (rule tmap_bit [OF BptNode.prems(1)])
  show ?case
  proof (cases "child d ?n")
    case (Value k v)
    then have "fold Apply (sibling (child (\<not> d) ?n) (\<not> d)) (Some v) = Some (nHash ?n)"
      by (intro Apply_sibling [OF ok w(2) _ c]) (simp add: GetHash_def)
    moreover have "tmap ?n key = (if k = key then Some v else None)" unfolding tm Value by simp
    ultimately show ?thesis using step Value by (cases "k = key") (auto simp del: tmap.simps)
  next
    case (BptNode ht' nk' h' l' r'')
    let ?c = "child d ?n"
    have nd: "is_BptNode ?c" "GetHash ?c = Some (nHash ?c)" using BptNode by (simp_all add: GetHash_def)
    then have wc: "wfn (p @ [d]) ?c" using c [of d] wf_node by blast
    then have "length p < 255" by (simp add: wfn_def)
    then have at: "at_height (if drop_bit 1 m = 0 then BIdx + 1 else BIdx) (if drop_bit 1 m = 0 then 128 else drop_bit 1 m) (length (p @ [d]))"
      using at_height_Suc [OF BptNode.prems(4)] by simp
    have hc: "hok {} (p @ [d]) ?c" using BptNode.prems(2) by (cases d) auto
    have IH: "wfn q (child x ?n) \<Longrightarrow> hok {} q (child x ?n) \<Longrightarrow> length key = 32 \<Longrightarrow> at_height i j (length q) \<Longrightarrow>
      \<exists>es. CollectReceipt b i j (child x ?n) key r = Some (Ok (case tmap (child x ?n) key of
           None \<Rightarrow> (child x ?n, r, None)
         | Some h \<Rightarrow> (child x ?n, r \<lparr> Start := Some h, Entries := Entries r @ es \<rparr>, Some (nHash (child x ?n)))))
        \<and> (\<forall>h. tmap (child x ?n) key = Some h \<longrightarrow> fold Apply es (Some h) = Some (nHash (child x ?n)))" for q x i j
      unfolding Entry.sel using BptNode.IH(1) [of q i j] BptNode.IH(2) [of q i j] by (cases x) (simp_all only: if_True if_False)
    obtain es where es: "CollectReceipt b (if drop_bit 1 m = 0 then BIdx + 1 else BIdx) (if drop_bit 1 m = 0 then 128 else drop_bit 1 m) ?c key r
        = Some (Ok (case tmap ?c key of None \<Rightarrow> (?c, r, None) | Some h \<Rightarrow> (?c, r \<lparr> Start := Some h, Entries := Entries r @ es \<rparr>, Some (nHash ?c))))"
        "\<forall>h. tmap ?c key = Some h \<longrightarrow> fold Apply es (Some h) = Some (nHash ?c)"
      using IH [OF wc hc BptNode.prems(3) at] by blast
    have same: "set_child d ?c ?n = ?n" by (simp add: set_child_def)
    have "fold Apply (sibling (child (\<not> d) ?n) (\<not> d)) (Some (nHash ?c)) = Some (nHash ?n)"
      by (rule Apply_sibling [OF ok w(2) nd(2) c])
    then show ?thesis
      using step es same unfolding tm BptNode
      by (intro exI [of _ "es @ sibling (child (\<not> d) ?n) (\<not> d)"]) (auto split: option.split)
  next
    case NilEntry
    then have "tmap ?n key = None" unfolding tm by simp
    then show ?thesis using step NilEntry by (simp del: tmap.simps)
  next
    case NotLoaded
    then show ?thesis using c [of d] by simp
  qed
qed (simp_all add: wfn_def)

text \<open>
  C12. After an update, the tree gives a receipt for each of its keys and no receipt for any other.
  The receipt starts at the hash stored under the key, its anchor is the root hash of the tree, and
  it is valid.
\<close>
theorem BPT_GetReceipt_proves:
  assumes "op_fits admissible Map.empty xs" "length key = 32"
  shows "\<exists>b. run BPT_Insert Update (xs @ [Commit]) (NewBPT m) = Some (Ok b)
    \<and> (case fold op_map xs Map.empty key of
        None \<Rightarrow> BPT_GetReceipt key b = Some (Ok (b, None))
      | Some hash \<Rightarrow> \<exists>r. BPT_GetReceipt key b = Some (Ok (b, Some r)) \<and> Start r = Some hash \<and> Anchor r = Some (RootHash b) \<and> Validate r)"
proof -
  obtain b1 where b1: "run BPT_Insert Update xs (NewBPT m) = Some (Ok b1)" "bpt_inv b1" "bpt_contents b1 = fold op_map xs Map.empty"
    using bpt.run_ok [OF NewBPT_inv(1), of m xs] assms(1) by (auto simp: NewBPT_inv(2))
  obtain b where b: "Update b1 = Some (Ok b)" "bpt_inv b" "clean b" "bpt_contents b = fold op_map xs Map.empty"
    using Update_clean [OF b1(2)] b1(3) unfolding updated_def by auto
  have run: "run BPT_Insert Update (xs @ [Commit]) (NewBPT m) = Some (Ok b)" using b1(1) b(1) by (simp add: bpt.run_append)
  have w: "wfn [] (Root b)" using b(2) wf_node [of "Root b" "[]"] by (simp add: bpt_inv_def)
  show ?thesis
  proof (cases "bpt_contents b = Map.empty")
    case True
    then have e: "Entry.Left (Root b) = NilEntry \<and> Entry.Right (Root b) = NilEntry"
      using b(2) empty_root [of "Root b"] by (simp add: bpt_inv_def bpt_contents_def)
    have "CollectReceipt b 0 128 (Root b) key new_Receipt = Some (Ok (Root b, new_Receipt, None))"
      using assms(2) e by (subst CollectReceipt.simps) (simp add: Let_def)
    then show ?thesis using run True b(4) by (simp add: BPT_GetReceipt_def)
  next
    case False
    then have "hok {} [] (Root b)" using b(2,3) by (simp add: bpt_inv_def clean_def)
    from CollectReceipt_proves [OF w this assms(2), of 0 128 b new_Receipt] at_height_0
    obtain es where "CollectReceipt b 0 128 (Root b) key new_Receipt = Some (Ok (case tmap (Root b) key of
           None \<Rightarrow> (Root b, new_Receipt, None)
         | Some h \<Rightarrow> (Root b, new_Receipt \<lparr> Start := Some h, Entries := Entries new_Receipt @ es \<rparr>, Some (nHash (Root b)))))"
        "\<forall>h. tmap (Root b) key = Some h \<longrightarrow> fold Apply es (Some h) = Some (nHash (Root b))" by auto
    moreover have "Entries new_Receipt = []" by (simp add: new_Receipt_def)
    ultimately show ?thesis using run b(3,4)
      by (cases "tmap (Root b) key") (auto simp: BPT_GetReceipt_def bpt_contents_def clean_def Validate_def hash_Equal_def)
  qed
qed

theorem BPT_GetReceipt_proves_witness:
  "\<exists>b r. run BPT_Insert Update [Put (replicate 32 1) (replicate 32 5), Commit] (NewBPT None) = Some (Ok b)
     \<and> BPT_GetReceipt (replicate 32 1) b = Some (Ok (b, Some r)) \<and> Validate r"
proof -
  have "op_fits admissible Map.empty [Put (replicate 32 1) (replicate 32 5)]" by (simp add: admissible_def)
  from BPT_GetReceipt_proves [OF this, of "replicate 32 1" None] show ?thesis by auto
qed

end
