(* ===== verification/Bpt_Range.thy ===== *)
theory Bpt_Range
  imports Bpt_Update
begin

text \<open>
  \<^verbatim>\<open>src/smt/pmt/bpt_getrange.go\<close>: reading the entries of the Binary Patricia Tree page by page. The
  tree holds its entries in descending order of their keys, and a page that starts at a key of the
  tree, or at the first possible key, is the entries that follow.
\<close>

section \<open>Ranges\<close>

text \<open>
  The walk returns the node with what had to be loaded, whether the start was found, and the values.
  The two cases on an entry are the function \<^verbatim>\<open>do\<close> of the code.
\<close>
partial_function (option) WalkRange ::
  "BPT \<Rightarrow> bool \<Rightarrow> Entry \<Rightarrow> int \<Rightarrow> bytes \<Rightarrow> (bytes \<times> bytes) list \<Rightarrow> (Entry \<times> bool \<times> (bytes \<times> bytes) list) result option" where
  "WalkRange b found node count key values =
     rbind (Some (LoadNext b node)) (\<lambda>node.
     if int (length values) \<ge> count then Some (Ok (node, found, values))
     else rbind (Some (if found then Ok True else goes_left (Height node) key)) (\<lambda>look.
     rbind (if \<not> look then Some (Ok (Left node, found, values))
       else case Left node of
         NilEntry \<Rightarrow> Some (Ok (NilEntry, True, values))
       | BptNode ht nk h l r \<Rightarrow> WalkRange b found (BptNode ht nk h l r) count key values
       | Value k v \<Rightarrow> Some (Ok (Value k v, True, if key = k then values else values @ [(k, v)]))
       | NotLoaded \<Rightarrow> Some (Panic ''interface conversion: pmt.Entry is *pmt.NotLoaded, not *pmt.Value'')) (\<lambda>(e, found, values).
     let node = set_child True e node in
     if int (length values) \<ge> count then Some (Ok (node, found, values))
     else rbind (case Right node of
         NilEntry \<Rightarrow> Some (Ok (NilEntry, True, values))
       | BptNode ht nk h l r \<Rightarrow> WalkRange b found (BptNode ht nk h l r) count key values
       | Value k v \<Rightarrow> Some (Ok (Value k v, True, if key = k then values else values @ [(k, v)]))
       | NotLoaded \<Rightarrow> Some (Panic ''interface conversion: pmt.Entry is *pmt.NotLoaded, not *pmt.Value'')) (\<lambda>(e, found, values).
     Some (Ok (set_child False e node, found, values))))))"

definition GetRange :: "bytes \<Rightarrow> int \<Rightarrow> BPT \<Rightarrow> (BPT \<times> (bytes \<times> bytes) list \<times> bytes) result option" where
  "GetRange startKey count b = (if count = 0 then Some (Ok (b, [], replicate 32 0))
     else rbind (WalkRange b False (Root b) count startKey []) (\<lambda>(root, found, values).
       Some (Ok (b \<lparr> Root := root \<rparr>, values, if values = [] then replicate 32 0 else fst (last values)))))"

section \<open>The order of the entries\<close>

fun listing :: "Entry \<Rightarrow> (bytes \<times> bytes) list" where
  "listing (Value k h) = [(k, h)]"
| "listing (BptNode ht nk h l r) = listing l @ listing r"
| "listing _ = []"

lemma byte_less_bit:
  fixes a b :: byte
  assumes "j < 8" "bit a j" "\<not> bit b j" "\<And>i. j < i \<Longrightarrow> i < 8 \<Longrightarrow> bit a i = bit b i"
  shows "b < a"
proof -
  have bits: "bit (unat x) i = bit x i" for x :: byte and i by (auto simp: bit_unsigned_iff dest: bit_imp_le_length)
  have "bit (unat a) i = bit (unat b) i" if "j < i" for i
    using assms(4) [of i] that bit_imp_le_length [of a i] bit_imp_le_length [of b i] unfolding bits by fastforce
  then have "drop_bit (Suc j) (unat a) = drop_bit (Suc j) (unat b)"
    by (intro bit_eqI) (simp add: bit_drop_bit_eq)
  moreover have "drop_bit j n = of_bool (bit n j) + 2 * drop_bit (Suc j) n" for n :: nat
    by (simp add: drop_bit_eq_div bit_iff_odd div_mult2_eq mult.commute [of 2] flip: mod_2_eq_odd)
  ultimately have "drop_bit j (unat b) < drop_bit j (unat a)" using assms(2,3) bits by simp
  then have "unat b < unat a" by (metis drop_bit_eq_div div_le_mono linorder_not_le)
  then show ?thesis by (simp add: word_less_nat_alt)
qed

lemma append_less: "a < b \<Longrightarrow> xs @ a # ys < xs @ b # (zs :: 'a::linorder list)"
  by (induction xs) simp_all

text \<open>Keys are ordered by the first bit in which they differ.\<close>
lemma key_less_bit:
  assumes "length k = 32" "length k' = 32" "i < 256" "key_bit k i" "\<not> key_bit k' i" "\<And>j. j < i \<Longrightarrow> key_bit k j = key_bit k' j"
  shows "k' < k"
proof -
  let ?c = "i div 8"
  have c: "?c < 32" "i = 8 * ?c + i mod 8" "i mod 8 < 8" using assms(3) by auto
  have key: "key_bit x (8 * n + (7 - m)) = bit (x ! n) m" if "m < 8" for x n m
  proof -
    define r where "r = 7 - m"
    have "r < 8" "7 - r = m" using that by (simp_all add: r_def)
    then show ?thesis unfolding r_def [symmetric] by (simp add: key_bit_def)
  qed
  have eq: "take ?c k' = take ?c k"
  proof (rule nth_equalityI)
    fix n assume n: "n < length (take ?c k')"
    have "bit (k' ! n) m = bit (k ! n) m" if "m < 8" for m
      using assms(6) [of "8 * n + (7 - m)"] key [OF that] n c that by auto
    then have "k' ! n = k ! n" by (intro bit_eqI) simp
    then show "take ?c k' ! n = take ?c k ! n" using n by simp
  qed (use assms in simp)
  have "bit (k ! ?c) m = bit (k' ! ?c) m" if "7 - i mod 8 < m" "m < 8" for m
  proof -
    have "8 * ?c + (7 - m) < i" using c(2,3) that by linarith
    then show ?thesis using assms(6) [of "8 * ?c + (7 - m)"] key [OF that(2)] by blast
  qed
  then have "k' ! ?c < k ! ?c"
    using assms(4,5) by (intro byte_less_bit [of "7 - i mod 8"]) (simp_all add: key_bit_def)
  moreover have "k = take ?c k @ k ! ?c # drop (Suc ?c) k" "k' = take ?c k @ k' ! ?c # drop (Suc ?c) k'"
    using c(1) assms(1,2) id_take_nth_drop [of ?c k] id_take_nth_drop [of ?c k'] eq by simp_all
  ultimately show ?thesis using append_less [of "k' ! ?c" "k ! ?c"] by metis
qed

lemma wf_less:
  assumes "wf (p @ [True]) l" "wf (p @ [False]) r" "k \<in> dom (tmap l)" "k' \<in> dom (tmap r)" "length p \<le> 254"
  shows "k' < k"
proof -
  have "length k = 32" "under p k" "key_bit k (length p)" "length k' = 32" "under p k'" "\<not> key_bit k' (length p)"
    using wf_dom [OF assms(1,3)] wf_dom [OF assms(2,4)] by auto
  then show ?thesis using assms(5) by (intro key_less_bit [of k k' "length p"]) (auto simp: under_def)
qed

lemma listing_map: "wf p t \<Longrightarrow> map_of (listing t) = tmap t \<and> set (listing t) = {(k, h). tmap t k = Some h}
    \<and> sorted_wrt (\<lambda>x y. fst y < fst x) (listing t)"
proof (induction t arbitrary: p)
  case (BptNode ht nk h l r)
  have w: "wf (p @ [True]) l" "wf (p @ [False]) r" "length p \<le> 254" using BptNode.prems by auto
  note il = BptNode.IH(1) [OF w(1)] and ir = BptNode.IH(2) [OF w(2)]
  have disj: "dom (tmap l) \<inter> dom (tmap r) = {}" using wf_less [OF w(1,2) _ _ w(3)] by fastforce
  have comm: "tmap l ++ tmap r = tmap r ++ tmap l" by (rule map_add_comm [OF disj])
  then have "map_of (listing l @ listing r) = tmap l ++ tmap r" using il ir by simp
  moreover have "((tmap l ++ tmap r) k = Some v) = (tmap l k = Some v \<or> tmap r k = Some v)" for k v
    using disj by (auto simp: map_add_Some_iff domIff)
  then have "set (listing l @ listing r) = {(k, h). (tmap l ++ tmap r) k = Some h}" using il ir by auto
  moreover have "sorted_wrt (\<lambda>x y. fst y < fst x) (listing l @ listing r)"
    using il ir wf_less [OF w(1,2) _ _ w(3)] by (auto simp: sorted_wrt_append)
  ultimately show ?case by simp
qed (auto split: if_splits)

section \<open>The walk\<close>

text \<open>The entries the walk meets once it follows the bits of the start key to the bottom.\<close>
fun after :: "bytes \<Rightarrow> Entry \<Rightarrow> (bytes \<times> bytes) list" where
  "after key (Value k h) = [(k, h)]"
| "after key (BptNode ht nk h l r) = (if key_bit key ht then after key l @ listing r else after key r)"
| "after key _ = []"

abbreviation others :: "bytes \<Rightarrow> (bytes \<times> bytes) list \<Rightarrow> (bytes \<times> bytes) list" where
  "others key es \<equiv> filter (\<lambda>e. fst e \<noteq> key) es"

abbreviation upto_count :: "int \<Rightarrow> (bytes \<times> bytes) list \<Rightarrow> (bytes \<times> bytes) list \<Rightarrow> (bytes \<times> bytes) list" where
  "upto_count count vs es \<equiv> vs @ take (nat (count - int (length vs))) es"

lemma upto_count_append:
  "int (length (upto_count count vs xs)) < count \<Longrightarrow> upto_count count (upto_count count vs xs) ys = upto_count count vs (xs @ ys)"
  "count \<le> int (length (upto_count count vs xs)) \<Longrightarrow> upto_count count vs xs = upto_count count vs (xs @ ys)"
proof -
  define c where "c = nat (count - int (length vs))"
  { assume "int (length (upto_count count vs xs)) < count"
    then have "length xs < c" by (simp add: c_def min_def split: if_splits)
    then have "take c xs = xs" "nat (count - int (length (vs @ xs))) = c - length xs" by (auto simp: c_def)
    then show "upto_count count (upto_count count vs xs) ys = upto_count count vs (xs @ ys)"
      unfolding c_def [symmetric] by simp }
  { assume "count \<le> int (length (upto_count count vs xs))"
    then have "c \<le> length xs" by (simp add: c_def min_def split: if_splits)
    then show "upto_count count vs xs = upto_count count vs (xs @ ys)" unfolding c_def [symmetric] by simp }
qed

text \<open>The function \<^verbatim>\<open>do\<close> of the walk.\<close>
definition visit :: "BPT \<Rightarrow> bool \<Rightarrow> Entry \<Rightarrow> int \<Rightarrow> bytes \<Rightarrow> (bytes \<times> bytes) list \<Rightarrow> (Entry \<times> bool \<times> (bytes \<times> bytes) list) result option" where
  "visit b found e count key values = (case e of
         NilEntry \<Rightarrow> Some (Ok (NilEntry, True, values))
       | BptNode ht nk h l r \<Rightarrow> WalkRange b found (BptNode ht nk h l r) count key values
       | Value k v \<Rightarrow> Some (Ok (Value k v, True, if key = k then values else values @ [(k, v)]))
       | NotLoaded \<Rightarrow> Some (Panic ''interface conversion: pmt.Entry is *pmt.NotLoaded, not *pmt.Value''))"

lemma WalkRange_visit:
  assumes "wfn p n" "length key = 32"
  shows "WalkRange b found n count key values = (if count \<le> int (length values) then Some (Ok (n, found, values))
    else rbind (if found \<or> key_bit key (length p) then visit b found (Left n) count key values else Some (Ok (Left n, found, values)))
      (\<lambda>(e, found, values). let n = set_child True e n in
        if count \<le> int (length values) then Some (Ok (n, found, values))
        else rbind (visit b found (Right n) count key values) (\<lambda>(e, found, values). Some (Ok (set_child False e n, found, values)))))"
proof -
  have h: "Height n = length p" "length p div 8 < 32" using assms(1) by (auto simp: wfn_def)
  then have g: "(if found then Ok True else goes_left (length p) key) = Ok (found \<or> key_bit key (length p))"
    using assms(2) by (simp add: goes_left_def)
  show ?thesis
    by (subst WalkRange.simps) (simp add: h(1) g LoadNext_loaded [OF assms(1)] visit_def [symmetric] cong: if_cong)
qed

lemma set_child_same: "is_BptNode n \<Longrightarrow> set_child True (Left n) n = n \<and> set_child False (Right n) n = n"
  by (cases n) (simp_all add: set_child_def)

lemma visit_spec:
  assumes "wf q e" "int (length vs) < count"
    and "is_BptNode e \<Longrightarrow> WalkRange b f e count key vs = Some (Ok (e, True, upto_count count vs (others key (if f then listing e else after key e))))"
  shows "visit b f e count key vs = Some (Ok (e, True, upto_count count vs (others key (if f then listing e else after key e))))"
  using assms by (cases e) (auto simp: visit_def Suc_le_eq)

lemma WalkRange_spec:
  assumes "wfn p n" "length key = 32"
  shows "WalkRange b f n count key vs
    = Some (Ok (n, f \<or> int (length vs) < count, upto_count count vs (others key (if f then listing n else after key n))))"
  using assms
proof (induction n arbitrary: p f vs)
  case (BptNode ht nk h l r)
  let ?n = "BptNode ht nk h l r"
  have w: "wf (p @ [True]) l" "wf (p @ [False]) r" "ht = length p" using BptNode.prems(1) by (auto simp: wfn_def all_bool_eq)
  note step = WalkRange_visit [OF BptNode.prems, of b f count vs]
  have vl: "visit b f' l count key vs' = Some (Ok (l, True, upto_count count vs' (others key (if f' then listing l else after key l))))"
    if "int (length vs') < count" for f' vs'
  proof (rule visit_spec [OF w(1) that])
    assume "is_BptNode l"
    then have "wfn (p @ [True]) l" using w(1) wf_node by blast
    then show "WalkRange b f' l count key vs' = Some (Ok (l, True, upto_count count vs' (others key (if f' then listing l else after key l))))"
      using BptNode.IH(1) [OF _ BptNode.prems(2), of "p @ [True]" f' vs'] that by simp
  qed
  have vr: "visit b f' r count key vs' = Some (Ok (r, True, upto_count count vs' (others key (if f' then listing r else after key r))))"
    if "int (length vs') < count" for f' vs'
  proof (rule visit_spec [OF w(2) that])
    assume "is_BptNode r"
    then have "wfn (p @ [False]) r" using w(2) wf_node by blast
    then show "WalkRange b f' r count key vs' = Some (Ok (r, True, upto_count count vs' (others key (if f' then listing r else after key r))))"
      using BptNode.IH(2) [OF _ BptNode.prems(2), of "p @ [False]" f' vs'] that by simp
  qed
  show ?case
  proof (cases "count \<le> int (length vs)")
    case True
    then show ?thesis using step by simp
  next
    case False
    define xs where "xs = (if f then listing l else after key l)"
    show ?thesis
    proof (cases "f \<or> key_bit key (length p)")
      case look: True
      define ys where "ys = upto_count count vs (others key xs)"
      have l: "visit b f l count key vs = Some (Ok (l, True, ys))" using vl False by (simp add: ys_def xs_def)
      have all: "(if f then listing ?n else after key ?n) = xs @ listing r" using look w(3) by (auto simp: xs_def)
      show ?thesis
      proof (cases "count \<le> int (length ys)")
        case True
        then show ?thesis using step l False look upto_count_append(2) [of count vs "others key xs" "others key (listing r)"]
          unfolding all ys_def by (simp add: set_child_def Let_def)
      next
        case go: False
        then have "visit b True r count key ys = Some (Ok (r, True, upto_count count ys (others key (listing r))))" using vr [of ys True] by simp
        moreover have "upto_count count ys (others key (listing r)) = upto_count count vs (others key (xs @ listing r))"
          using upto_count_append(1) [of vs count "others key xs" "others key (listing r)"] go by (simp add: ys_def)
        ultimately show ?thesis using step l False look go unfolding all by (simp add: set_child_def Let_def)
      qed
    next
      case skip: False
      then have "(if f then listing ?n else after key ?n) = after key r" using w(3) by simp
      then show ?thesis using step vr [of vs False] False skip by (simp add: set_child_def Let_def)
    qed
  qed
qed (simp_all add: wfn_def)

section \<open>Pages\<close>

definition FirstPossibleBptKey :: bytes where
  "FirstPossibleBptKey = replicate 32 255"

lemma all_ones: "(255 :: byte) = - 1"
  by simp

lemma first_key_max: "length k = n \<Longrightarrow> k \<le> replicate n (255 :: byte)"
proof (induction k arbitrary: n)
  case (Cons x k)
  have "x \<le> 255" unfolding all_ones by (rule word_order.extremum)
  then show ?case using Cons by (cases n) auto
qed simp

lemma first_key_bit: "i < 256 \<Longrightarrow> key_bit FirstPossibleBptKey i"
  unfolding FirstPossibleBptKey_def key_bit_def all_ones by (auto simp: bit_minus_1_iff)

text \<open>After a key of the tree, or after the first possible key, come the smaller keys.\<close>
lemma after_below:
  assumes "wf p t" "length key = 32" "under p key" "tmap t key \<noteq> None \<or> key = FirstPossibleBptKey"
  shows "others key (after key t) = filter (\<lambda>e. fst e < key) (listing t)"
  using assms
proof (induction t arbitrary: p)
  case (Value k h)
  then show ?case using first_key_max [of k 32] by (auto simp: FirstPossibleBptKey_def split: if_splits)
next
  case (BptNode ht nk h l r)
  have w: "wf (p @ [True]) l" "wf (p @ [False]) r" "length p \<le> 254" "ht = length p" "wfn p (BptNode ht nk h l r)"
    using BptNode.prems(1) wf_node [of "BptNode ht nk h l r" p] by auto
  note tm = tmap_bit [OF w(5), of key]
  have less: "k < key" if "k \<in> dom (tmap r)" "key_bit key (length p)" for k
  proof -
    have "length k = 32" "under p k" "\<not> key_bit k (length p)" using wf_dom [OF w(2) that(1)] by auto
    then show ?thesis using that(2) BptNode.prems(2,3) w(3) by (intro key_less_bit [of key k "length p"]) (auto simp: under_def)
  qed
  have greater: "key < k" if "k \<in> dom (tmap l)" "\<not> key_bit key (length p)" for k
  proof -
    have "length k = 32" "under p k" "key_bit k (length p)" using wf_dom [OF w(1) that(1)] by auto
    then show ?thesis using that(2) BptNode.prems(2,3) w(3) by (intro key_less_bit [of k key "length p"]) (auto simp: under_def)
  qed
  have sl: "set (listing l) = {(k, h). tmap l k = Some h}" "set (listing r) = {(k, h). tmap r k = Some h}"
    using listing_map [OF w(1)] listing_map [OF w(2)] by blast+
  show ?case
  proof (cases "key_bit key (length p)")
    case True
    have "tmap l key \<noteq> None \<or> key = FirstPossibleBptKey" using BptNode.prems(4) tm True by (simp del: tmap.simps)
    then have "others key (after key l) = filter (\<lambda>e. fst e < key) (listing l)"
      using BptNode.IH(1) [OF w(1) BptNode.prems(2)] BptNode.prems(3) True by simp
    moreover have "\<forall>e \<in> set (listing r). fst e < key" using less True sl(2) by auto
    then have "others key (listing r) = filter (\<lambda>e. fst e < key) (listing r)" by (intro filter_cong) auto
    ultimately show ?thesis using True w(4) by simp
  next
    case False
    then have "key \<noteq> FirstPossibleBptKey" using first_key_bit [of "length p"] w(3) by auto
    then have "tmap r key \<noteq> None" using BptNode.prems(4) tm False by (simp del: tmap.simps)
    then have "others key (after key r) = filter (\<lambda>e. fst e < key) (listing r)"
      using BptNode.IH(2) [OF w(2) BptNode.prems(2)] BptNode.prems(3) False by simp
    moreover have "\<forall>e \<in> set (listing l). \<not> fst e < key" using greater False sl(1) by fastforce
    then have "filter (\<lambda>e. fst e < key) (listing l) = []" by (simp add: filter_empty_conv)
    ultimately show ?thesis using False w(4) by simp
  qed
qed simp_all

lemma GetRange_page:
  fixes count :: int
  assumes "bpt_inv b" "length key = 32" "key \<in> dom (bpt_contents b) \<or> key = FirstPossibleBptKey"
  defines "page \<equiv> take (nat count) (filter (\<lambda>e. fst e < key) (listing (Root b)))"
  shows "GetRange key count b = Some (Ok (b, page, if page = [] then replicate 32 0 else fst (last page)))"
proof (cases "count = 0")
  case False
  have w: "wf [] (Root b)" "wfn [] (Root b)" using assms(1) wf_node [of "Root b" "[]"] by (auto simp: bpt_inv_def)
  have "others key (after key (Root b)) = filter (\<lambda>e. fst e < key) (listing (Root b))"
    using after_below [OF w(1) assms(2)] assms(3) by (auto simp: bpt_contents_def)
  then show ?thesis using WalkRange_spec [OF w(2) assms(2), of b False count "[]"] False by (simp add: GetRange_def page_def)
qed (simp add: GetRange_def page_def)

text \<open>
  C38. A page of a tree that is in memory, which starts at one of its keys or at the first possible
  key, is made of the entries with the next smaller keys, in descending order: as many as were asked
  for, or all that there are. The walk leaves the tree as it is.
\<close>
theorem GetRange_next:
  assumes "bpt_inv b" "length key = 32" "key \<in> dom (bpt_contents b) \<or> key = FirstPossibleBptKey"
  shows "\<exists>page rest lastKey. GetRange key count b = Some (Ok (b, page, lastKey))
    \<and> set (page @ rest) = {(k, h). bpt_contents b k = Some h \<and> k < key}
    \<and> sorted_wrt (\<lambda>x y. fst y < fst x) (page @ rest) \<and> length page = min (nat count) (length (page @ rest))
    \<and> (page \<noteq> [] \<longrightarrow> lastKey = fst (last page))"
proof -
  let ?es = "filter (\<lambda>e. fst e < key) (listing (Root b))"
  have "wf [] (Root b)" using assms(1) by (simp add: bpt_inv_def)
  note l = listing_map [OF this]
  have "set (take (nat count) ?es @ drop (nat count) ?es) = {(k, h). bpt_contents b k = Some h \<and> k < key}"
    unfolding append_take_drop_id using l by (auto simp: bpt_contents_def)
  moreover have "sorted_wrt (\<lambda>x y. fst y < fst x) (take (nat count) ?es @ drop (nat count) ?es)"
    unfolding append_take_drop_id using l sorted_wrt_filter by blast
  ultimately show ?thesis using GetRange_page [OF assms, of count]
    by (intro exI [of _ "take (nat count) ?es"] exI [of _ "drop (nat count) ?es"]) auto
qed

theorem GetRange_next_witness:
  "\<exists>b page lastKey. run BPT_Insert Update [Put (replicate 32 1) (replicate 32 5)] (NewBPT None) = Some (Ok b)
     \<and> GetRange FirstPossibleBptKey 5 b = Some (Ok (b, page, lastKey)) \<and> set page = {(replicate 32 1, replicate 32 5)}"
proof -
  have f: "op_fits admissible Map.empty [Put (replicate 32 1) (replicate 32 5)]" by (simp add: admissible_def)
  obtain b where b: "run BPT_Insert Update [Put (replicate 32 1) (replicate 32 5)] (NewBPT None) = Some (Ok b)" "bpt_inv b"
      "bpt_contents b = [replicate 32 1 \<mapsto> replicate 32 5]"
    using bpt.run_ok [OF NewBPT_inv(1), of None, unfolded NewBPT_inv(2), OF f] by auto
  obtain page rest lastKey where r: "GetRange FirstPossibleBptKey 5 b = Some (Ok (b, page, lastKey))"
      "set (page @ rest) = {(k, h). bpt_contents b k = Some h \<and> k < FirstPossibleBptKey}" "length page = min 5 (length (page @ rest))"
    using GetRange_next [OF b(2), of FirstPossibleBptKey 5] by (auto simp: FirstPossibleBptKey_def)
  have "replicate 32 x = x # replicate 31 x" for x :: byte by (simp flip: replicate_Suc)
  then have "replicate 32 1 < FirstPossibleBptKey" by (simp add: FirstPossibleBptKey_def)
  moreover have "{(k, h). [x \<mapsto> y] k = Some h \<and> k < z} = {(x, y)}" if "x < z" for x y z :: bytes
    using that by (auto split: if_splits)
  ultimately have s: "set (page @ rest) = {(replicate 32 1, replicate 32 5)}" unfolding r(2) b(3) by blast
  have "set page = {x}" if "set (page @ rest) = {x}" "length page = min 5 (length (page @ rest))" for x and page rest :: "(bytes \<times> bytes) list"
    using that by (cases page) (auto simp: min_def split: if_splits)
  then have "set page = {(replicate 32 1, replicate 32 5)}" using s r(3) by blast
  then show ?thesis using b(1) r(1) by blast
qed

end
