(* ===== verification/Bpt_Snapshot.thy ===== *)
theory Bpt_Snapshot
  imports Bpt_Range Encoding
begin

text \<open>
  \<^verbatim>\<open>src/smt/pmt/bpt_savestate.go\<close>: saving the Binary Patricia Tree with the states of its accounts to
  a file, and restoring it. The file is its bytes; that a write or a seek to the file may fail is not
  modelled, that a read finds the file too short is. The functions that load and store the state of an
  account are parameters, as in the code.
\<close>

section \<open>Saving\<close>

definition window :: nat where "window = 1000"
definition nLen :: nat where "nLen = 32 + 32 + 8"

text \<open>The loop over the values of one page.\<close>
fun save_page :: "(bytes \<Rightarrow> bytes \<Rightarrow> bytes result) \<Rightarrow> (bytes \<times> bytes) list \<Rightarrow> 64 word \<Rightarrow> bytes \<Rightarrow> bytes \<Rightarrow> (64 word \<times> bytes \<times> bytes) result" where
  "save_page loadState [] vOffset file vals = Ok (vOffset, file, vals)"
| "save_page loadState ((k, h) # bptVals) vOffset file vals = bind_result (loadState k h) (\<lambda>v.
     save_page loadState bptVals (vOffset + (word_of_nat (length v) + 8)) (file @ k @ h @ Uint64FixedBytes vOffset)
       (vals @ Uint64FixedBytes (word_of_nat (length v)) @ v))"

partial_function (option) save_loop ::
  "(bytes \<Rightarrow> bytes \<Rightarrow> bytes result) \<Rightarrow> bytes \<Rightarrow> 64 word \<Rightarrow> 64 word \<Rightarrow> bytes \<Rightarrow> bytes \<Rightarrow> BPT \<Rightarrow> (BPT \<times> 64 word \<times> bytes \<times> bytes) result option" where
  "save_loop loadState place vOffset NodeCnt file vals b =
     rbind (GetRange place (int window) b) (\<lambda>(b, bptVals, next).
     if bptVals = [] then Some (Ok (b, NodeCnt, file, vals))
     else rbind (Some (save_page loadState bptVals vOffset file vals)) (\<lambda>(vOffset, file, vals).
       save_loop loadState next vOffset (NodeCnt + word_of_nat (length bptVals)) file vals b))"

definition SaveSnapshot :: "(bytes \<Rightarrow> bytes \<Rightarrow> bytes result) \<Rightarrow> BPT \<Rightarrow> (BPT \<times> bytes) result option" where
  "SaveSnapshot loadState b = (case manager b of
       None \<Rightarrow> Some (Err (Plain ''no manager found for BPT''))
     | Some _ \<Rightarrow> rbind (save_loop loadState FirstPossibleBptKey 0 0 (replicate 8 0) [] b) (\<lambda>(b, NodeCnt, file, vals).
         Some (Ok (b, (Uint64FixedBytes NodeCnt @ drop 8 file) @ vals))))"

section \<open>Restoring\<close>

definition seek :: "64 word \<Rightarrow> nat result" where
  "seek off = (if sint off < 0 then Err (Plain ''Seek: invalid offset'') else Ok (unat off))"

definition ReadFull :: "bytes \<Rightarrow> nat \<Rightarrow> nat \<Rightarrow> bytes result" where
  "ReadFull file pos n = (if n = 0 \<or> pos + n \<le> length file then Ok (take n (drop pos file))
     else if length file \<le> pos then Err (Plain ''EOF'') else Err (Plain ''unexpected EOF''))"

definition NewSectionReader :: "bytes \<Rightarrow> 64 word \<Rightarrow> 64 word \<Rightarrow> bytes" where
  "NewSectionReader file off n = (if sint n < 0 then [] else take (unat n) (drop (unat off) file))"

text \<open>
  The loop over the nodes of one window. An error of the seek or of the read is returned whatever
  storing the state gives.
\<close>
fun read_nodes :: "(bytes \<Rightarrow> bytes \<Rightarrow> bytes \<Rightarrow> 's \<Rightarrow> 's result option) \<Rightarrow> bytes \<Rightarrow> 64 word \<Rightarrow> nat \<Rightarrow> bytes \<Rightarrow> 's \<Rightarrow> 's result option" where
  "read_nodes storeState file fOff 0 buff s = Some (Ok s)"
| "read_nodes storeState file fOff (Suc n) buff s =
     rbind (Some (BytesFixedUint64 (take 8 (drop 64 buff)))) (\<lambda>(off, _).
     rbind (Some (seek (fOff + off))) (\<lambda>pos.
     rbind (Some (ReadFull file pos 8)) (\<lambda>vBuff.
     rbind (Some (BytesFixedUint64 vBuff)) (\<lambda>(vLen, _).
     rbind (storeState (take 32 buff) (take 32 (drop 32 buff)) (NewSectionReader file (fOff + off + 8) vLen) s) (\<lambda>s.
     read_nodes storeState file fOff n (drop nLen buff) s)))))"

partial_function (option) read_loop ::
  "(bytes \<Rightarrow> bytes \<Rightarrow> bytes \<Rightarrow> 's \<Rightarrow> 's result option) \<Rightarrow> bytes \<Rightarrow> 64 word \<Rightarrow> 64 word \<Rightarrow> 64 word \<Rightarrow> 64 word \<Rightarrow> 's \<Rightarrow> 's result option" where
  "read_loop storeState file fOff fileIndex toRead numNodes s =
     (if toRead = 0 then Some (Ok s)
      else let toRead = (if numNodes < toRead then numNodes else toRead) in
        rbind (Some (seek fileIndex)) (\<lambda>pos.
        rbind (Some (ReadFull file pos (unat toRead * nLen))) (\<lambda>buff.
        rbind (read_nodes storeState file fOff (unat toRead) buff s) (\<lambda>s.
        read_loop storeState file fOff (fileIndex + toRead * word_of_nat nLen) toRead (numNodes - toRead) s))))"

definition ReadSnapshot :: "(bytes \<Rightarrow> bytes \<Rightarrow> bytes \<Rightarrow> 's \<Rightarrow> 's result option) \<Rightarrow> bytes \<Rightarrow> 's \<Rightarrow> 's result option" where
  "ReadSnapshot storeState file s = rbind (Some (ReadFull file 0 8)) (\<lambda>vBuff.
     rbind (Some (BytesFixedUint64 vBuff)) (\<lambda>(numNodes, _).
     read_loop storeState file (8 + numNodes * word_of_nat nLen) 8 (word_of_nat window) numNodes s))"

definition LoadSnapshot :: "(bytes \<Rightarrow> bytes \<Rightarrow> bytes \<Rightarrow> 's \<Rightarrow> 's result option) \<Rightarrow> bytes \<Rightarrow> BPT \<times> 's \<Rightarrow> (BPT \<times> 's) result option" where
  "LoadSnapshot storeState file bs = (if MaxHeight (fst bs) \<noteq> 0 then Some (Err (Plain ''a snapshot can only be read into a new BPT''))
     else rbind (ReadSnapshot (\<lambda>k h v (b, s). rbind (BPT_Insert k h b) (\<lambda>b. rbind (storeState k h v s) (\<lambda>s. Some (Ok (b, s))))) file bs)
       (\<lambda>(b, s). rbind (Update b) (\<lambda>b. Some (Ok (b, s)))))"

section \<open>The bytes of a snapshot\<close>

text \<open>The values of the entries, and the nodes that point to them from an offset on.\<close>
definition val_bytes :: "(bytes \<Rightarrow> bytes \<Rightarrow> bytes) \<Rightarrow> (bytes \<times> bytes) list \<Rightarrow> bytes" where
  "val_bytes v es = concat (map (\<lambda>(k, h). Uint64FixedBytes (word_of_nat (length (v k h))) @ v k h) es)"

fun node_bytes :: "(bytes \<Rightarrow> bytes \<Rightarrow> bytes) \<Rightarrow> (bytes \<times> bytes) list \<Rightarrow> nat \<Rightarrow> bytes" where
  "node_bytes v [] off = []"
| "node_bytes v ((k, h) # es) off = k @ h @ Uint64FixedBytes (word_of_nat off) @ node_bytes v es (off + (length (v k h) + 8))"

lemma val_bytes_simps [simp]:
  "val_bytes v [] = []" "val_bytes v ((k, h) # es) = Uint64FixedBytes (word_of_nat (length (v k h))) @ v k h @ val_bytes v es"
  "val_bytes v (xs @ ys) = val_bytes v xs @ val_bytes v ys"
  by (simp_all add: val_bytes_def)

lemma length_Fixed [simp]: "length (Uint64FixedBytes i) = 8"
  by (simp add: Uint64FixedBytes_def)

lemma node_bytes_append: "node_bytes v (xs @ ys) off = node_bytes v xs off @ node_bytes v ys (off + length (val_bytes v xs))"
  by (induction v xs off rule: node_bytes.induct) (simp_all add: add.assoc add.commute add.left_commute)

lemma length_node_bytes: "\<forall>(k, h) \<in> set es. length k = 32 \<and> length h = 32 \<Longrightarrow> length (node_bytes v es off) = nLen * length es"
  by (induction v es off rule: node_bytes.induct) (simp_all add: nLen_def)

lemma save_page_bytes:
  assumes "\<forall>(k, h) \<in> set es. loadState k h = Ok (v k h)"
  shows "save_page loadState es (word_of_nat off) out vals
    = Ok (word_of_nat (off + length (val_bytes v es)), out @ node_bytes v es off, vals @ val_bytes v es)"
  using assms
proof (induction es arbitrary: off out vals)
  case (Cons e es)
  obtain k h where e: "e = (k, h)" by fastforce
  have "word_of_nat off + (word_of_nat (length (v k h)) + 8) = (word_of_nat (off + (length (v k h) + 8)) :: 64 word)" by simp
  moreover have "loadState k h = Ok (v k h)" using Cons.prems e by simp
  ultimately show ?case
    using Cons.IH [of "off + (length (v k h) + 8)"] Cons.prems by (simp add: e ac_simps del: of_nat_add)
qed simp

text \<open>The entries below the last key of a page are those the page left.\<close>
lemma page_rest:
  fixes es :: "('k::linorder \<times> 'v) list"
  assumes "sorted_wrt (\<lambda>x y. fst y < fst x) es" "take n es \<noteq> []"
  shows "filter (\<lambda>e. fst e < fst (last (take n es))) es = drop n es"
proof -
  define xs ys where "xs = take n es" and "ys = drop n es"
  have es: "es = xs @ ys" "xs \<noteq> []" using assms(2) by (simp_all add: xs_def ys_def)
  have s: "sorted_wrt (\<lambda>x y. fst y < fst x) (butlast xs @ [last xs])" "\<forall>y \<in> set ys. fst y < fst (last xs)"
    using assms(1) es by (auto simp: sorted_wrt_append)
  then have "\<forall>x \<in> set (butlast xs). fst (last xs) < fst x" by (auto simp: sorted_wrt_append)
  then have "\<forall>x \<in> set (butlast xs @ [last xs]). \<not> fst x < fst (last xs)" by auto
  then have "filter (\<lambda>e. fst e < fst (last xs)) xs = []" using es(2) by (simp add: filter_empty_conv)
  moreover have "filter (\<lambda>e. fst e < fst (last xs)) ys = ys" using s(2) by (simp add: filter_id_conv)
  ultimately have "filter (\<lambda>e. fst e < fst (last xs)) es = ys" by (subst es(1)) simp
  then show ?thesis by (simp add: xs_def ys_def)
qed

lemma save_loop_bytes:
  assumes b: "bpt_inv b" "\<forall>(k, h) \<in> set (listing (Root b)). loadState k h = Ok (v k h)"
    and "length place = 32" "place \<in> dom (bpt_contents b) \<or> place = FirstPossibleBptKey"
    and "es = filter (\<lambda>e. fst e < place) (listing (Root b))"
  shows "save_loop loadState place (word_of_nat off) cnt out vals b
    = Some (Ok (b, cnt + word_of_nat (length es), out @ node_bytes v es off, vals @ val_bytes v es))"
  using assms(3-)
proof (induction "length es" arbitrary: es place off cnt out vals rule: less_induct)
  case less
  let ?page = "take window es"
  have l: "wf [] (Root b)" using b(1) by (simp add: bpt_inv_def)
  have sorted: "sorted_wrt (\<lambda>x y. fst y < fst x) es" using listing_map [OF l] sorted_wrt_filter less.prems(3) by blast
  have sub: "set es \<subseteq> set (listing (Root b))" using less.prems(3) by auto
  have g: "GetRange place (int window) b = Some (Ok (b, ?page, if ?page = [] then replicate 32 0 else fst (last ?page)))"
    using GetRange_page [OF b(1) less.prems(1,2), of "int window"] less.prems(3) by simp
  show ?case
  proof (cases "?page = []")
    case True
    then have "es = []" by (simp add: window_def)
    then show ?thesis using g by (subst save_loop.simps) simp
  next
    case False
    define next_place where "next_place = fst (last ?page)"
    have "last ?page \<in> set es" by (rule in_set_takeD [OF last_in_set [OF False]])
    moreover have "\<forall>e \<in> set es. fst e < place" unfolding less.prems(3) by simp
    ultimately have nx: "(next_place, snd (last ?page)) \<in> set (listing (Root b))" "next_place < place"
      using sub unfolding next_place_def prod.collapse by blast+
    have "set (listing (Root b)) = {(k, h). tmap (Root b) k = Some h}" using listing_map [OF l] by blast
    then have "next_place \<in> dom (tmap (Root b))" using nx(1) by (simp add: domIff)
    then have np: "length next_place = 32" "next_place \<in> dom (bpt_contents b)"
      using wf_dom [OF l] unfolding bpt_contents_def by blast+
    have "filter (\<lambda>e. fst e < next_place) (listing (Root b)) = filter (\<lambda>e. fst e < next_place) es"
      unfolding less.prems(3) filter_filter using less_trans [OF _ nx(2)] by (intro filter_cong) blast+
    then have rest: "drop window es = filter (\<lambda>e. fst e < next_place) (listing (Root b))"
      using page_rest [OF sorted False] by (simp add: next_place_def)
    have len: "length (drop window es) < length es" using False by (simp add: window_def)
    have "\<forall>(k, h) \<in> set ?page. loadState k h = Ok (v k h)" using b(2) sub in_set_takeD by fastforce
    note sp = save_page_bytes [OF this, of off out vals]
    have all: "node_bytes v ?page off @ node_bytes v (drop window es) (off + length (val_bytes v ?page)) = node_bytes v es off"
        "val_bytes v ?page @ val_bytes v (drop window es) = val_bytes v es" "length ?page + length (drop window es) = length es"
      by (simp_all flip: node_bytes_append val_bytes_simps(3))
    have "save_loop loadState place (word_of_nat off) cnt out vals b
      = save_loop loadState next_place (word_of_nat (off + length (val_bytes v ?page))) (cnt + word_of_nat (length ?page))
          (out @ node_bytes v ?page off) (vals @ val_bytes v ?page) b"
      using g False sp by (subst save_loop.simps) (simp add: next_place_def)
    also have "\<dots> = Some (Ok (b, cnt + word_of_nat (length ?page) + word_of_nat (length (drop window es)),
        (out @ node_bytes v ?page off) @ node_bytes v (drop window es) (off + length (val_bytes v ?page)),
        (vals @ val_bytes v ?page) @ val_bytes v (drop window es)))"
      using np rest by (intro less.hyps [OF len]) simp_all
    finally show ?thesis by (simp only: append_assoc all add.assoc flip: of_nat_add)
  qed
qed

section \<open>Reading the bytes back\<close>

primrec store_all :: "(bytes \<Rightarrow> bytes \<Rightarrow> bytes \<Rightarrow> 's \<Rightarrow> 's result option) \<Rightarrow> (bytes \<Rightarrow> bytes \<Rightarrow> bytes) \<Rightarrow> (bytes \<times> bytes) list \<Rightarrow> 's \<Rightarrow> 's result option" where
  "store_all f v [] s = Some (Ok s)"
| "store_all f v (e # es) s = rbind (f (fst e) (snd e) (v (fst e) (snd e)) s) (store_all f v es)"

lemma store_all_append: "store_all f v (xs @ ys) s = rbind (store_all f v xs s) (store_all f v ys)"
  by (induction xs arbitrary: s) (auto simp: rbind_assoc intro!: arg_cong2 [where f = rbind])

definition snapshot :: "(bytes \<Rightarrow> bytes \<Rightarrow> bytes) \<Rightarrow> (bytes \<times> bytes) list \<Rightarrow> bytes" where
  "snapshot v es = Uint64FixedBytes (word_of_nat (length es)) @ node_bytes v es 0 @ val_bytes v es"

lemma word_small:
  assumes "n < 2 ^ 63"
  shows "sint (word_of_nat n :: 64 word) = int n" "unat (word_of_nat n :: 64 word) = n"
proof -
  have "sint (word_of_nat n :: 64 word) = signed_take_bit 63 (int n)" by (simp add: signed_of_nat)
  also have "\<dots> = int n" using assms by (intro signed_take_bit_int_eq_self) simp_all
  finally show "sint (word_of_nat n :: 64 word) = int n" .
  show "unat (word_of_nat n :: 64 word) = n" using assms by (simp only: unsigned_of_nat) (simp add: take_bit_nat_eq_self)
qed

lemma seek_ok: "n < 2 ^ 63 \<Longrightarrow> seek (word_of_nat n) = Ok n"
  by (simp add: seek_def word_small)

definition entries_ok :: "(bytes \<times> bytes) list \<Rightarrow> bool" where
  "entries_ok es \<longleftrightarrow> (\<forall>(k, h) \<in> set es. length k = 32 \<and> length h = 32)"

lemma entries_ok_append [simp]: "entries_ok (xs @ ys) \<longleftrightarrow> entries_ok xs \<and> entries_ok ys"
  by (auto simp: entries_ok_def)

lemma length_snapshot: "entries_ok es \<Longrightarrow> length (snapshot v es) = 8 + nLen * length es + length (val_bytes v es)"
  using length_node_bytes [of es v 0] by (simp add: snapshot_def entries_ok_def)

text \<open>Where the nodes and the values of the entries after a prefix stand.\<close>
lemma drop_snapshot:
  assumes "entries_ok (xs @ ys)"
  shows "drop (8 + nLen * length xs) (snapshot v (xs @ ys)) = node_bytes v ys (length (val_bytes v xs)) @ val_bytes v (xs @ ys)"
    "drop (8 + nLen * length (xs @ ys) + length (val_bytes v xs)) (snapshot v (xs @ ys)) = val_bytes v ys"
proof -
  have l: "length (node_bytes v es off) = nLen * length es" if "entries_ok es" for es off
    using that length_node_bytes by (simp add: entries_ok_def)
  show "drop (8 + nLen * length xs) (snapshot v (xs @ ys)) = node_bytes v ys (length (val_bytes v xs)) @ val_bytes v (xs @ ys)"
    using assms by (simp add: snapshot_def node_bytes_append l)
  show "drop (8 + nLen * length (xs @ ys) + length (val_bytes v xs)) (snapshot v (xs @ ys)) = val_bytes v ys"
    using assms l [of "xs @ ys" 0] by (simp add: snapshot_def)
qed

lemma BytesFixedUint64_exact: "BytesFixedUint64 (Uint64FixedBytes i) = Ok (i, [])"
  using BytesFixedUint64_Fixed [of i "[]"] by simp

lemma read_nodes_bytes:
  assumes "entries_ok (xs @ ys @ zs)" "length (snapshot v (xs @ ys @ zs)) < 2 ^ 63"
  shows "read_nodes f (snapshot v (xs @ ys @ zs)) (word_of_nat (8 + nLen * length (xs @ ys @ zs))) (length ys)
    (node_bytes v ys (length (val_bytes v xs)) @ rest) s = store_all f v ys s"
  using assms
proof (induction ys arbitrary: xs s)
  case (Cons e ys)
  obtain k h where e: "e = (k, h)" by fastforce
  define all where "all = xs @ e # ys @ zs"
  define pos where "pos = 8 + nLen * length all + length (val_bytes v xs)"
  have kh: "length k = 32" "length h = 32" using Cons.prems(1) by (auto simp: e entries_ok_def)
  have d: "drop pos (snapshot v all) = Uint64FixedBytes (word_of_nat (length (v k h))) @ v k h @ val_bytes v (ys @ zs)"
    using drop_snapshot(2) [of xs "e # ys @ zs"] Cons.prems(1) by (simp add: pos_def all_def e)
  have len: "length (snapshot v all) < 2 ^ 63" "pos + 8 + length (v k h) \<le> length (snapshot v all)"
    using Cons.prems by (simp_all add: all_def e pos_def length_snapshot)
  then have small: "pos < 2 ^ 63" "pos + 8 < 2 ^ 63" "length (v k h) < 2 ^ 63" by linarith+
  define fo :: "64 word" where "fo = word_of_nat (8 + nLen * length all)"
  have w: "fo + word_of_nat (length (val_bytes v xs)) = word_of_nat pos" "word_of_nat pos + 8 = (word_of_nat (pos + 8) :: 64 word)"
    by (simp_all add: fo_def pos_def)
  have r: "ReadFull (snapshot v all) pos 8 = Ok (Uint64FixedBytes (word_of_nat (length (v k h))))"
    using len(2) by (simp add: ReadFull_def d)
  have "drop (pos + 8) (snapshot v all) = drop 8 (drop pos (snapshot v all))" by (simp add: add.commute)
  then have s: "NewSectionReader (snapshot v all) (word_of_nat (pos + 8)) (word_of_nat (length (v k h))) = v k h"
    using small unfolding NewSectionReader_def by (simp only: word_small d) simp
  have off: "length (val_bytes v (xs @ [e])) = length (val_bytes v xs) + (length (v k h) + 8)" by (simp add: e)
  have step: "read_nodes f (snapshot v all) fo (length (e # ys)) (node_bytes v (e # ys) (length (val_bytes v xs)) @ rest) s
    = rbind (f k h (v k h) s) (read_nodes f (snapshot v all) fo (length ys) (node_bytes v ys (length (val_bytes v (xs @ [e]))) @ rest))"
    unfolding off using kh w r s seek_ok [OF small(1)] BytesFixedUint64_exact by (simp add: e nLen_def del: of_nat_add)
  have "read_nodes f (snapshot v all) fo (length ys) (node_bytes v ys (length (val_bytes v (xs @ [e]))) @ rest) s' = store_all f v ys s'" for s'
    using Cons.IH [of "xs @ [e]" s'] Cons.prems by (simp add: all_def fo_def)
  then have ih: "read_nodes f (snapshot v all) fo (length ys) (node_bytes v ys (length (val_bytes v (xs @ [e]))) @ rest) = store_all f v ys"
    by (rule ext)
  have eq: "xs @ (e # ys) @ zs = all" by (simp add: all_def)
  show ?case unfolding eq fo_def [symmetric] step ih by (simp add: e)
qed simp

lemma read_loop_done:
  assumes "n < 2 ^ 63"
  shows "read_loop f bs fOff (word_of_nat n) t 0 s = Some (Ok s)"
proof -
  have "read_loop f bs fOff i 0 0 s = Some (Ok s)" for i by (subst read_loop.simps) simp
  then show ?thesis
    using seek_ok [OF assms] by (subst read_loop.simps) (simp add: ReadFull_def word_neq_0_conv)
qed

lemma read_loop_bytes:
  assumes "entries_ok (xs @ ys)" "length (snapshot v (xs @ ys)) < 2 ^ 63"
  shows "read_loop f (snapshot v (xs @ ys)) (word_of_nat (8 + nLen * length (xs @ ys))) (word_of_nat (8 + nLen * length xs))
    (word_of_nat window) (word_of_nat (length ys)) s = store_all f v ys s"
  using assms
proof (induction "length ys" arbitrary: xs ys s rule: less_induct)
  case less
  define as bs where "as = take window ys" and "bs = drop window ys"
  define out where "out = snapshot v (xs @ ys)"
  define fo :: "64 word" where "fo = word_of_nat (8 + nLen * length (xs @ ys))"
  let ?pos = "8 + nLen * length xs"
  have ys: "ys = as @ bs" by (simp add: as_def bs_def)
  have len: "8 + nLen * length xs + nLen * length ys \<le> length out" "length out < 2 ^ 63"
    using less.prems length_snapshot [of "xs @ ys" v] by (simp_all add: out_def add_mult_distrib2)
  then have small: "?pos < 2 ^ 63" "length ys < 2 ^ 63" "?pos + nLen * length as < 2 ^ 63" "?pos + nLen * length as \<le> length out"
    by (simp_all add: ys nLen_def)
  have toRead: "(if word_of_nat (length ys) < (word_of_nat window :: 64 word) then word_of_nat (length ys) else word_of_nat window)
      = (word_of_nat (length as) :: 64 word)"
    using small(2) word_small(2) [of "length ys"] by (simp add: word_less_nat_alt window_def as_def min_def)
  have unat: "unat (word_of_nat (length as) :: 64 word) = length as" using small(2) by (intro word_small) (simp add: as_def)
  have "entries_ok as" using less.prems(1) by (simp add: ys)
  then have "length (node_bytes v as off) = length as * nLen" for off
    using length_node_bytes [of as v off] by (simp add: entries_ok_def)
  then have rf: "ReadFull out ?pos (length as * nLen) = Ok (node_bytes v as (length (val_bytes v xs)))"
    using small(4) drop_snapshot(1) [OF less.prems(1)] by (simp add: ReadFull_def out_def ys node_bytes_append ac_simps)
  have rn: "read_nodes f out fo (length as) (node_bytes v as (length (val_bytes v xs))) s = store_all f v as s"
    using read_nodes_bytes [of xs as bs v f "[]" s] less.prems by (simp add: out_def fo_def ys)
  have w: "word_of_nat ?pos + word_of_nat (length as) * word_of_nat nLen = (word_of_nat (8 + nLen * length (xs @ as)) :: 64 word)"
    "word_of_nat (length ys) - word_of_nat (length as) = (word_of_nat (length bs) :: 64 word)"
    by (simp_all add: ys algebra_simps)
  have "read_loop f out fo (word_of_nat ?pos) (word_of_nat window) (word_of_nat (length ys)) s
    = rbind (store_all f v as s) (read_loop f out fo (word_of_nat (8 + nLen * length (xs @ as))) (word_of_nat (length as)) (word_of_nat (length bs)))"
    by (subst read_loop.simps) (simp only: toRead unat rf rn w seek_ok [OF small(1)] Let_def rbind_simps, simp add: window_def)
  moreover have "read_loop f out fo (word_of_nat (8 + nLen * length (xs @ as))) (word_of_nat (length as)) (word_of_nat (length bs)) s' = store_all f v bs s'" for s'
  proof (cases "length ys < window")
    case True
    then have "bs = []" by (simp add: bs_def)
    then show ?thesis using read_loop_done [of "8 + nLen * length (xs @ as)"] small(3) by (simp add: add_mult_distrib2)
  next
    case False
    then have "length as = window" "length bs < length ys" by (simp_all add: as_def bs_def window_def)
    then show ?thesis using less.hyps [of bs "xs @ as" s'] less.prems by (simp add: out_def fo_def ys)
  qed
  ultimately have "read_loop f out fo (word_of_nat ?pos) (word_of_nat window) (word_of_nat (length ys)) s = store_all f v (as @ bs) s"
    by (simp only: store_all_append ext [of "read_loop f out fo _ _ _" "store_all f v bs"])
  then show ?case by (simp only: out_def fo_def ys)
qed

lemma ReadSnapshot_bytes:
  assumes "entries_ok es" "length (snapshot v es) < 2 ^ 63"
  shows "ReadSnapshot f (snapshot v es) s = store_all f v es s"
proof -
  have "ReadFull (snapshot v es) 0 8 = Ok (Uint64FixedBytes (word_of_nat (length es)))"
    by (simp add: ReadFull_def snapshot_def)
  moreover have "8 + word_of_nat (length es) * word_of_nat nLen = (word_of_nat (8 + nLen * length es) :: 64 word)" by (simp add: mult.commute)
  ultimately show ?thesis
    using read_loop_bytes [of "[]" es v f s] assms by (simp add: ReadSnapshot_def BytesFixedUint64_exact mult.commute)
qed

section \<open>The round trip\<close>

lemma wf_apart: "wf p t \<Longrightarrow> k \<in> dom (tmap t) \<Longrightarrow> k' \<in> dom (tmap t) \<Longrightarrow> k = k' \<or> apart k k'"
proof (induction t arbitrary: p)
  case (BptNode ht nk h l r)
  have w: "wf (p @ [True]) l" "wf (p @ [False]) r" "length p \<le> 254" using BptNode.prems(1) by auto
  have d: "k \<in> dom (tmap l) \<or> k \<in> dom (tmap r)" "k' \<in> dom (tmap l) \<or> k' \<in> dom (tmap r)"
    using BptNode.prems(2,3) by auto
  have "apart x y" if "x \<in> dom (tmap l)" "y \<in> dom (tmap r)" for x y
    using wf_dom [OF w(1) that(1)] wf_dom [OF w(2) that(2)] w(3) unfolding apart_def by (intro exI [of _ "length p"]) auto
  then show ?case using d BptNode.IH(1) [OF w(1)] BptNode.IH(2) [OF w(2)] apart_sym by blast
qed auto

lemma sorted_distinct: "sorted_wrt (\<lambda>x y. fst y < fst x) es \<Longrightarrow> distinct (map fst (es :: ('k::linorder \<times> 'v) list))"
  by (induction es) auto

abbreviation put_all :: "(bytes \<times> bytes) list \<Rightarrow> (bytes \<rightharpoonup> bytes) \<Rightarrow> bytes \<rightharpoonup> bytes" where
  "put_all es m \<equiv> fold (\<lambda>e m. m(fst e \<mapsto> snd e)) es m"

lemma put_all_map_of:
  assumes "distinct (map fst es)"
  shows "put_all es Map.empty = map_of es"
proof -
  have "put_all es m = m ++ map_of (rev es)" for m :: "bytes \<rightharpoonup> bytes"
    by (induction es arbitrary: m) (simp_all add: map_add_assoc)
  moreover have "map_of (rev es) k = Some x \<longleftrightarrow> map_of es k = Some x" for k x
    using assms by (simp add: map_of_eq_Some_iff flip: rev_map)
  then have "map_of (rev es) = map_of es" by (intro ext) (metis option.exhaust)
  ultimately show ?thesis by simp
qed

text \<open>The insertions that restoring a snapshot makes, together with the stores.\<close>
lemma store_all_insert:
  fixes g :: "bytes \<Rightarrow> bytes \<Rightarrow> bytes \<Rightarrow> 's \<Rightarrow> 's"
  defines "F \<equiv> (\<lambda>k h x (b, s). rbind (BPT_Insert k h b) (\<lambda>b. rbind (Some (Ok (g k h x s))) (\<lambda>s. Some (Ok (b, s)))))"
  assumes "bpt_inv b" "entries_ok es" "\<forall>k \<in> dom (bpt_contents b) \<union> fst ` set es. \<forall>k' \<in> fst ` set es. k = k' \<or> apart k k'"
  shows "\<exists>b'. store_all F v es (b, s) = Some (Ok (b', fold (\<lambda>e. g (fst e) (snd e) (v (fst e) (snd e))) es s))
    \<and> bpt_inv b' \<and> bpt_contents b' = put_all es (bpt_contents b)"
  using assms(2-)
proof (induction es arbitrary: b s)
  case (Cons e es)
  have "admissible (bpt_contents b) (fst e) (snd e)"
    using Cons.prems(2,3) by (auto simp: admissible_def entries_ok_def split_beta)
  then obtain b1 where b1: "BPT_Insert (fst e) (snd e) b = Some (Ok b1)" "bpt_inv b1" "bpt_contents b1 = (bpt_contents b)(fst e \<mapsto> snd e)"
    using BPT_Insert_contents [OF Cons.prems(1)] by blast
  have "F (fst e) (snd e) (v (fst e) (snd e)) (b, s) = Some (Ok (b1, g (fst e) (snd e) (v (fst e) (snd e)) s))" using b1(1) by (simp add: F_def)
  then have step: "store_all F v (e # es) (b, s) = store_all F v es (b1, g (fst e) (snd e) (v (fst e) (snd e)) s)" by simp
  have ok: "entries_ok es" using Cons.prems(2) by (simp add: entries_ok_def)
  have "dom (bpt_contents b1) \<union> fst ` set es \<subseteq> dom (bpt_contents b) \<union> fst ` set (e # es)" unfolding b1(3) by auto
  then have "\<forall>k \<in> dom (bpt_contents b1) \<union> fst ` set es. \<forall>k' \<in> fst ` set es. k = k' \<or> apart k k'"
    using Cons.prems(3) by (meson image_mono set_subset_Cons subsetD)
  from Cons.IH [OF b1(2) ok this] show ?case unfolding step b1(3) by (simp only: fold.simps o_apply)
qed simp

text \<open>
  C13. A snapshot of a tree that is in memory and does not hold the first possible key, saved and then
  restored into a new tree, gives a tree with the same entries and the root hash of those entries;
  and the state that was loaded for each entry when the snapshot was saved is stored when it is
  restored, once each, in descending order of the keys. The file must be smaller than 2^63 bytes.
\<close>
theorem snapshot_roundtrip:
  fixes g :: "bytes \<Rightarrow> bytes \<Rightarrow> bytes \<Rightarrow> 's \<Rightarrow> 's"
  assumes "bpt_inv b" "manager b \<noteq> None" "FirstPossibleBptKey \<notin> dom (bpt_contents b)"
    and "\<forall>k h. bpt_contents b k = Some h \<longrightarrow> loadState k h = Ok (v k h)" "length (snapshot v (listing (Root b))) < 2 ^ 63"
  shows "\<exists>out b'. SaveSnapshot loadState b = Some (Ok (b, out))
    \<and> LoadSnapshot (\<lambda>k h x s. Some (Ok (g k h x s))) out (NewBPT m, s)
        = Some (Ok (b', fold (\<lambda>e. g (fst e) (snd e) (v (fst e) (snd e))) (listing (Root b)) s))
    \<and> bpt_contents b' = bpt_contents b
    \<and> (\<forall>es. distinct (map fst es) \<and> map_of es = bpt_contents b \<longrightarrow> RootHash b' = bpt_hash es)"
proof -
  let ?l = "listing (Root b)"
  have wf: "wf [] (Root b)" using assms(1) by (simp add: bpt_inv_def)
  have l: "map_of ?l = bpt_contents b" "set ?l = {(k, h). bpt_contents b k = Some h}" "sorted_wrt (\<lambda>x y. fst y < fst x) ?l"
    using listing_map [OF wf] unfolding bpt_contents_def by blast+
  have ok: "entries_ok ?l" unfolding entries_ok_def l(2) using wf_dom [OF wf] wf_ran [OF wf] by (auto simp: bpt_contents_def)
  have dist: "distinct (map fst ?l)" by (rule sorted_distinct [OF l(3)])
  have "\<forall>e \<in> set ?l. fst e < FirstPossibleBptKey"
  proof
    fix e assume "e \<in> set ?l"
    then have "fst e \<in> dom (bpt_contents b)" "length (fst e) = 32" using l(2) ok by (auto simp: entries_ok_def)
    then show "fst e < FirstPossibleBptKey"
      using assms(3) first_key_max [of "fst e" 32] unfolding FirstPossibleBptKey_def [symmetric] by (metis order_le_imp_less_or_eq)
  qed
  then have all: "filter (\<lambda>e. fst e < FirstPossibleBptKey) ?l = ?l" by (simp add: filter_id_conv)
  have load: "\<forall>(k, h) \<in> set ?l. loadState k h = Ok (v k h)" using assms(4) l(2) by auto
  have "save_loop loadState FirstPossibleBptKey 0 0 (replicate 8 0) [] b = Some (Ok (b, word_of_nat (length ?l), replicate 8 0 @ node_bytes v ?l 0, val_bytes v ?l))"
    using save_loop_bytes [OF assms(1) load, of FirstPossibleBptKey ?l 0 0 "replicate 8 0" "[]"] all by (simp add: FirstPossibleBptKey_def)
  then have save: "SaveSnapshot loadState b = Some (Ok (b, snapshot v ?l))"
    using assms(2) by (auto simp: SaveSnapshot_def snapshot_def)
  have "\<forall>k \<in> dom (bpt_contents (NewBPT m)) \<union> fst ` set ?l. \<forall>k' \<in> fst ` set ?l. k = k' \<or> apart k k'"
  proof -
    have "fst ` set ?l \<subseteq> dom (tmap (Root b))" unfolding l(2) bpt_contents_def by auto
    then show ?thesis using wf_apart [OF wf] unfolding NewBPT_inv(2) by blast
  qed
  from store_all_insert [OF NewBPT_inv(1) ok this, of g v s] obtain b1
    where b1: "store_all (\<lambda>k h x (b, s). rbind (BPT_Insert k h b) (\<lambda>b. rbind (Some (Ok (g k h x s))) (\<lambda>s. Some (Ok (b, s))))) v ?l (NewBPT m, s)
        = Some (Ok (b1, fold (\<lambda>e. g (fst e) (snd e) (v (fst e) (snd e))) ?l s))"
      "bpt_inv b1" "bpt_contents b1 = bpt_contents b"
    using put_all_map_of [OF dist] l(1) by (auto simp: NewBPT_inv)
  from Update_root [OF b1(2)] obtain b' where "Update b1 = Some (Ok b')" "bpt_contents b' = bpt_contents b"
      "\<forall>es. distinct (map fst es) \<and> map_of es = bpt_contents b \<longrightarrow> RootHash b' = bpt_hash es"
    unfolding b1(3) by blast
  moreover have "MaxHeight (NewBPT m) = 0" by (simp add: NewBPT_def)
  ultimately show ?thesis
    using save b1(1) by (intro exI [of _ "snapshot v ?l"] exI [of _ b']) (simp add: LoadSnapshot_def ReadSnapshot_bytes [OF ok assms(5)])
qed

theorem snapshot_roundtrip_witness:
  "\<exists>b out b'. bpt_contents b = [replicate 32 1 \<mapsto> replicate 32 5] \<and> SaveSnapshot (\<lambda>k h. Ok [7]) b = Some (Ok (b, out))
    \<and> LoadSnapshot (\<lambda>k h x s. Some (Ok (s @ [(k, h, x)]))) out (NewBPT None, []) = Some (Ok (b', [(replicate 32 1, replicate 32 5, [7])]))
    \<and> bpt_contents b' = bpt_contents b \<and> RootHash b' = bpt_hash [(replicate 32 1, replicate 32 5)]"
proof -
  define key hash :: bytes where "key = replicate 32 1" and "hash = replicate 32 5"
  define b where "b = (NewBPT (Some \<lparr> Blocks = Map.empty, Settings = None \<rparr>))
    \<lparr> Root := BptNode 0 (nodekey []) (replicate 32 0) NilEntry (Value key hash), DirtyMap := [(nodekey [], [])] \<rparr>"
  have kh: "length key = 32" "length hash = 32" by (simp_all add: key_def hash_def)
  have bit: "\<not> key_bit key 0" by (simp add: key_def key_bit_def)
  have inv: "bpt_inv b" "manager b \<noteq> None" "bpt_contents b = [key \<mapsto> hash]" "listing (Root b) = [(key, hash)]"
    using kh bit by (simp_all add: b_def bpt_inv_def NewBPT_def bpt_contents_def dset_def dinv_def under_def)
  have "key_bit FirstPossibleBptKey 0" by (rule first_key_bit) simp
  then have first: "FirstPossibleBptKey \<notin> dom (bpt_contents b)" using bit inv(3) by auto
  have len: "length (snapshot (\<lambda>k h. [7]) (listing (Root b))) < 2 ^ 63"
    using kh by (simp add: inv(4) snapshot_def)
  from snapshot_roundtrip [OF inv(1,2) first _ len, of "\<lambda>k h. Ok [7]" "\<lambda>k h x s. s @ [(k, h, x)]" None "[]"]
  obtain out b' where "SaveSnapshot (\<lambda>k h. Ok [7]) b = Some (Ok (b, out))"
      "LoadSnapshot (\<lambda>k h x s. Some (Ok (s @ [(k, h, x)]))) out (NewBPT None, []) = Some (Ok (b', [(key, hash, [7])]))"
      "bpt_contents b' = [key \<mapsto> hash]" "\<forall>es. distinct (map fst es) \<and> map_of es = [key \<mapsto> hash] \<longrightarrow> RootHash b' = bpt_hash es"
    unfolding inv(3,4) by auto
  moreover from this(4) have "RootHash b' = bpt_hash [(key, hash)]" by simp
  ultimately show ?thesis using inv(3) unfolding key_def hash_def by metis
qed

end
