(* ===== verification/Spec2Isabelle.thy ===== *)
theory Spec2Isabelle
  imports Receipt_List Hasher Network Exchange Pages Bpt_Store Bpt_Receipt Bpt_Snapshot
begin

text \<open>
  Verification of the core of Accumulate, a blockchain node written in Go.

  \<^bold>\<open>The program.\<close> The accounts of Accumulate are named by URLs and spread over partitions by a
  routing number. Each partition executes transactions on its own accounts. What a transaction changes
  on another partition is sent there as a synthetic transaction, numbered by the sender, with a
  receipt that proves it was produced. The history of each account is a chain, a Merkle tree that
  only grows; the states of all accounts are the leaves of a Binary Patricia Tree, whose root hash is
  the state of the partition. The theories below follow these layers from the bottom. Operations
  are functions that return the changed state; a Go call that returns an error or panics is a value
  of the type \<open>result\<close> of \<open>Prelude\<close> (\<open>Ok\<close>, \<open>Err\<close> with status and message, \<open>Panic\<close>).

  \<^bold>\<open>Foundations.\<close> \<open>Prelude\<close> holds the results, the status codes of \<^verbatim>\<open>src/internal/errors\<close> and the
  generic lemmas. \<open>Sha256\<close> is the hash function, executable. \<open>Sortutil\<close> models
  \<^verbatim>\<open>src/internal/sortutil/sort.go\<close>; its locale \<open>keyed\<close> is the contract of a slice sorted by a key (search
  finds exactly what is there, insertion and removal keep it sorted), interpreted for transaction IDs,
  authorities, signers, keys and ledgers. \<open>Encoding\<close> models the field codecs of
  \<^verbatim>\<open>src/smt/common/helper.go\<close> and \<^verbatim>\<open>src/internal/encoding/utils.go\<close> with their 64-bit arithmetic:
  every field reads back (\<open>fields_roundtrip\<close>), and a length of \<open>2 ^ 63\<close> panics (\<open>BytesUnmarshal_panics\<close>).

  \<^bold>\<open>Chains and receipts.\<close> \<open>Merkle_Tree\<close> is the reference: the tree hash of RFC 6962, its levels and its
  spine. \<open>Merkle_State\<close> models \<^verbatim>\<open>src/smt/managed/hash.go\<close> and \<^verbatim>\<open>merklestate.go\<close>, \<open>Merkle_Manager\<close>
  \<^verbatim>\<open>merklemanager.go\<close> and \<^verbatim>\<open>merklemanagerrange.go\<close>, \<open>Receipt\<close> and \<open>Receipt_List\<close> \<^verbatim>\<open>receipt.go\<close> and
  \<^verbatim>\<open>receiptlist.go\<close>, and \<open>Hasher\<close> models \<^verbatim>\<open>src/internal/encoding/hash/hasher.go\<close>. The code computes the reference
  (\<open>GetMDRoot_mth\<close>, \<open>MerkleHash_cascade\<close>); states that are stored only at mark points are
  recomputed (\<open>GetAnyState_prefix\<close>, \<open>GetRange_slice\<close>); receipts are produced and validate
  (\<open>GetReceipt_proves\<close>, \<open>GetReceiptList_proves\<close>, \<open>Hasher_Receipt_proves\<close>). The locale \<open>intermediates\<close> is what
  the construction of a receipt needs of a tree; the chain and the hasher interpret it.

  \<^bold>\<open>Names and signers.\<close> \<open>Url\<close> models \<^verbatim>\<open>src/pkg/url\<close>. Lower case and folding are those of ASCII, where
  they agree; \<open>LocalTo_Routing\<close> is about ASCII names. \<open>Protocol\<close> models \<^verbatim>\<open>src/protocol/protocol.go\<close>,
  and \<open>Auth\<close> the key pages, authorities, signers and statuses of \<^verbatim>\<open>src/protocol\<close> (\<open>TxIdSet_correct\<close>, \<open>AccountAuth_map\<close>, \<open>AddKeySpec_page\<close>, \<open>credits_conserved\<close>).

  \<^bold>\<open>The Binary Patricia Tree\<close> (\<^verbatim>\<open>src/smt/pmt\<close>). \<open>Bpt_Key\<close> holds the keys of nodes, \<open>Bpt\<close> the tree and its
  operations, in memory and in byte blocks of a database. \<open>Bpt_Insert\<close> and \<open>Bpt_Update\<close> show that the tree
  is a map and that its root hash is a function of the map (\<open>bpt_is_map\<close>, \<open>root_hash_of_contents\<close>, over
  the locale \<open>authenticated_map\<close>); \<open>Bpt_Store\<close> that a tree opened from the database is the tree that
  was written; \<open>Bpt_Range\<close>, \<open>Bpt_Receipt\<close> and \<open>Bpt_Snapshot\<close> cover reading by pages, receipts and snapshots.

  \<^bold>\<open>Executors.\<close> \<open>Accounts\<close> has the accounts and bodies, the records of a batch and the state manager of
  \<^verbatim>\<open>src/internal/chain\<close>. \<open>Tokens\<close>, \<open>Governance\<close> and \<open>Creation\<close> have the executors, \<open>Fees\<close> the fee schedule
  (\<open>refund_bounded\<close>), and \<open>Process\<close> the processing of a transaction of \<^verbatim>\<open>src/internal/block\<close>: execution,
  failure, refund, produced transactions. \<open>Pages\<close> shows what updates of a key page keep.

  \<^bold>\<open>The network.\<close> \<open>Supply\<close> shows for each executor that tokens are conserved, and \<open>Network\<close> composes
  them: the relation \<open>step\<close> processes a user's transaction or one in flight on a partition, \<open>run\<close> is a
  sequence of steps with what it loses and doubles of each token. Over every run the supply is
  conserved up to that (\<open>supply_conserved\<close>) and accounts stay well-formed. Tokens are doubled by
  transactions that are refunded although they were executed, see \<open>network_deposit_doubled\<close>.
  \<open>Exchange\<close> models the ledger of synthetic transactions and shows that those of a source are delivered
  once, in order, and without one being left that could be delivered.

  \<^bold>\<open>Loops.\<close> Recursion that is not structural has a termination proof. One definition has fuel:
  \<open>unmarshal_entry\<close>, which reads the entries of a byte block, gets the length of the data and one more.
  Every entry takes at least a byte, so the fuel does not end before the data. Loops that may not end
  are partial functions with the value \<open>None\<close> for not returning (\<open>build_loop\<close>, \<open>unpack_loop\<close>, \<open>BPT_Get\<close>, \<open>insertAtNode\<close>, \<open>update_loop\<close>, \<open>WalkRange\<close>, \<open>CollectReceipt\<close>, \<open>save_loop\<close>, \<open>read_loop\<close>,
  \<open>additional\<close>). The properties state that they return. \<open>unpack_loop\<close> is the one that does not always.

  \<^bold>\<open>Parameters.\<close> The marshalled bytes or the size of a body whose codec is generated are arguments,
  as are the hash of a transaction, the oracle price, the states of accounts in a snapshot, and whether
  a receipt of a synthetic transaction was proven. A run of the network starts in a well-formed state;
  the URLs by which the transactions of users name tokens have only an ASCII authority and a path that
  needs no escaping, so that equal URLs have the same account ID; and the faucet holds ACME.
  \<open>delivered_in_order\<close> assumes that a transaction ID stands for one source and number.

  \<^bold>\<open>Not modelled.\<close> Verification of signatures and the signature chain rest on cryptographic libraries;
  the executor UpdateKey, which looks for a signature, and forwarded transactions depend on them.
  Blocks, anchors, dispatch, genesis, the node and its interfaces are I/O, time and configuration. The key-value store and the commit of batches are replaced by passing states, so
  nothing is said of a store that fails. The executors for data entries and anchors need the generated
  binary and JSON codecs, of which only those of the modelled types are here. URLs are not parsed from
  strings, and letters outside ASCII are not folded.
\<close>

end
